(* ===== verification/Go_Prelude.thy ===== *)
theory Go_Prelude
  imports Main "HOL-Library.Sublist"
begin

text \<open>
  The prelude of the development: Go strings as byte lists, the functions of Go's
  \<^verbatim>\<open>strings\<close> and \<^verbatim>\<open>strconv\<close> packages that the proxy calls, and the generic lemmas on
  lists and options that the component theories share.

  A Go \<^verbatim>\<open>string\<close> is a sequence of bytes, so \<^typ>\<open>string\<close> (a list of 8-bit characters) is
  exact. Unicode enters in two places only: \<^verbatim>\<open>strings.TrimSpace\<close>, whose white space runes are
  listed by their UTF-8 encodings below, and \<^verbatim>\<open>strings.ToLower\<close> on a string with a byte above
  127, where the case mapping comes from Unicode tables and is a parameter \<open>ul\<close>.
\<close>

named_theorems go_defs \<open>definitions of Go library functions, unfolded by component proofs\<close>

named_theorems const_defs \<open>the string constants of the program\<close>

type_synonym bytes = string

section \<open>Bytes\<close>

abbreviation byte :: "char \<Rightarrow> nat" where
  "byte c \<equiv> of_char c"

definition is_ascii :: "char \<Rightarrow> bool" where
  "is_ascii c \<longleftrightarrow> byte c < 128"

definition is_digit :: "char \<Rightarrow> bool" where
  "is_digit c \<longleftrightarrow> 48 \<le> byte c \<and> byte c \<le> 57"

definition is_upper :: "char \<Rightarrow> bool" where
  "is_upper c \<longleftrightarrow> 65 \<le> byte c \<and> byte c \<le> 90"

definition is_lower :: "char \<Rightarrow> bool" where
  "is_lower c \<longleftrightarrow> 97 \<le> byte c \<and> byte c \<le> 122"

definition lower_char :: "char \<Rightarrow> char" where
  "lower_char c = (if is_upper c then char_of (byte c + 32) else c)"

definition upper_char :: "char \<Rightarrow> char" where
  "upper_char c = (if is_lower c then char_of (byte c - 32) else c)"

lemmas char_class_defs = is_ascii_def is_digit_def is_upper_def is_lower_def

text \<open>\<^verbatim>\<open>strings.ToLower\<close>: the ASCII fast path, and \<open>ul\<close> for every other string.\<close>

definition to_lower :: "(string \<Rightarrow> string) \<Rightarrow> string \<Rightarrow> string" where
  "to_lower ul s = (if list_all is_ascii s then map lower_char s else ul s)"

section \<open>Searching and splitting\<close>

text \<open>\<^verbatim>\<open>strings.IndexByte\<close> and \<^verbatim>\<open>strings.LastIndexByte\<close>, \<open>None\<close> for -1.\<close>

fun index_byte :: "char \<Rightarrow> string \<Rightarrow> nat option" where
  "index_byte c [] = None"
| "index_byte c (x # xs) = (if x = c then Some 0 else map_option Suc (index_byte c xs))"

definition last_index_byte :: "char \<Rightarrow> string \<Rightarrow> nat option" where
  "last_index_byte c s = map_option (\<lambda>i. length s - Suc i) (index_byte c (rev s))"

text \<open>\<^verbatim>\<open>strings.SplitSeq(s, sep)\<close> for a one-byte separator: never empty, also for \<open>s = []\<close>.\<close>

fun split_sep :: "char \<Rightarrow> string \<Rightarrow> string list" where
  "split_sep c [] = [[]]"
| "split_sep c (x # xs) =
     (if x = c then [] # split_sep c xs
      else (case split_sep c xs of [] \<Rightarrow> [[x]] | p # ps \<Rightarrow> (x # p) # ps))"

fun join_sep :: "char \<Rightarrow> string list \<Rightarrow> string" where
  "join_sep c [] = []"
| "join_sep c [p] = p"
| "join_sep c (p # q # ps) = p @ c # join_sep c (q # ps)"

section \<open>TrimSpace\<close>

text \<open>
  The UTF-8 encodings of the runes for which \<^verbatim>\<open>unicode.IsSpace\<close> holds. They are valid shortest
  encodings, so a string starts (ends) with a white space rune exactly when one of them is a
  prefix (suffix) of it.
\<close>

definition space_encodings :: "string list" where
  "space_encodings =
     [[CHR 0x09], [CHR 0x0A], [CHR 0x0B], [CHR 0x0C], [CHR 0x0D], [CHR 0x20],
      [CHR 0xC2, CHR 0x85], [CHR 0xC2, CHR 0xA0], [CHR 0xE1, CHR 0x9A, CHR 0x80],
      [CHR 0xE2, CHR 0x80, CHR 0x80], [CHR 0xE2, CHR 0x80, CHR 0x81], [CHR 0xE2, CHR 0x80, CHR 0x82],
      [CHR 0xE2, CHR 0x80, CHR 0x83], [CHR 0xE2, CHR 0x80, CHR 0x84], [CHR 0xE2, CHR 0x80, CHR 0x85],
      [CHR 0xE2, CHR 0x80, CHR 0x86], [CHR 0xE2, CHR 0x80, CHR 0x87], [CHR 0xE2, CHR 0x80, CHR 0x88],
      [CHR 0xE2, CHR 0x80, CHR 0x89], [CHR 0xE2, CHR 0x80, CHR 0x8A], [CHR 0xE2, CHR 0x80, CHR 0xA8],
      [CHR 0xE2, CHR 0x80, CHR 0xA9], [CHR 0xE2, CHR 0x80, CHR 0xAF], [CHR 0xE2, CHR 0x81, CHR 0x9F],
      [CHR 0xE3, CHR 0x80, CHR 0x80]]"

text \<open>Strip prefixes of a given list as long as there is one; empty patterns are ignored.\<close>

function strip_prefixes :: "string list \<Rightarrow> string \<Rightarrow> string" where
  "strip_prefixes es s =
     (case find (\<lambda>e. e \<noteq> [] \<and> prefix e s) es of
        None \<Rightarrow> s
      | Some e \<Rightarrow> strip_prefixes es (drop (length e) s))"
  by pat_completeness auto
termination
  by (relation "measure (\<lambda>(es, s). length s)")
     (auto simp: find_Some_iff prefix_def)

declare strip_prefixes.simps [simp del]

definition trim_left :: "string \<Rightarrow> string" where
  "trim_left s = strip_prefixes space_encodings s"

definition trim_right :: "string \<Rightarrow> string" where
  "trim_right s = rev (strip_prefixes (map rev space_encodings) (rev s))"

definition trim_space :: "string \<Rightarrow> string" where
  "trim_space s = trim_right (trim_left s)"

section \<open>Decimal numbers\<close>

fun parse_digits :: "nat \<Rightarrow> string \<Rightarrow> nat option" where
  "parse_digits acc [] = Some acc"
| "parse_digits acc (c # cs) =
     (if is_digit c then parse_digits (acc * 10 + (byte c - 48)) cs else None)"

definition parse_dec :: "string \<Rightarrow> nat option" where
  "parse_dec s = (if s = [] then None else parse_digits 0 s)"

text \<open>\<^verbatim>\<open>strconv.ParseUint(s, 10, 64)\<close>: no sign, no underscore, below \<open>2 ^ 64\<close>.\<close>

definition parse_uint64 :: "string \<Rightarrow> nat option" where
  "parse_uint64 s =
     (case parse_dec s of Some n \<Rightarrow> (if int n < 2 ^ 64 then Some n else None) | None \<Rightarrow> None)"

text \<open>\<^verbatim>\<open>strconv.Atoi\<close> on a 64-bit platform: an optional sign, then a decimal number in range.\<close>

definition atoi :: "string \<Rightarrow> int option" where
  "atoi s =
     (case s of
        [] \<Rightarrow> None
      | c # cs \<Rightarrow>
          let neg = (c = CHR ''-'');
              ds = (if c = CHR ''-'' \<or> c = CHR ''+'' then cs else s)
          in (case parse_dec ds of
                None \<Rightarrow> None
              | Some n \<Rightarrow>
                  let v = (if neg then - int n else int n)
                  in (if - (2 ^ 63) \<le> v \<and> v < 2 ^ 63 then Some v else None)))"

fun dec_of_nat :: "nat \<Rightarrow> string" where
  "dec_of_nat n =
     (if n < 10 then [char_of (48 + n)] else dec_of_nat (n div 10) @ [char_of (48 + n mod 10)])"

declare dec_of_nat.simps [simp del]

text \<open>\<^verbatim>\<open>strconv.Itoa\<close>.\<close>

definition itoa :: "int \<Rightarrow> string" where
  "itoa i = (if i < 0 then CHR ''-'' # dec_of_nat (nat (- i)) else dec_of_nat (nat i))"

section \<open>Lemmas on splitting\<close>

lemma split_sep_not_Nil [simp]: "split_sep c s \<noteq> []"
  by (cases s) (auto split: list.splits)

lemma split_sep_no_sep: "p \<in> set (split_sep c s) \<Longrightarrow> c \<notin> set p"
  by (induction s arbitrary: p) (auto split: list.splits if_splits)

lemma join_sep_Cons: "ps \<noteq> [] \<Longrightarrow> join_sep c (p # ps) = p @ c # join_sep c ps"
  by (cases ps) auto

lemma join_split_sep [simp]: "join_sep c (split_sep c s) = s"
proof (induction s)
  case Nil
  show ?case by simp
next
  case (Cons x xs)
  obtain p ps where sp: "split_sep c xs = p # ps"
    by (cases "split_sep c xs") auto
  show ?case
  proof (cases "x = c")
    case True
    with Cons.IH show ?thesis by (simp add: join_sep_Cons)
  next
    case False
    with Cons.IH sp show ?thesis by (cases ps) auto
  qed
qed

lemma split_sep_id: "c \<notin> set s \<Longrightarrow> split_sep c s = [s]"
  by (induction s) auto

section \<open>Lemmas on list search\<close>

lemma find_append_first: "P x \<Longrightarrow> list_all (\<lambda>p. \<not> P p) ys \<Longrightarrow> find P (ys @ x # zs) = Some x"
  by (induction ys) auto

lemma find_Some_split:
  "find P xs = Some x \<longleftrightarrow> (\<exists>ys zs. xs = ys @ x # zs \<and> P x \<and> list_all (\<lambda>p. \<not> P p) ys)"
proof
  show "find P xs = Some x \<Longrightarrow> \<exists>ys zs. xs = ys @ x # zs \<and> P x \<and> list_all (\<lambda>p. \<not> P p) ys"
  proof (induction xs)
    case (Cons y ys)
    show ?case
    proof (cases "P y")
      case True
      with Cons.prems show ?thesis by force
    next
      case False
      with Cons obtain us zs where "ys = us @ x # zs" "P x" "list_all (\<lambda>p. \<not> P p) us" by auto
      with False show ?thesis by (intro exI [of _ "y # us"] exI [of _ zs]) auto
    qed
  qed simp
qed (auto simp: find_append_first)

lemma find_map: "find P (map f xs) = map_option f (find (\<lambda>x. P (f x)) xs)"
  by (induction xs) auto

section \<open>Lemmas on index search\<close>

lemma index_byte_None: "index_byte c s = None \<longleftrightarrow> c \<notin> set s"
  by (induction s) auto

lemma index_byte_Some:
  "index_byte c s = Some i \<longleftrightarrow> i < length s \<and> s ! i = c \<and> c \<notin> set (take i s)"
proof (induction s arbitrary: i)
  case Nil
  show ?case by simp
next
  case (Cons x xs)
  show ?case
    by (cases i) (auto simp: Cons.IH)
qed

lemma index_byte_append:
  "c \<notin> set xs \<Longrightarrow> index_byte c (xs @ c # ys) = Some (length xs)"
  by (induction xs) auto

lemma last_index_byte_None: "last_index_byte c s = None \<longleftrightarrow> c \<notin> set s"
  by (simp add: last_index_byte_def index_byte_None)

lemma last_index_byte_append:
  assumes "c \<notin> set ys"
  shows "last_index_byte c (xs @ c # ys) = Some (length xs)"
  using assms index_byte_append [of c "rev ys" "rev xs"] by (simp add: last_index_byte_def)

lemma last_index_byte_Some:
  assumes "last_index_byte c s = Some i"
  shows "\<exists>xs ys. s = xs @ c # ys \<and> length xs = i \<and> c \<notin> set ys"
proof -
  have "c \<in> set s"
    using assms last_index_byte_None [of c s] by force
  then obtain xs ys where s: "s = xs @ c # ys" and "c \<notin> set ys"
    by (meson split_list_last)
  with assms show ?thesis
    using last_index_byte_append by auto
qed

section \<open>Lemmas on trimming\<close>

lemma strip_prefixes_suffix: "suffix (strip_prefixes es s) s"
proof (induction es s rule: strip_prefixes.induct)
  case (1 es s)
  show ?case
  proof (cases "find (\<lambda>e. e \<noteq> [] \<and> prefix e s) es")
    case None
    then show ?thesis by (simp add: strip_prefixes.simps [of es s])
  next
    case (Some e)
    with "1.IH" have "suffix (strip_prefixes es (drop (length e) s)) (drop (length e) s)" by simp
    then have "suffix (strip_prefixes es (drop (length e) s)) s"
      by (meson suffix_drop suffix_order.trans)
    with Some show ?thesis by (simp add: strip_prefixes.simps [of es s])
  qed
qed

lemma strip_prefixes_no_prefix:
  "e \<in> set es \<Longrightarrow> e \<noteq> [] \<Longrightarrow> \<not> prefix e (strip_prefixes es s)"
proof (induction es s rule: strip_prefixes.induct)
  case (1 es s)
  show ?case
  proof (cases "find (\<lambda>e. e \<noteq> [] \<and> prefix e s) es")
    case None
    then have "strip_prefixes es s = s" by (simp add: strip_prefixes.simps [of es s])
    with None "1.prems" show ?thesis by (auto simp: find_None_iff)
  next
    case (Some e')
    then show ?thesis using "1.IH" "1.prems" by (simp add: strip_prefixes.simps [of es s])
  qed
qed

lemma strip_prefixes_id:
  assumes "\<And>e. e \<in> set es \<Longrightarrow> e \<noteq> [] \<Longrightarrow> \<not> prefix e s"
  shows "strip_prefixes es s = s"
proof -
  have "find (\<lambda>e. e \<noteq> [] \<and> prefix e s) es = None"
    using assms by (auto simp: find_None_iff)
  then show ?thesis by (simp add: strip_prefixes.simps [of es s])
qed

lemma set_strip_prefixes: "set (strip_prefixes es s) \<subseteq> set s"
  using strip_prefixes_suffix set_mono_suffix by blast

lemma set_trim_space: "set (trim_space s) \<subseteq> set s"
  unfolding trim_space_def trim_right_def trim_left_def
  using set_strip_prefixes by (metis dual_order.trans set_rev)

text \<open>A string with neither a space nor a non-ASCII byte is not changed by trimming.\<close>

definition plain_char :: "char \<Rightarrow> bool" where
  "plain_char c \<longleftrightarrow> 32 < byte c \<and> byte c < 128"

lemma space_encodings_not_plain:
  "e \<in> set space_encodings \<Longrightarrow> \<exists>c \<in> set e. \<not> plain_char c"
  by (auto simp: space_encodings_def plain_char_def)

lemma space_encodings_ends:
  "e \<in> set space_encodings \<Longrightarrow> e \<noteq> [] \<and> \<not> plain_char (hd e) \<and> \<not> plain_char (last e)"
  by (auto simp: space_encodings_def plain_char_def)

lemma trim_left_plain:
  assumes "s = [] \<or> plain_char (hd s)"
  shows "trim_left s = s"
  unfolding trim_left_def
proof (rule strip_prefixes_id)
  fix e assume "e \<in> set space_encodings" "e \<noteq> []"
  with assms space_encodings_ends [of e] show "\<not> prefix e s"
    by (cases s; cases e) auto
qed

lemma trim_right_plain:
  assumes "s = [] \<or> plain_char (last s)"
  shows "trim_right s = s"
proof -
  have "strip_prefixes (map rev space_encodings) (rev s) = rev s"
  proof (rule strip_prefixes_id)
    fix e assume e: "e \<in> set (map rev space_encodings)" "e \<noteq> []"
    then obtain d where d: "d \<in> set space_encodings" "e = rev d" by auto
    show "\<not> prefix e (rev s)"
    proof
      assume p: "prefix e (rev s)"
      then have "s \<noteq> []" using e(2) by auto
      moreover have "hd e = hd (rev s)"
        using p e(2) by (metis hd_append2 prefix_def)
      ultimately have "last d = last s"
        using d by (simp add: hd_rev)
      with assms \<open>s \<noteq> []\<close> space_encodings_ends [OF d(1)] show False by simp
    qed
  qed
  then show ?thesis by (simp add: trim_right_def)
qed

lemma trim_space_plain: "list_all plain_char s \<Longrightarrow> trim_space s = s"
  by (cases "s = []")
     (auto simp: trim_space_def trim_left_plain trim_right_plain list_all_iff)

section \<open>Lemmas on decimal numbers\<close>

lemma byte_digit [simp]: "d < 10 \<Longrightarrow> byte (char_of (48 + d :: nat)) = 48 + d"
  by simp

lemma is_digit_char_of [simp]: "d < 10 \<Longrightarrow> is_digit (char_of (48 + d :: nat))"
  by (simp add: is_digit_def)

lemma parse_digits_append:
  "parse_digits acc (xs @ ys) = Option.bind (parse_digits acc xs) (\<lambda>a. parse_digits a ys)"
  by (induction xs arbitrary: acc) auto

lemma parse_digits_mono: "parse_digits acc s = Some n \<Longrightarrow> acc \<le> n"
  by (induction s arbitrary: acc) (fastforce split: if_splits)+

lemma parse_digits_all_digits: "parse_digits acc s = Some n \<Longrightarrow> list_all is_digit s"
  by (induction s arbitrary: acc) (auto split: if_splits)

lemma dec_of_nat_not_Nil [simp]: "dec_of_nat n \<noteq> []"
  by (simp add: dec_of_nat.simps [of n])

lemma dec_of_nat_digits: "list_all is_digit (dec_of_nat n)"
proof (induction n rule: dec_of_nat.induct)
  case (1 n)
  then show ?case by (cases "n < 10") (auto simp: dec_of_nat.simps [of n])
qed

lemma parse_digits_dec_of_nat: "parse_digits 0 (dec_of_nat n) = Some n"
proof (induction n rule: dec_of_nat.induct)
  case (1 n)
  show ?case
  proof (cases "n < 10")
    case True
    then show ?thesis by (simp add: dec_of_nat.simps [of n])
  next
    case False
    with "1.IH" have "parse_digits 0 (dec_of_nat (n div 10)) = Some (n div 10)" by simp
    with False show ?thesis
      by (simp add: dec_of_nat.simps [of n] parse_digits_append)
  qed
qed

lemma parse_dec_dec_of_nat [simp]: "parse_dec (dec_of_nat n) = Some n"
  by (simp add: parse_dec_def parse_digits_dec_of_nat)

lemma hd_dec_of_nat_digit: "is_digit (hd (dec_of_nat n))"
  using dec_of_nat_digits [of n] by (cases "dec_of_nat n") auto

lemma atoi_itoa:
  assumes "- (2 ^ 63) \<le> i" and "i < 2 ^ 63"
  shows "atoi (itoa i) = Some i"
proof (cases "i < 0")
  case True
  with assms show ?thesis by (simp add: atoi_def itoa_def)
next
  case False
  let ?s = "dec_of_nat (nat i)"
  obtain c cs where s: "?s = c # cs" by (cases ?s) auto
  have "is_digit c" using hd_dec_of_nat_digit [of "nat i"] s by simp
  then have "c \<noteq> CHR ''-''" "c \<noteq> CHR ''+''" by (auto simp: is_digit_def)
  with False assms s have "atoi ?s = Some i"
    using parse_dec_dec_of_nat [of "nat i"] by (simp add: atoi_def)
  with False show ?thesis by (simp add: itoa_def)
qed

section \<open>Lemmas on case folding\<close>

lemma byte_lower_char: "is_upper c \<Longrightarrow> byte (lower_char c) = byte c + 32"
  by (simp add: lower_char_def is_upper_def)

lemma lower_char_idem [simp]: "lower_char (lower_char c) = lower_char c"
proof (cases "is_upper c")
  case True
  then have "\<not> is_upper (lower_char c)"
    using byte_lower_char [OF True] by (simp add: is_upper_def)
  then show ?thesis by (simp add: lower_char_def)
next
  case False
  then show ?thesis by (simp add: lower_char_def)
qed

lemma is_ascii_lower_char [simp]: "is_ascii (lower_char c) = is_ascii c"
  by (auto simp: lower_char_def is_ascii_def is_upper_def)

lemma to_lower_ascii: "list_all is_ascii s \<Longrightarrow> to_lower ul s = map lower_char s"
  by (simp add: to_lower_def)

lemma to_lower_idem_ascii:
  "list_all is_ascii s \<Longrightarrow> to_lower ul (to_lower ul s) = to_lower ul s"
  by (simp add: to_lower_def list_all_iff)

end
