(* ===== verification/Host_Port.thy ===== *)
theory Host_Port
  imports Go_Prelude
begin

text \<open>
  Host and port strings: Go's \<^verbatim>\<open>net.SplitHostPort\<close> and \<^verbatim>\<open>net.JoinHostPort\<close>, and the proxy's
  functions built on them: \<^verbatim>\<open>extractHost\<close> (src/internal/proxy/dial.go),
  \<^verbatim>\<open>stripIPv6Brackets\<close>, \<^verbatim>\<open>sameHost\<close> and the target computed by \<^verbatim>\<open>dialDirect\<close>
  (src/internal/proxy/direct.go). The lemmas show the round trip of joining and splitting and
  that \<^verbatim>\<open>sameHost\<close> decides equality of the dialled target, up to letter case, for every host
  that is not a bare bracketed literal.
\<close>

section \<open>net.SplitHostPort and net.JoinHostPort\<close>

datatype addr_error =
    MissingPort
  | TooManyColons
  | MissingBracket
  | UnexpectedOpen
  | UnexpectedClose

definition split_finish ::
    "string \<Rightarrow> nat \<Rightarrow> string \<Rightarrow> nat \<Rightarrow> nat \<Rightarrow> addr_error + (string \<times> string)" where
  "split_finish hp i host j k =
     (if CHR ''['' \<in> set (drop j hp) then Inl UnexpectedOpen
      else if CHR '']'' \<in> set (drop k hp) then Inl UnexpectedClose
      else Inr (host, drop (Suc i) hp))"

definition splitHostPort :: "string \<Rightarrow> addr_error + (string \<times> string)" where
  "splitHostPort hp =
     (case last_index_byte CHR '':'' hp of
        None \<Rightarrow> Inl MissingPort
      | Some i \<Rightarrow>
          if hd hp = CHR ''['' then
            (case index_byte CHR '']'' hp of
               None \<Rightarrow> Inl MissingBracket
             | Some e \<Rightarrow>
                 if Suc e = length hp then Inl MissingPort
                 else if Suc e = i then split_finish hp i (take (e - 1) (drop 1 hp)) 1 (Suc e)
                 else if hp ! Suc e = CHR '':'' then Inl TooManyColons
                 else Inl MissingPort)
          else if CHR '':'' \<in> set (take i hp) then Inl TooManyColons
          else split_finish hp i (take i hp) 0 0)"

definition joinHostPort :: "string \<Rightarrow> string \<Rightarrow> string" where
  "joinHostPort host port =
     (if CHR '':'' \<in> set host then CHR ''['' # host @ CHR '']'' # CHR '':'' # port
      else host @ CHR '':'' # port)"

section \<open>The proxy's host functions\<close>

definition extractHost :: "string \<Rightarrow> string" where
  "extractHost addr = (case splitHostPort addr of Inr (h, _) \<Rightarrow> h | Inl _ \<Rightarrow> addr)"

definition stripIPv6Brackets :: "string \<Rightarrow> string" where
  "stripIPv6Brackets host =
     (if prefix [CHR ''[''] host \<and> suffix [CHR '']''] host
      then drop 1 (take (length host - 1) host)
      else host)"

text \<open>The local function \<^verbatim>\<open>canon\<close> of \<^verbatim>\<open>sameHost\<close>; \<open>ul\<close> is Go's non-ASCII lower-casing.\<close>

definition canonHost :: "(string \<Rightarrow> string) \<Rightarrow> string \<Rightarrow> string \<Rightarrow> string" where
  "canonHost ul defaultPort h0 =
     (let h = to_lower ul (trim_space h0)
      in (case splitHostPort h of
            Inr (host, port) \<Rightarrow> joinHostPort host port
          | Inl _ \<Rightarrow> joinHostPort (stripIPv6Brackets h) defaultPort))"

definition sameHost :: "(string \<Rightarrow> string) \<Rightarrow> string \<Rightarrow> string \<Rightarrow> string \<Rightarrow> bool" where
  "sameHost ul a b defaultPort \<longleftrightarrow> canonHost ul defaultPort a = canonHost ul defaultPort b"

text \<open>The address \<^verbatim>\<open>dialDirect\<close> passes to \<^verbatim>\<open>Dial\<close>.\<close>

definition dialTarget :: "string \<Rightarrow> string \<Rightarrow> string" where
  "dialTarget host defaultPort =
     (case splitHostPort host of Inl _ \<Rightarrow> joinHostPort host defaultPort | Inr _ \<Rightarrow> host)"

section \<open>Splitting what was joined\<close>

lemma split_finish_Inr:
  "split_finish hp i host j k = Inr (h, p) \<longleftrightarrow>
     CHR ''['' \<notin> set (drop j hp) \<and> CHR '']'' \<notin> set (drop k hp) \<and> h = host \<and> p = drop (Suc i) hp"
  by (auto simp: split_finish_def)

definition bracket_free :: "string \<Rightarrow> bool" where
  "bracket_free s \<longleftrightarrow> CHR ''['' \<notin> set s \<and> CHR '']'' \<notin> set s"

lemma splitHostPort_plain:
  assumes "CHR '':'' \<notin> set h" "CHR '':'' \<notin> set p" "bracket_free h" "bracket_free p"
  shows "splitHostPort (h @ CHR '':'' # p) = Inr (h, p)"
proof -
  have "last_index_byte CHR '':'' (h @ CHR '':'' # p) = Some (length h)"
    using assms by (simp add: last_index_byte_append)
  moreover have "hd (h @ CHR '':'' # p) \<noteq> CHR ''[''"
    using assms by (cases h) (auto simp: bracket_free_def)
  ultimately show ?thesis
    using assms by (simp add: splitHostPort_def split_finish_def bracket_free_def)
qed

lemma splitHostPort_bracketed:
  assumes "CHR '':'' \<notin> set p" "bracket_free h" "bracket_free p"
  shows "splitHostPort (CHR ''['' # h @ CHR '']'' # CHR '':'' # p) = Inr (h, p)"
proof -
  let ?s = "CHR ''['' # h @ CHR '']'' # CHR '':'' # p"
  have "last_index_byte CHR '':'' ?s = Some (Suc (Suc (length h)))"
    using last_index_byte_append [of "CHR '':''" p "CHR ''['' # h @ [CHR '']'']"] assms by simp
  moreover have "index_byte CHR '']'' ?s = Some (Suc (length h))"
    using index_byte_append [of "CHR '']''" "CHR ''['' # h" "CHR '':'' # p"] assms
    by (simp add: bracket_free_def)
  ultimately show ?thesis
    using assms by (simp add: splitHostPort_def split_finish_def bracket_free_def)
qed

lemma splitHostPort_join:
  assumes "bracket_free h" "bracket_free p" "CHR '':'' \<notin> set p"
  shows "splitHostPort (joinHostPort h p) = Inr (h, p)"
  using assms by (simp add: joinHostPort_def splitHostPort_plain splitHostPort_bracketed)

text \<open>What a successful split says about its input.\<close>

lemma splitHostPort_Inr_cases:
  assumes "splitHostPort s = Inr (h, p)"
  obtains (plain) "s = h @ CHR '':'' # p" "CHR '':'' \<notin> set h" "CHR '':'' \<notin> set p"
      "bracket_free h" "bracket_free p" "hd s \<noteq> CHR ''[''"
  | (bracketed) "s = CHR ''['' # h @ CHR '']'' # CHR '':'' # p" "CHR '':'' \<notin> set p"
      "bracket_free h" "bracket_free p"
proof -
  obtain i where i: "last_index_byte CHR '':'' s = Some i"
    using assms by (auto simp: splitHostPort_def split: option.splits)
  obtain xs ys where s: "s = xs @ CHR '':'' # ys" "length xs = i" "CHR '':'' \<notin> set ys"
    using last_index_byte_Some [OF i] by blast
  show thesis
  proof (cases "hd s = CHR ''[''")
    case False
    with assms i s have "h = xs" "p = ys" "CHR '':'' \<notin> set xs" "bracket_free s"
      by (auto simp: splitHostPort_def split_finish_Inr bracket_free_def split: if_splits)
    with s False show thesis by (intro plain) (auto simp: bracket_free_def)
  next
    case True
    with assms i obtain e where e: "index_byte CHR '']'' s = Some e" "Suc e = i"
      "split_finish s i (take (e - 1) (drop 1 s)) 1 (Suc e) = Inr (h, p)"
      by (auto simp: splitHostPort_def split: option.splits if_splits)
    from e(2) s(2) have lxs: "length xs = Suc e" by simp
    from e(1) s(1) lxs have xe: "xs ! e = CHR '']''" and ne: "CHR '']'' \<notin> set (take e xs)"
      by (auto simp: index_byte_Some nth_append)
    have xs: "xs = take e xs @ [CHR '']'']"
      using lxs xe by (metis lessI take_Suc_conv_app_nth take_all order_refl)
    have "e \<noteq> 0"
    proof
      assume "e = 0"
      with xs have "xs = [CHR '']'']" by simp
      with True s(1) show False by simp
    qed
    then obtain zs where zs: "take e xs = CHR ''['' # zs"
      using True s(1) xs lxs by (cases "take e xs") (auto simp: hd_append)
    from s(1) xs zs have s': "s = CHR ''['' # zs @ CHR '']'' # CHR '':'' # ys"
      by (metis append_Cons append_assoc append_Nil)
    from zs lxs have ez: "e = Suc (length zs)"
      by (metis length_Cons length_take min.absorb2 le_SucI order_refl)
    with e s' ne zs have "h = zs" "p = ys" "bracket_free zs" "bracket_free ys"
      by (auto simp: split_finish_Inr bracket_free_def)
    with s(3) s' show thesis by (intro bracketed) auto
  qed
qed

section \<open>Case folding commutes with splitting\<close>

lemma lower_char_punct:
  assumes "c \<in> {CHR '':'', CHR ''['', CHR '']''}"
  shows "lower_char x = c \<longleftrightarrow> x = c"
proof (cases "is_upper x")
  case True
  then have "byte (lower_char x) = byte x + 32" by (rule byte_lower_char)
  with True assms show ?thesis by (auto simp: is_upper_def)
next
  case False
  then show ?thesis by (simp add: lower_char_def)
qed

lemma lower_char_fixes:
  "lower_char CHR ''['' = CHR ''[''" "lower_char CHR '']'' = CHR '']''"
  "(CHR ''['' = lower_char x) = (x = CHR ''['')" "(CHR '']'' = lower_char x) = (x = CHR '']'')"
  "lower_char CHR '':'' = CHR '':''"
  using lower_char_punct [of "CHR ''[''" x] lower_char_punct [of "CHR '']''" x]
  by (auto simp: lower_char_def is_upper_def)

lemma index_byte_map_lower:
  assumes "c \<in> {CHR '':'', CHR ''['', CHR '']''}"
  shows "index_byte c (map lower_char s) = index_byte c s"
  by (induction s) (simp_all add: lower_char_punct [OF assms])

lemma last_index_byte_map_lower:
  assumes "c \<in> {CHR '':'', CHR ''['', CHR '']''}"
  shows "last_index_byte c (map lower_char s) = last_index_byte c s"
  using index_byte_map_lower [OF assms, of "rev s"] by (simp add: last_index_byte_def rev_map)

lemma in_set_map_lower:
  assumes "c \<in> {CHR '':'', CHR ''['', CHR '']''}"
  shows "c \<in> set (map lower_char s) \<longleftrightarrow> c \<in> set s"
  using lower_char_punct [OF assms] by (force simp: image_iff)

lemmas punct_map_lower =
  in_set_map_lower [of "CHR '':''", simplified] in_set_map_lower [of "CHR ''[''", simplified]
  in_set_map_lower [of "CHR '']''", simplified]

lemma splitHostPort_map_lower:
  "splitHostPort (map lower_char s) =
     (case splitHostPort s of
        Inl e \<Rightarrow> Inl e
      | Inr (h, p) \<Rightarrow> Inr (map lower_char h, map lower_char p))"
proof (cases "last_index_byte CHR '':'' s")
  case None
  then show ?thesis
    by (simp add: splitHostPort_def last_index_byte_map_lower)
next
  case (Some i)
  then have "s \<noteq> []" by (auto simp: last_index_byte_def)
  then have hd: "hd (map lower_char s) = CHR ''['' \<longleftrightarrow> hd s = CHR ''[''"
    by (simp add: hd_map lower_char_punct)
  have fin: "split_finish (map lower_char s) i (map lower_char h) j k =
      (case split_finish s i h j k of Inl e \<Rightarrow> Inl e
       | Inr (h, p) \<Rightarrow> Inr (map lower_char h, map lower_char p))" for h j k
    by (simp add: split_finish_def drop_map punct_map_lower)
  show ?thesis
  proof (cases "index_byte CHR '']'' s")
    case None
    with Some hd show ?thesis
      by (simp add: splitHostPort_def last_index_byte_map_lower index_byte_map_lower fin
          take_map punct_map_lower)
  next
    case (Some e)
    then have "e < length s" by (simp add: index_byte_Some)
    then have "Suc e \<noteq> length s \<Longrightarrow> map lower_char s ! Suc e = CHR '':'' \<longleftrightarrow> s ! Suc e = CHR '':''"
      by (simp add: lower_char_punct)
    with Some hd \<open>last_index_byte CHR '':'' s = Some i\<close> show ?thesis
      by (simp add: splitHostPort_def last_index_byte_map_lower index_byte_map_lower
          take_map drop_map punct_map_lower fin)
  qed
qed

lemma joinHostPort_map_lower:
  "joinHostPort (map lower_char h) (map lower_char p) = map lower_char (joinHostPort h p)"
  by (simp add: joinHostPort_def punct_map_lower lower_char_fixes)

section \<open>sameHost decides equality of dial targets\<close>

text \<open>What \<^verbatim>\<open>Dial\<close> connects to, as one string: the target with its host and port separated and
  joined again, which drops brackets around a host without a colon.\<close>

definition endpoint :: "string \<Rightarrow> string" where
  "endpoint t = (case splitHostPort t of Inr (h, p) \<Rightarrow> joinHostPort h p | Inl _ \<Rightarrow> t)"

definition bare_bracketed :: "string \<Rightarrow> bool" where
  "bare_bracketed h \<longleftrightarrow> prefix [CHR ''[''] h \<and> suffix [CHR '']''] h"

definition port_like :: "string \<Rightarrow> bool" where
  "port_like p \<longleftrightarrow> list_all is_digit p"

lemma port_like_chars:
  assumes "port_like p"
  shows "CHR '':'' \<notin> set p" "bracket_free p" "map lower_char p = p"
  using assms by (auto simp: port_like_def list_all_iff is_digit_def bracket_free_def
      lower_char_def is_upper_def intro!: map_idI)

lemma splitHostPort_join_bare:
  assumes "\<not> bare_bracketed h" "port_like p"
  shows "splitHostPort (joinHostPort h p) = Inr (h, p) \<or> (\<exists>e. splitHostPort (joinHostPort h p) = Inl e)"
proof (cases "splitHostPort (joinHostPort h p)")
  case (Inr hp)
  obtain h' p' where hp: "hp = (h', p')" by (cases hp)
  note pl = port_like_chars [OF assms(2)]
  from Inr hp have "splitHostPort (joinHostPort h p) = Inr (h', p')" by simp
  then have "h' = h \<and> p' = p"
  proof (cases rule: splitHostPort_Inr_cases)
    case plain
    from plain(6) have "CHR '':'' \<notin> set h"
      by (auto simp: joinHostPort_def)
    with plain pl(1) show ?thesis
      by (auto simp: joinHostPort_def append_eq_append_conv2 append_eq_Cons_conv Cons_eq_append_conv)
  next
    case bracketed
    show ?thesis
    proof (cases "CHR '':'' \<in> set h")
      case True
      with bracketed(1) have "h @ CHR '']'' # CHR '':'' # p = h' @ CHR '']'' # CHR '':'' # p'"
        by (simp add: joinHostPort_def)
      moreover have "last_index_byte CHR '':'' (h @ CHR '']'' # CHR '':'' # p) = Some (Suc (length h))"
        using last_index_byte_append [OF pl(1), of "h @ [CHR '']'']"] by simp
      moreover have "last_index_byte CHR '':'' (h' @ CHR '']'' # CHR '':'' # p') = Some (Suc (length h'))"
        using last_index_byte_append [OF bracketed(2), of "h' @ [CHR '']'']"] by simp
      ultimately show ?thesis by auto
    next
      case False
      with bracketed(1) have "h @ CHR '':'' # p = (CHR ''['' # h' @ [CHR '']'']) @ CHR '':'' # p'"
        by (simp add: joinHostPort_def)
      then have "h = CHR ''['' # h' @ [CHR '']'']"
        using last_index_byte_append [OF pl(1), of h]
          last_index_byte_append [OF bracketed(2), of "CHR ''['' # h' @ [CHR '']'']"]
        by (metis append_eq_append_conv option.inject)
      with assms(1) show ?thesis by (simp add: bare_bracketed_def suffix_def)
    qed
  qed
  with Inr hp show ?thesis by simp
qed auto

lemma endpoint_join:
  assumes "\<not> bare_bracketed h" "port_like p"
  shows "endpoint (joinHostPort h p) = joinHostPort h p"
  using splitHostPort_join_bare [OF assms] by (auto simp: endpoint_def)

lemma stripIPv6Brackets_id: "\<not> bare_bracketed h \<Longrightarrow> stripIPv6Brackets h = h"
  by (auto simp: stripIPv6Brackets_def bare_bracketed_def)

lemma bare_bracketed_map_lower: "bare_bracketed (map lower_char h) = bare_bracketed h"
proof -
  have "prefix [CHR ''[''] (map lower_char h) = prefix [CHR ''[''] h"
    by (cases h) (auto simp: lower_char_punct lower_char_fixes)
  moreover have "suffix [CHR '']''] (map lower_char h) = suffix [CHR '']''] h"
    by (cases h rule: rev_cases) (auto simp: lower_char_punct lower_char_fixes)
  ultimately show ?thesis by (simp add: bare_bracketed_def)
qed

lemma canonHost_eq:
  assumes "list_all plain_char a" "\<not> bare_bracketed a" "port_like dp"
  shows "canonHost ul dp a = map lower_char (endpoint (dialTarget a dp))"
proof -
  have low: "to_lower ul (trim_space a) = map lower_char a"
    using assms(1) by (simp add: trim_space_plain to_lower_def list_all_iff plain_char_def is_ascii_def)
  show ?thesis
  proof (cases "splitHostPort a")
    case (Inl e)
    then have "canonHost ul dp a = joinHostPort (map lower_char a) dp"
      using assms(2) by (simp add: canonHost_def low splitHostPort_map_lower
          stripIPv6Brackets_id bare_bracketed_map_lower)
    also have "\<dots> = map lower_char (joinHostPort a dp)"
      using joinHostPort_map_lower [of a dp] port_like_chars(3) [OF assms(3)] by simp
    finally show ?thesis using Inl assms(2,3) by (simp add: dialTarget_def endpoint_join)
  next
    case (Inr hp)
    then show ?thesis
      by (cases hp) (simp add: canonHost_def low splitHostPort_map_lower joinHostPort_map_lower
          dialTarget_def endpoint_def)
  qed
qed



section \<open>Bare bracketed literals\<close>

lemma splitHostPort_bare:
  assumes "bracket_free a"
  shows "splitHostPort (CHR ''['' # a @ [CHR '']'']) = Inl MissingPort"
proof -
  have "index_byte CHR '']'' (CHR ''['' # a @ [CHR '']'']) = Some (Suc (length a))"
    using index_byte_append [of "CHR '']''" "CHR ''['' # a" "[]"] assms by (simp add: bracket_free_def)
  then show ?thesis by (simp add: splitHostPort_def split: option.split)
qed

lemma splitHostPort_double_bracket:
  "\<exists>e. splitHostPort (CHR ''['' # CHR ''['' # s) = Inl e"
proof (cases "splitHostPort (CHR ''['' # CHR ''['' # s)")
  case (Inr hp)
  obtain h p where "hp = (h, p)" by (cases hp)
  with Inr have "splitHostPort (CHR ''['' # CHR ''['' # s) = Inr (h, p)" by simp
  then show ?thesis
    by (cases rule: splitHostPort_Inr_cases; cases h) (auto simp: bracket_free_def)
qed auto

lemma canonHost_bare:
  assumes "bracket_free a" "list_all plain_char a"
  shows "canonHost ul dp (CHR ''['' # a @ [CHR '']'']) = joinHostPort (map lower_char a) dp"
proof -
  have "list_all plain_char (CHR ''['' # a @ [CHR '']''])"
    using assms(2) by (simp add: plain_char_def)
  then have "to_lower ul (trim_space (CHR ''['' # a @ [CHR '']''])) = map lower_char (CHR ''['' # a @ [CHR '']''])"
    by (simp add: trim_space_plain to_lower_def list_all_iff plain_char_def is_ascii_def)
  also have "\<dots> = CHR ''['' # map lower_char a @ [CHR '']'']"
    by (simp add: lower_char_def is_upper_def)
  moreover have "bracket_free (map lower_char a)"
    using assms(1) by (simp add: bracket_free_def punct_map_lower)
  ultimately show ?thesis
    by (simp add: canonHost_def splitHostPort_bare stripIPv6Brackets_def suffix_def)
qed

lemma canonHost_join:
  assumes "bracket_free a" "list_all plain_char a" "port_like dp" "CHR '':'' \<in> set a"
  shows "canonHost ul dp (joinHostPort a dp) = joinHostPort (map lower_char a) dp"
proof -
  note pl = port_like_chars [OF assms(3)]
  have "list_all plain_char (joinHostPort a dp)"
    using assms(2,3)
    by (auto simp: joinHostPort_def plain_char_def port_like_def list_all_iff is_digit_def)
  moreover have "\<not> bare_bracketed (joinHostPort a dp)"
    using assms(4) pl by (cases dp rule: rev_cases)
      (auto simp: bare_bracketed_def joinHostPort_def bracket_free_def suffix_def
        dest: arg_cong [where f = last])
  ultimately have "canonHost ul dp (joinHostPort a dp) =
      map lower_char (endpoint (dialTarget (joinHostPort a dp) dp))"
    using assms(3) by (intro canonHost_eq)
  also have "\<dots> = map lower_char (joinHostPort a dp)"
    using assms pl by (simp add: dialTarget_def endpoint_def splitHostPort_join)
  finally show ?thesis using joinHostPort_map_lower [of a dp] pl(3) by simp
qed

text \<open>C40: A bare bracketed IPv6 literal is never dialled. For a host of the form \<open>[a]\<close> with no
  port, where \<open>a\<close> holds a colon, \<^verbatim>\<open>dialDirect\<close> brackets it a second time, and the address
  it dials cannot be split into a host and a port; yet \<^verbatim>\<open>sameHost\<close> takes the host for the one
  with the default port written out, which \<^verbatim>\<open>dialDirect\<close> dials as it stands.\<close>

theorem dialTarget_bare_bracketed:
  assumes "bracket_free a" "CHR '':'' \<in> set a" "list_all plain_char a" "port_like dp"
  shows "(\<exists>e. splitHostPort (dialTarget (CHR ''['' # a @ [CHR '']'']) dp) = Inl e) \<and>
    dialTarget (joinHostPort a dp) dp = joinHostPort a dp \<and>
    splitHostPort (joinHostPort a dp) = Inr (a, dp) \<and>
    sameHost ul (CHR ''['' # a @ [CHR '']'']) (joinHostPort a dp) dp"
proof -
  note pl = port_like_chars [OF assms(4)]
  have "dialTarget (CHR ''['' # a @ [CHR '']'']) dp =
      CHR ''['' # CHR ''['' # a @ CHR '']'' # CHR '']'' # CHR '':'' # dp"
    using assms by (simp add: dialTarget_def splitHostPort_bare joinHostPort_def)
  then have "\<exists>e. splitHostPort (dialTarget (CHR ''['' # a @ [CHR '']'']) dp) = Inl e"
    by (simp add: splitHostPort_double_bracket)
  moreover have "splitHostPort (joinHostPort a dp) = Inr (a, dp)"
    using assms(1) pl by (simp add: splitHostPort_join)
  ultimately show ?thesis
    using assms by (simp add: dialTarget_def sameHost_def canonHost_bare canonHost_join)
qed

theorem dialTarget_bare_bracketed_witness:
  "dialTarget ''[::1]'' ''80'' = ''[[::1]]:80'' \<and>
   (\<exists>e. splitHostPort (dialTarget ''[::1]'' ''80'') = Inl e) \<and>
   sameHost id ''[::1]'' ''[::1]:80'' ''80''"
proof -
  have h: "bracket_free ''::1''" "CHR '':'' \<in> set ''::1''" "list_all plain_char ''::1''" "port_like ''80''"
    by code_simp+
  have "dialTarget ''[::1]'' ''80'' = ''[[::1]]:80''" by code_simp
  moreover have "joinHostPort ''::1'' ''80'' = ''[::1]:80''" by code_simp
  ultimately show ?thesis
    using dialTarget_bare_bracketed [OF h, of id] by simp
qed

end
