(* ===== verification/Http_Header.thy ===== *)
theory Http_Header
  imports Host_Port "HOL-Library.AList"
begin

text \<open>
  HTTP header maps and messages. A Go \<^verbatim>\<open>http.Header\<close> is a map from field names to lists of
  values; it is modelled as an association list with distinct keys, so that loops over the map
  are executable. \<^verbatim>\<open>Get\<close>, \<^verbatim>\<open>Set\<close>, \<^verbatim>\<open>Del\<close> and \<^verbatim>\<open>Values\<close> canonicalise the key as
  \<^verbatim>\<open>net/textproto\<close> does; a direct map read \<^verbatim>\<open>header[key]\<close> does not. The locale
  \<open>header_store\<close> states what the proxy relies on, and is interpreted on this model. The
  header-name constants are those of src/internal/proxy/headers_const.go.
\<close>

section \<open>Field names\<close>

text \<open>The RFC 9110 \<open>tchar\<close> production: \<^verbatim>\<open>validHeaderFieldByte\<close> of net/textproto.\<close>

definition token_char :: "char \<Rightarrow> bool" where
  "token_char c \<longleftrightarrow> is_lower c \<or> is_upper c \<or> is_digit c \<or> c \<in> set ''!#$%&*+-.^_`|~'' \<or> c = CHR 0x27"

fun canon_chars :: "bool \<Rightarrow> string \<Rightarrow> string" where
  "canon_chars up [] = []"
| "canon_chars up (c # cs) =
     (let d = (if up then upper_char c else lower_char c) in d # canon_chars (d = CHR ''-'') cs)"

text \<open>\<^verbatim>\<open>textproto.CanonicalMIMEHeaderKey\<close>: a name with a byte that is no token byte is unchanged.\<close>

definition canonicalKey :: "string \<Rightarrow> string" where
  "canonicalKey k = (if list_all token_char k then canon_chars True k else k)"

section \<open>Header maps\<close>

type_synonym header = "(string \<times> string list) list"

text \<open>The map read \<^verbatim>\<open>h[k]\<close>: the nil slice for an absent key.\<close>

definition hraw :: "header \<Rightarrow> string \<Rightarrow> string list" where
  "hraw h k = (case map_of h k of Some vs \<Rightarrow> vs | None \<Rightarrow> [])"

definition hvalues :: "header \<Rightarrow> string \<Rightarrow> string list" where
  "hvalues h k = hraw h (canonicalKey k)"

definition hget :: "header \<Rightarrow> string \<Rightarrow> string" where
  "hget h k = (case hvalues h k of [] \<Rightarrow> [] | v # _ \<Rightarrow> v)"

definition hset :: "header \<Rightarrow> string \<Rightarrow> string \<Rightarrow> header" where
  "hset h k v = AList.update (canonicalKey k) [v] h"

definition hdel :: "header \<Rightarrow> string \<Rightarrow> header" where
  "hdel h k = AList.delete (canonicalKey k) h"

text \<open>The shape of a header that was read from the wire or built by \<^verbatim>\<open>Set\<close>: a map with canonical keys and at
  least one value for each.\<close>

definition wf_header :: "header \<Rightarrow> bool" where
  "wf_header h \<longleftrightarrow> distinct (map fst h) \<and> list_all (\<lambda>(k, vs). canonicalKey k = k \<and> vs \<noteq> []) h"

section \<open>Header names and protocol literals\<close>

definition headerForwarded :: string where "headerForwarded = ''Forwarded''"
definition headerXForwardedFor :: string where "headerXForwardedFor = ''X-Forwarded-For''"
definition headerXForwardedProto :: string where "headerXForwardedProto = ''X-Forwarded-Proto''"
definition headerXForwardedHost :: string where "headerXForwardedHost = ''X-Forwarded-Host''"
definition headerVia :: string where "headerVia = ''Via''"
definition headerConnection :: string where "headerConnection = ''Connection''"
definition headerKeepAlive :: string where "headerKeepAlive = ''Keep-Alive''"
definition headerProxyConnection :: string where "headerProxyConnection = ''Proxy-Connection''"
definition headerTE :: string where "headerTE = ''TE''"
definition headerTrailer :: string where "headerTrailer = ''Trailer''"
definition headerUpgrade :: string where "headerUpgrade = ''Upgrade''"
definition headerProxyAuthorization :: string where
  "headerProxyAuthorization = ''Proxy-Authorization''"
definition headerProxyAuthenticate :: string where
  "headerProxyAuthenticate = ''Proxy-Authenticate''"
definition headerContentLength :: string where "headerContentLength = ''Content-Length''"
definition headerContentType :: string where "headerContentType = ''Content-Type''"
definition headerAllow :: string where "headerAllow = ''Allow''"
definition headerMaxForwards :: string where "headerMaxForwards = ''Max-Forwards''"
definition headerProxyStatus :: string where "headerProxyStatus = ''Proxy-Status''"

definition negotiateScheme :: string where "negotiateScheme = ''Negotiate ''"
definition connectionClose :: string where "connectionClose = ''close''"
definition contentTypeTextUTF8 :: string where
  "contentTypeTextUTF8 = ''text/plain; charset=utf-8''"
definition proxyStatusPrefix :: string where "proxyStatusPrefix = ''spnego-proxy; error=''"
definition schemeHTTP :: string where "schemeHTTP = ''http''"
definition allowMethods :: string where
  "allowMethods = ''GET, HEAD, POST, PUT, DELETE, PATCH, OPTIONS, TRACE, CONNECT''"

lemmas header_names [const_defs] =
  headerForwarded_def headerXForwardedFor_def headerXForwardedProto_def headerXForwardedHost_def
  headerVia_def headerConnection_def headerKeepAlive_def headerProxyConnection_def headerTE_def
  headerTrailer_def headerUpgrade_def headerProxyAuthorization_def headerProxyAuthenticate_def
  headerContentLength_def headerContentType_def headerAllow_def headerMaxForwards_def
  headerProxyStatus_def

lemmas literal_defs [const_defs] =
  negotiateScheme_def connectionClose_def contentTypeTextUTF8_def proxyStatusPrefix_def
  schemeHTTP_def allowMethods_def

text \<open>\<^verbatim>\<open>http.MethodConnect\<close>, \<^verbatim>\<open>http.MethodTrace\<close>, \<^verbatim>\<open>http.MethodOptions\<close>.\<close>

abbreviation methodConnect :: string where "methodConnect \<equiv> ''CONNECT''"
abbreviation methodTrace :: string where "methodTrace \<equiv> ''TRACE''"
abbreviation methodOptions :: string where "methodOptions \<equiv> ''OPTIONS''"

section \<open>Messages\<close>

text \<open>
  The fields of \<^verbatim>\<open>http.Request\<close> and \<^verbatim>\<open>http.Response\<close> that the proxy reads or writes. A request
  body is nil, the value \<^verbatim>\<open>http.NoBody\<close>, or a reader that yields bytes (possibly none).
\<close>

datatype req_body = NilBody | NoBody | Body bytes

record request =
  req_Method :: string
  req_Host :: string
  req_RequestURI :: string
  req_Proto :: string
  req_ProtoMajor :: nat
  req_ProtoMinor :: nat
  req_Header :: header
  req_TransferEncoding :: "string list"
  req_Trailer :: "header option"
  req_Close :: bool
  req_Body :: req_body

record response =
  resp_StatusCode :: int
  resp_Status :: string
  resp_Proto :: string
  resp_ProtoMajor :: nat
  resp_ProtoMinor :: nat
  resp_Header :: header
  resp_TransferEncoding :: "string list"
  resp_ContentLength :: int
  resp_Close :: bool
  resp_Body :: bytes

text \<open>\<^verbatim>\<open>Request.ProtoAtLeast\<close>.\<close>

definition protoAtLeast :: "request \<Rightarrow> nat \<Rightarrow> nat \<Rightarrow> bool" where
  "protoAtLeast r major minor \<longleftrightarrow>
     req_ProtoMajor r > major \<or> req_ProtoMajor r = major \<and> req_ProtoMinor r \<ge> minor"

section \<open>The header interface\<close>

locale header_store =
  fixes canon :: "'k \<Rightarrow> 'k"
    and lookup :: "'h \<Rightarrow> 'k \<Rightarrow> 'v list option"
    and put :: "'h \<Rightarrow> 'k \<Rightarrow> 'v \<Rightarrow> 'h"
    and del :: "'h \<Rightarrow> 'k \<Rightarrow> 'h"
    and invar :: "'h \<Rightarrow> bool"
  assumes canon_idem: "canon (canon k) = canon k"
    and lookup_put: "lookup (put h k v) = (lookup h)(canon k \<mapsto> [v])"
    and lookup_del: "lookup (del h k) = (lookup h)(canon k := None)"
    and invar_put: "invar h \<Longrightarrow> invar (put h k v)"
    and invar_del: "invar h \<Longrightarrow> invar (del h k)"
begin

lemma lookup_fold_del:
  "lookup (fold (\<lambda>k h. del h k) ks h) k =
     (if k \<in> canon ` set ks then None else lookup h k)"
  by (induction ks arbitrary: h) (auto simp: lookup_del)

lemma invar_fold_del: "invar h \<Longrightarrow> invar (fold (\<lambda>k h. del h k) ks h)"
  by (induction ks arbitrary: h) (auto simp: invar_del)

lemma lookup_put_same: "lookup (put h k v) (canon k) = Some [v]"
  by (simp add: lookup_put)

lemma lookup_put_other: "canon k \<noteq> k' \<Longrightarrow> lookup (put h k v) k' = lookup h k'"
  by (simp add: lookup_put)

lemma del_put: "lookup (del (put h k v) k) = lookup (del h k)"
  by (simp add: lookup_put lookup_del)

end

section \<open>Canonical keys\<close>

lemma byte_upper_char: "is_lower c \<Longrightarrow> byte (upper_char c) = byte c - 32"
  by (auto simp: upper_char_def is_lower_def)

lemma upper_char_idem [simp]: "upper_char (upper_char c) = upper_char c"
proof (cases "is_lower c")
  case True
  then have "\<not> is_lower (upper_char c)"
    using byte_upper_char [OF True] True by (auto simp: is_lower_def)
  then show ?thesis by (simp add: upper_char_def)
next
  case False
  then show ?thesis by (simp add: upper_char_def)
qed

lemma token_char_upper: "token_char c \<Longrightarrow> token_char (upper_char c)"
  using byte_upper_char [of c] by (cases "is_lower c")
    (auto simp: token_char_def is_upper_def is_lower_def upper_char_def)

lemma token_char_lower: "token_char c \<Longrightarrow> token_char (lower_char c)"
  using byte_lower_char [of c] by (cases "is_upper c")
    (auto simp: token_char_def is_upper_def is_lower_def lower_char_def)

lemma canon_chars_token: "list_all token_char k \<Longrightarrow> list_all token_char (canon_chars up k)"
  by (induction k arbitrary: up) (auto simp: Let_def token_char_upper token_char_lower)

lemma canon_chars_idem: "canon_chars up (canon_chars up k) = canon_chars up k"
  by (induction k arbitrary: up) (auto simp: Let_def)

lemma canonicalKey_idem [simp]: "canonicalKey (canonicalKey k) = canonicalKey k"
  by (simp add: canonicalKey_def canon_chars_token canon_chars_idem)

lemma list_all_update: "P (k, v) \<Longrightarrow> list_all P h \<Longrightarrow> list_all P (AList.update k v h)"
  by (induction h) auto

lemma list_all_delete: "list_all P h \<Longrightarrow> list_all P (AList.delete k h)"
  by (simp add: AList.delete_eq list_all_iff)

interpretation hs: header_store canonicalKey map_of hset hdel wf_header
  by unfold_locales
     (auto simp: hset_def hdel_def wf_header_def update_conv' delete_conv' distinct_update distinct_delete
       list_all_update list_all_delete)

end
