(* ===== verification/Proxy_Errors.thy ===== *)
theory Proxy_Errors
  imports Http_Header
begin

text \<open>
  Go errors as values, the authentication errors of src/internal/proxy/errors.go, the structured
  client-facing errors of src/internal/proxy/errors_proxy.go and the classification of transport
  errors in src/internal/proxy/connect.go. An error is a value with a chain of causes; \<^verbatim>\<open>errors.Is\<close>
  and \<^verbatim>\<open>errors.As\<close> search that chain.
\<close>

section \<open>Go errors\<close>

text \<open>Sentinel values compared with \<^verbatim>\<open>errors.Is\<close>: those of Go's io, net and syscall packages,
  of the circuit breaker library, and of the proxy itself.\<close>

datatype sentinel =
    EOF | ErrClosed | ECONNRESET | EPIPE | ErrNoProgress
  | ErrOpenState | ErrTooManyRequests
  | ErrTunnelIdle | ErrSessionShutdown | ErrContentLengthInvalid | ErrMalformedResponse

datatype auth_kind = CredentialError | NegotiationError | CircuitBreakerError

text \<open>\<open>NetErr m t c\<close> is a \<^verbatim>\<open>net.Error\<close> whose \<^verbatim>\<open>Timeout\<close> method returns \<open>t\<close>; \<open>Auth k m c\<close> is an
  authentication error of kind \<open>k\<close> with the embedded \<^verbatim>\<open>authError{msg: m, cause: c}\<close>.\<close>

datatype go_error =
    Sentinel sentinel
  | Plain string
  | Wrap string go_error
  | NetErr string bool "go_error option"
  | Auth auth_kind string "go_error option"

fun sentinel_text :: "sentinel \<Rightarrow> string" where
  "sentinel_text EOF = ''EOF''"
| "sentinel_text ErrClosed = ''use of closed network connection''"
| "sentinel_text ECONNRESET = ''connection reset by peer''"
| "sentinel_text EPIPE = ''broken pipe''"
| "sentinel_text ErrNoProgress = ''multiple Read calls return no data or error''"
| "sentinel_text ErrOpenState = ''circuit breaker is open''"
| "sentinel_text ErrTooManyRequests = ''too many requests''"
| "sentinel_text ErrTunnelIdle = ''tunnel idle timeout''"
| "sentinel_text ErrSessionShutdown = ''proxy: shutdown''"
| "sentinel_text ErrContentLengthInvalid = ''invalid Content-Length in upstream response''"
| "sentinel_text ErrMalformedResponse = ''malformed upstream response header''"

text \<open>The method \<^verbatim>\<open>Error\<close>.\<close>

fun error_text :: "go_error \<Rightarrow> string" where
  "error_text (Sentinel s) = sentinel_text s"
| "error_text (Plain m) = m"
| "error_text (Wrap m e) = m"
| "error_text (NetErr m t c) = m"
| "error_text (Auth k m c) = m"

text \<open>The method \<^verbatim>\<open>Unwrap\<close>, followed to the end of the chain.\<close>

fun error_chain :: "go_error \<Rightarrow> go_error list" where
  "error_chain (Wrap m e) = Wrap m e # error_chain e"
| "error_chain (NetErr m t (Some e)) = NetErr m t (Some e) # error_chain e"
| "error_chain (Auth k m (Some e)) = Auth k m (Some e) # error_chain e"
| "error_chain e = [e]"

definition errors_is :: "go_error \<Rightarrow> sentinel \<Rightarrow> bool" where
  "errors_is e s \<longleftrightarrow> Sentinel s \<in> set (error_chain e)"

definition errors_as_auth :: "go_error \<Rightarrow> auth_kind \<Rightarrow> bool" where
  "errors_as_auth e k \<longleftrightarrow> list_ex (\<lambda>x. case x of Auth k' _ _ \<Rightarrow> k' = k | _ \<Rightarrow> False) (error_chain e)"

text \<open>The first \<^verbatim>\<open>net.Error\<close> of the chain decides.\<close>

fun first_net_timeout :: "go_error list \<Rightarrow> bool" where
  "first_net_timeout [] = False"
| "first_net_timeout (NetErr _ t _ # es) = t"
| "first_net_timeout (_ # es) = first_net_timeout es"

definition isTimeoutError :: "go_error \<Rightarrow> bool" where
  "isTimeoutError e = first_net_timeout (error_chain e)"

definition isExpectedCloseError :: "go_error \<Rightarrow> bool" where
  "isExpectedCloseError e =
     (if errors_is e EOF \<or> errors_is e ErrClosed then True
      else if errors_is e ECONNRESET \<or> errors_is e EPIPE then True
      else False)"

datatype log_level = LDebug | LInfo | LWarn | LError

text \<open>The level at which a forwarding error is logged; nothing is logged for nil.\<close>

definition logForwardError :: "go_error option \<Rightarrow> log_level option" where
  "logForwardError err =
     (case err of
        None \<Rightarrow> None
      | Some e \<Rightarrow>
          if errors_is e ErrTunnelIdle then Some LDebug
          else if isTimeoutError e \<or> isExpectedCloseError e then Some LDebug
          else Some LError)"

section \<open>Client-facing errors\<close>

record proxyError =
  pe_statusCode :: int
  pe_errorType :: string
  pe_message :: string
  pe_action :: string

definition nl :: string where "nl = [CHR 0x0A]"

definition body :: "proxyError \<Rightarrow> string" where
  "body e =
     (if pe_action e = [] then
        ''spnego-proxy error: '' @ pe_errorType e @ nl @ nl @ pe_message e @ nl
      else
        ''spnego-proxy error: '' @ pe_errorType e @ nl @ nl @ pe_message e @ nl @ nl @
        ''Suggested action: '' @ pe_action e @ nl)"

definition errorTypeConnectionTimeout :: string where
  "errorTypeConnectionTimeout = ''connection_timeout''"
definition errorTypeConnectionRefused :: string where
  "errorTypeConnectionRefused = ''connection_refused''"
definition errorTypeConnectionTerminated :: string where
  "errorTypeConnectionTerminated = ''connection_terminated''"
definition errorTypeProxyInternalError :: string where
  "errorTypeProxyInternalError = ''proxy_internal_error''"
definition errorTypeHTTPRequestError :: string where
  "errorTypeHTTPRequestError = ''http_request_error''"
definition errorTypeProxyLoopDetected :: string where
  "errorTypeProxyLoopDetected = ''proxy_loop_detected''"
definition errorTypeHTTPProtocolError :: string where
  "errorTypeHTTPProtocolError = ''http_protocol_error''"
definition errorTypeHTTPRequestDenied :: string where
  "errorTypeHTTPRequestDenied = ''http_request_denied''"

lemmas error_type_defs [const_defs] =
  errorTypeConnectionTimeout_def errorTypeConnectionRefused_def errorTypeConnectionTerminated_def
  errorTypeProxyInternalError_def errorTypeHTTPRequestError_def errorTypeProxyLoopDetected_def
  errorTypeHTTPProtocolError_def errorTypeHTTPRequestDenied_def

definition errConnectionTimeout :: proxyError where
  "errConnectionTimeout = \<lparr>pe_statusCode = 504, pe_errorType = errorTypeConnectionTimeout,
     pe_message = ''The proxy timed out connecting to the upstream proxy.'',
     pe_action = ''Verify the upstream proxy address and that it is reachable from this host. Check for network connectivity issues or firewall rules.''\<rparr>"

definition errConnectionRefused :: proxyError where
  "errConnectionRefused = \<lparr>pe_statusCode = 502, pe_errorType = errorTypeConnectionRefused,
     pe_message = ''The upstream proxy refused the connection.'',
     pe_action = ''Verify the upstream proxy is running and listening on the configured address. Check firewall rules and network connectivity.''\<rparr>"

definition errTokenAcquisition :: proxyError where
  "errTokenAcquisition = \<lparr>pe_statusCode = 502, pe_errorType = errorTypeProxyInternalError,
     pe_message = ''The proxy failed to acquire a SPNEGO authentication token.'',
     pe_action = ''Check Kerberos credentials. Run 'klist' to verify a valid ticket exists, or 'kinit' to obtain a new one.''\<rparr>"

definition errCredentialFailure :: proxyError where
  "errCredentialFailure = \<lparr>pe_statusCode = 502, pe_errorType = errorTypeProxyInternalError,
     pe_message = ''Kerberos credentials are expired or unavailable.'',
     pe_action = ''Run 'kinit' to obtain or refresh Kerberos credentials, then retry. Run 'klist' to check current ticket status.''\<rparr>"

definition errNegotiationFailure :: proxyError where
  "errNegotiationFailure = \<lparr>pe_statusCode = 502, pe_errorType = errorTypeProxyInternalError,
     pe_message = ''SPNEGO negotiation with the KDC failed.'',
     pe_action = ''Check the service principal name (-spn flag) and Kerberos realm configuration. Verify the KDC is reachable.''\<rparr>"

definition errCircuitBreakerOpen :: proxyError where
  "errCircuitBreakerOpen = \<lparr>pe_statusCode = 502, pe_errorType = errorTypeProxyInternalError,
     pe_message = ''Token acquisition is temporarily disabled after repeated failures (circuit breaker open).'',
     pe_action = ''The proxy will automatically retry after a cooldown period. Check Kerberos credentials and the KDC. Run 'klist' to verify ticket status.''\<rparr>"

definition errHTTPRequestError :: proxyError where
  "errHTTPRequestError = \<lparr>pe_statusCode = 400, pe_errorType = errorTypeHTTPRequestError,
     pe_message = ''The proxy could not read or parse the HTTP request.'',
     pe_action = ''Verify the client is sending a well-formed HTTP request to the proxy.''\<rparr>"

definition errConnectionTerminated :: proxyError where
  "errConnectionTerminated = \<lparr>pe_statusCode = 502, pe_errorType = errorTypeConnectionTerminated,
     pe_message = ''The connection to the upstream proxy was lost while relaying the request.'',
     pe_action = ''The upstream proxy may have closed the connection unexpectedly. Retry the request.''\<rparr>"

definition errProxyLoopDetected :: proxyError where
  "errProxyLoopDetected = \<lparr>pe_statusCode = 502, pe_errorType = errorTypeProxyLoopDetected,
     pe_message = ''A routing loop was detected: the request has already passed through this proxy instance.'',
     pe_action = ''Check the proxy chain configuration for circular routing. The Via header in the request contains this proxy's identity.''\<rparr>"

definition errInvalidContentLength :: proxyError where
  "errInvalidContentLength = \<lparr>pe_statusCode = 502, pe_errorType = errorTypeHTTPProtocolError,
     pe_message = ''The upstream proxy sent a response with an invalid Content-Length header.'',
     pe_action = ''This may indicate a misconfigured upstream proxy or an attempt at response splitting. Contact the upstream proxy administrator.''\<rparr>"

definition errMalformedResponseHeader :: proxyError where
  "errMalformedResponseHeader = \<lparr>pe_statusCode = 502, pe_errorType = errorTypeHTTPProtocolError,
     pe_message = ''The upstream proxy sent a response containing a header field with a malformed name or a forbidden control character in its value.'',
     pe_action = ''This may indicate a misconfigured upstream proxy or an attempt at response splitting. Contact the upstream proxy administrator.''\<rparr>"

definition errForbiddenPort :: proxyError where
  "errForbiddenPort = \<lparr>pe_statusCode = 403, pe_errorType = errorTypeHTTPRequestDenied,
     pe_message = ''CONNECT to the requested port is not allowed.'',
     pe_action = ''The proxy restricts CONNECT tunneling to specific ports. Contact the proxy administrator.''\<rparr>"

definition errUnparseableResponse :: proxyError where
  "errUnparseableResponse = \<lparr>pe_statusCode = 502, pe_errorType = errorTypeHTTPProtocolError,
     pe_message = ''The upstream proxy sent a response that could not be parsed as valid HTTP.'',
     pe_action = ''This may indicate a misconfigured upstream proxy. Contact the upstream proxy administrator.''\<rparr>"

definition errClientDenied :: proxyError where
  "errClientDenied = \<lparr>pe_statusCode = 403, pe_errorType = errorTypeHTTPRequestDenied,
     pe_message = ''Client IP is not in the allowlist.'',
     pe_action = ''Contact the proxy administrator to add your IP to the -allowed-ips list.''\<rparr>"

definition errMismatchedTarget :: proxyError where
  "errMismatchedTarget = \<lparr>pe_statusCode = 400, pe_errorType = errorTypeHTTPRequestDenied,
     pe_message = ''Pipelined request is incompatible with the existing direct connection.'',
     pe_action = ''Open a new connection to the proxy and retry.''\<rparr>"

lemmas proxy_error_defs =
  errConnectionTimeout_def errConnectionRefused_def errTokenAcquisition_def errCredentialFailure_def
  errNegotiationFailure_def errCircuitBreakerOpen_def errHTTPRequestError_def
  errConnectionTerminated_def errProxyLoopDetected_def errInvalidContentLength_def
  errMalformedResponseHeader_def errForbiddenPort_def errUnparseableResponse_def
  errClientDenied_def errMismatchedTarget_def

text \<open>The response \<^verbatim>\<open>writeHTTPError\<close> writes to the client.\<close>

definition writeHTTPError :: "proxyError \<Rightarrow> response" where
  "writeHTTPError pe =
     \<lparr>resp_StatusCode = pe_statusCode pe, resp_Status = [], resp_Proto = [],
      resp_ProtoMajor = 1, resp_ProtoMinor = 1,
      resp_Header = [(headerContentType, [contentTypeTextUTF8]),
                     (headerConnection, [connectionClose]),
                     (headerProxyStatus, [proxyStatusPrefix @ pe_errorType pe])],
      resp_TransferEncoding = [], resp_ContentLength = int (length (body pe)),
      resp_Close = False, resp_Body = body pe\<rparr>"

definition tokenErrorToProxyError :: "go_error \<Rightarrow> proxyError" where
  "tokenErrorToProxyError err =
     (if errors_as_auth err CircuitBreakerError then errCircuitBreakerOpen
      else if errors_as_auth err CredentialError then errCredentialFailure
      else if errors_as_auth err NegotiationError then errNegotiationFailure
      else errTokenAcquisition)"

text \<open>The log level and the error that \<^verbatim>\<open>handleUpstreamResponseError\<close> answers with.\<close>

definition handleUpstreamResponseError :: "go_error \<Rightarrow> log_level \<times> proxyError" where
  "handleUpstreamResponseError err =
     (if errors_is err ErrContentLengthInvalid then (LError, errInvalidContentLength)
      else if errors_is err ErrMalformedResponse then (LError, errMalformedResponseHeader)
      else (LWarn, errUnparseableResponse))"

section \<open>Lemmas\<close>

lemma error_chain_not_Nil [simp]: "error_chain e \<noteq> []"
  by (cases e rule: error_chain.cases) auto

lemma error_chain_self: "e \<in> set (error_chain e)"
  by (cases e rule: error_chain.cases) auto

lemma errors_is_Sentinel [simp]: "errors_is (Sentinel s) t \<longleftrightarrow> s = t"
  by (auto simp: errors_is_def)

lemma errors_is_Wrap [simp]: "errors_is (Wrap m e) s \<longleftrightarrow> errors_is e s"
  by (simp add: errors_is_def)

lemma errors_as_auth_Auth: "errors_as_auth (Auth k m c) k"
  by (cases c) (simp_all add: errors_as_auth_def)

text \<open>An error that is a wrapped end of stream or reset never reaches the error log.\<close>

lemma logForwardError_quiet:
  "isExpectedCloseError e \<or> isTimeoutError e \<or> errors_is e ErrTunnelIdle \<Longrightarrow>
     logForwardError (Some e) = Some LDebug"
  by (auto simp: logForwardError_def)

lemma writeHTTPError_wf: "wf_header (resp_Header (writeHTTPError pe))"
  by (simp add: wf_header_def writeHTTPError_def const_defs) code_simp

lemma writeHTTPError_status:
  "hget (resp_Header (writeHTTPError pe)) headerProxyStatus = proxyStatusPrefix @ pe_errorType pe"
proof -
  have "canonicalKey headerProxyStatus = headerProxyStatus" by code_simp
  then show ?thesis
    by (simp add: hget_def hvalues_def hraw_def writeHTTPError_def const_defs)
qed

end
