(* ===== verification/Header_Rules.thy ===== *)
theory Header_Rules
  imports Proxy_Errors
begin

text \<open>
  The header rewriting of src/internal/proxy/headers.go: random identifiers, \<^verbatim>\<open>Via\<close> and forwarding
  header injection, the hand-written CONNECT answer, hop-by-hop sanitisation and the local
  Max-Forwards answer. \<open>rd n\<close> stands for \<^verbatim>\<open>crypto/rand.Read\<close> of \<open>n\<close> bytes, \<open>None\<close> when the
  entropy source fails; an operation that then exits the process returns \<open>None\<close>.
\<close>

section \<open>Random identifiers\<close>

definition hex_digit :: "nat \<Rightarrow> char" where
  "hex_digit n = ''0123456789abcdef'' ! n"

text \<open>\<^verbatim>\<open>hex.EncodeToString\<close>.\<close>

definition hex_encode :: "bytes \<Rightarrow> string" where
  "hex_encode bs = concat (map (\<lambda>b. [hex_digit (byte b div 16), hex_digit (byte b mod 16)]) bs)"

definition randomHex :: "(nat \<Rightarrow> bytes option) \<Rightarrow> nat \<Rightarrow> string option" where
  "randomHex rd n = (case rd n of None \<Rightarrow> None | Some b \<Rightarrow> Some (hex_encode b))"

definition generateObfuscatedID :: "(nat \<Rightarrow> bytes option) \<Rightarrow> string option" where
  "generateObfuscatedID rd = map_option (\<lambda>h. ''_'' @ h) (randomHex rd 4)"

definition GenerateViaPseudonym :: "(nat \<Rightarrow> bytes option) \<Rightarrow> string option" where
  "GenerateViaPseudonym rd = map_option (\<lambda>h. ''spnego-proxy-'' @ h) (randomHex rd 4)"

section \<open>Injection\<close>

definition appendHeaderValue :: "header \<Rightarrow> string \<Rightarrow> string \<Rightarrow> header" where
  "appendHeaderValue h key val =
     (let existing = hget h key
      in (if existing \<noteq> [] then hset h key (existing @ '', '' @ val) else hset h key val))"

text \<open>\<^verbatim>\<open>ForwardingConfig\<close> of src/internal/proxy/config.go.\<close>

record ForwardingConfig =
  ForwardedEnabled :: bool
  XForwardedForEnabled :: bool

definition injectForwarded :: "(nat \<Rightarrow> bytes option) \<Rightarrow> header \<Rightarrow> header option" where
  "injectForwarded rd h =
     map_option (\<lambda>obfID. appendHeaderValue h headerForwarded (''for='' @ obfID @ '';proto=http''))
       (generateObfuscatedID rd)"

definition injectXForwarded :: "string \<Rightarrow> string \<Rightarrow> header \<Rightarrow> header" where
  "injectXForwarded clientAddr host h =
     (let h1 = appendHeaderValue h headerXForwardedFor (extractHost clientAddr);
          h2 = (if hget h1 headerXForwardedProto = [] then hset h1 headerXForwardedProto schemeHTTP else h1);
          h3 = (if hget h2 headerXForwardedHost = [] then hset h2 headerXForwardedHost host else h2)
      in h3)"

definition injectForwardingHeaders ::
    "(nat \<Rightarrow> bytes option) \<Rightarrow> request \<Rightarrow> string \<Rightarrow> ForwardingConfig \<Rightarrow> request option" where
  "injectForwardingHeaders rd req clientAddr cfg =
     (if \<not> ForwardedEnabled cfg \<and> \<not> XForwardedForEnabled cfg then Some req
      else
        (case (if ForwardedEnabled cfg then injectForwarded rd (req_Header req) else Some (req_Header req)) of
           None \<Rightarrow> None
         | Some h \<Rightarrow>
             Some (req\<lparr>req_Header :=
               (if XForwardedForEnabled cfg then injectXForwarded clientAddr (req_Host req) h else h)\<rparr>)))"

definition injectVia :: "header \<Rightarrow> string \<Rightarrow> string \<Rightarrow> header" where
  "injectVia h proto pseudonym = appendHeaderValue h headerVia (proto @ '' '' @ pseudonym)"

section \<open>The CONNECT answer\<close>

text \<open>\<^verbatim>\<open>http.StatusText\<close>.\<close>

definition status_texts :: "(int \<times> string) list" where
  "status_texts =
     [(100, ''Continue''), (101, ''Switching Protocols''), (102, ''Processing''), (103, ''Early Hints''),
      (200, ''OK''), (201, ''Created''), (202, ''Accepted''), (203, ''Non-Authoritative Information''),
      (204, ''No Content''), (205, ''Reset Content''), (206, ''Partial Content''),
      (207, ''Multi-Status''), (208, ''Already Reported''), (226, ''IM Used''),
      (300, ''Multiple Choices''), (301, ''Moved Permanently''), (302, ''Found''), (303, ''See Other''),
      (304, ''Not Modified''), (305, ''Use Proxy''), (307, ''Temporary Redirect''),
      (308, ''Permanent Redirect''), (400, ''Bad Request''), (401, ''Unauthorized''),
      (402, ''Payment Required''), (403, ''Forbidden''), (404, ''Not Found''),
      (405, ''Method Not Allowed''), (406, ''Not Acceptable''),
      (407, ''Proxy Authentication Required''), (408, ''Request Timeout''), (409, ''Conflict''),
      (410, ''Gone''), (411, ''Length Required''), (412, ''Precondition Failed''),
      (413, ''Request Entity Too Large''), (414, ''Request URI Too Long''),
      (415, ''Unsupported Media Type''), (416, ''Requested Range Not Satisfiable''),
      (417, ''Expectation Failed''), (418, ''I'm a teapot''), (421, ''Misdirected Request''),
      (422, ''Unprocessable Entity''), (423, ''Locked''), (424, ''Failed Dependency''),
      (425, ''Too Early''), (426, ''Upgrade Required''), (428, ''Precondition Required''),
      (429, ''Too Many Requests''), (431, ''Request Header Fields Too Large''),
      (451, ''Unavailable For Legal Reasons''), (500, ''Internal Server Error''),
      (501, ''Not Implemented''), (502, ''Bad Gateway''), (503, ''Service Unavailable''),
      (504, ''Gateway Timeout''), (505, ''HTTP Version Not Supported''),
      (506, ''Variant Also Negotiates''), (507, ''Insufficient Storage''), (508, ''Loop Detected''),
      (510, ''Not Extended''), (511, ''Network Authentication Required'')]"

definition statusText :: "int \<Rightarrow> string" where
  "statusText c = (case map_of status_texts c of Some t \<Rightarrow> t | None \<Rightarrow> [])"

definition crlf :: string where "crlf = [CHR 0x0D, CHR 0x0A]"

text \<open>The bytes \<^verbatim>\<open>writeConnectOK\<close> writes.\<close>

definition writeConnectOK :: "response \<Rightarrow> string" where
  "writeConnectOK resp =
     ''HTTP/'' @ dec_of_nat (resp_ProtoMajor resp) @ ''.'' @ dec_of_nat (resp_ProtoMinor resp) @ '' '' @
     itoa (resp_StatusCode resp) @ '' '' @ statusText (resp_StatusCode resp) @ crlf @
     (let via = hget (resp_Header resp) headerVia in (if via \<noteq> [] then ''Via: '' @ via @ crlf else [])) @
     crlf"

section \<open>Hop-by-hop sanitisation\<close>

text \<open>The field names listed by the Connection header, trimmed and non-empty.\<close>

definition connectionTokens :: "header \<Rightarrow> string list" where
  "connectionTokens h =
     concat (map (\<lambda>v. filter (\<lambda>name. name \<noteq> []) (map trim_space (split_sep CHR '','' v)))
       (hraw h headerConnection))"

definition hopByHopNames :: "string list" where
  "hopByHopNames =
     [headerConnection, headerKeepAlive, headerProxyConnection, headerTE, headerTrailer,
      headerUpgrade, headerProxyAuthorization]"

definition sanitizeHopByHop :: "request \<Rightarrow> request" where
  "sanitizeHopByHop req =
     (let h0 = req_Header req;
          h1 = fold (\<lambda>name h. hdel h name) (connectionTokens h0) h0;
          h2 = fold (\<lambda>name h. hdel h name) hopByHopNames h1;
          cl = hget h2 headerContentLength;
          h3 = (if req_TransferEncoding req \<noteq> [] \<and> cl \<noteq> [] then hdel h2 headerContentLength else h2)
      in req\<lparr>req_Header := h3, req_Trailer := None\<rparr>)"

section \<open>The local Max-Forwards answer\<close>

definition writeMaxForwardsResponse :: "request \<Rightarrow> response" where
  "writeMaxForwardsResponse req =
     (let h0 = [(headerContentType, [contentTypeTextUTF8]), (headerConnection, [connectionClose])];
          h = (if req_Method req = methodOptions then hset h0 headerAllow allowMethods else h0)
      in \<lparr>resp_StatusCode = 200, resp_Status = [], resp_Proto = [], resp_ProtoMajor = 1,
          resp_ProtoMinor = 1, resp_Header = h, resp_TransferEncoding = [], resp_ContentLength = 0,
          resp_Close = False, resp_Body = []\<rparr>)"

section \<open>Canonical constants\<close>

lemma canonical_names [simp]:
  "canonicalKey headerVia = headerVia" "canonicalKey headerConnection = headerConnection"
  "canonicalKey headerKeepAlive = headerKeepAlive"
  "canonicalKey headerProxyConnection = headerProxyConnection"
  "canonicalKey headerTrailer = headerTrailer" "canonicalKey headerUpgrade = headerUpgrade"
  "canonicalKey headerProxyAuthorization = headerProxyAuthorization"
  "canonicalKey headerProxyAuthenticate = headerProxyAuthenticate"
  "canonicalKey headerContentLength = headerContentLength"
  "canonicalKey headerMaxForwards = headerMaxForwards"
  "canonicalKey headerForwarded = headerForwarded"
  "canonicalKey headerXForwardedFor = headerXForwardedFor"
  "canonicalKey headerXForwardedProto = headerXForwardedProto"
  "canonicalKey headerXForwardedHost = headerXForwardedHost"
  "canonicalKey headerProxyStatus = headerProxyStatus" "canonicalKey headerAllow = headerAllow"
  "canonicalKey headerContentType = headerContentType"
  by code_simp+

lemma names_distinct:
  "distinct [headerForwarded, headerXForwardedFor, headerXForwardedProto, headerXForwardedHost,
     headerVia, headerConnection, headerKeepAlive, headerProxyConnection, headerTE, headerTrailer,
     headerUpgrade, headerProxyAuthorization, headerProxyAuthenticate, headerContentLength,
     headerContentType, headerAllow, headerMaxForwards, headerProxyStatus]"
  by code_simp

section \<open>Lemmas on get, set and delete\<close>

lemma hvalues_hset: "hvalues (hset h k v) k' = (if canonicalKey k' = canonicalKey k then [v] else hvalues h k')"
  by (simp add: hvalues_def hraw_def hs.lookup_put)

lemma hvalues_hdel: "hvalues (hdel h k) k' = (if canonicalKey k' = canonicalKey k then [] else hvalues h k')"
  by (simp add: hvalues_def hraw_def hs.lookup_del)

lemma hget_hset: "hget (hset h k v) k' = (if canonicalKey k' = canonicalKey k then v else hget h k')"
  by (simp add: hget_def hvalues_hset)

lemma hget_hdel: "hget (hdel h k) k' = (if canonicalKey k' = canonicalKey k then [] else hget h k')"
  by (simp add: hget_def hvalues_hdel)

lemma hget_lookup: "hget h k = (case map_of h (canonicalKey k) of Some (v # _) \<Rightarrow> v | _ \<Rightarrow> [])"
  by (auto simp: hget_def hvalues_def hraw_def split: option.splits list.splits)

lemmas header_ops = hget_hset hget_hdel hvalues_hset hvalues_hdel

lemma hget_appendHeaderValue:
  "hget (appendHeaderValue h k v) k' =
     (if canonicalKey k' = canonicalKey k
      then (if hget h k = [] then v else hget h k @ '', '' @ v) else hget h k')"
  by (simp add: appendHeaderValue_def Let_def hget_hset)

lemma lookup_appendHeaderValue:
  "map_of (appendHeaderValue h k v) =
     (map_of h)(canonicalKey k \<mapsto> [if hget h k = [] then v else hget h k @ '', '' @ v])"
  by (simp add: appendHeaderValue_def Let_def hs.lookup_put)

lemma wf_appendHeaderValue: "wf_header h \<Longrightarrow> wf_header (appendHeaderValue h k v)"
  by (simp add: appendHeaderValue_def Let_def hs.invar_put)

section \<open>Sanitisation\<close>

lemma sanitize_frame:
  "req_Method (sanitizeHopByHop r) = req_Method r" "req_Host (sanitizeHopByHop r) = req_Host r"
  "req_Proto (sanitizeHopByHop r) = req_Proto r" "req_Body (sanitizeHopByHop r) = req_Body r"
  "req_ProtoMajor (sanitizeHopByHop r) = req_ProtoMajor r"
  "req_ProtoMinor (sanitizeHopByHop r) = req_ProtoMinor r"
  "req_TransferEncoding (sanitizeHopByHop r) = req_TransferEncoding r"
  "req_Close (sanitizeHopByHop r) = req_Close r" "req_Trailer (sanitizeHopByHop r) = None"
  by (simp_all add: sanitizeHopByHop_def Let_def)

definition strippedKeys :: "request \<Rightarrow> string set" where
  "strippedKeys r =
     canonicalKey ` set (connectionTokens (req_Header r)) \<union> canonicalKey ` set hopByHopNames \<union>
     (if req_TransferEncoding r \<noteq> [] \<and> hget (req_Header r) headerContentLength \<noteq> []
      then {headerContentLength} else {})"

lemma lookup_sanitize:
  "map_of (req_Header (sanitizeHopByHop r)) k =
     (if k \<in> strippedKeys r then None else map_of (req_Header r) k)"
proof -
  define ks where "ks = connectionTokens (req_Header r) @ hopByHopNames"
  define h where "h = fold (\<lambda>name h. hdel h name) ks (req_Header r)"
  have fold: "map_of h k = (if k \<in> canonicalKey ` set ks then None else map_of (req_Header r) k)" for k
    unfolding h_def by (rule hs.lookup_fold_del)
  have san: "req_Header (sanitizeHopByHop r) =
      (if req_TransferEncoding r \<noteq> [] \<and> hget h headerContentLength \<noteq> []
       then hdel h headerContentLength else h)"
    by (simp add: sanitizeHopByHop_def Let_def h_def ks_def)
  have cl: "hget h headerContentLength =
      (if headerContentLength \<in> canonicalKey ` set ks then [] else hget (req_Header r) headerContentLength)"
    by (simp add: hget_lookup fold)
  have str: "strippedKeys r = canonicalKey ` set ks \<union>
     (if req_TransferEncoding r \<noteq> [] \<and> hget (req_Header r) headerContentLength \<noteq> []
      then {headerContentLength} else {})"
    by (simp add: strippedKeys_def ks_def image_Un)
  show ?thesis
    by (simp add: san str cl fold hs.lookup_del)
qed

lemma wf_sanitize: "wf_header (req_Header r) \<Longrightarrow> wf_header (req_Header (sanitizeHopByHop r))"
  by (simp add: sanitizeHopByHop_def Let_def hs.invar_fold_del hs.invar_del)

lemma hopByHop_stripped: "k \<in> canonicalKey ` set hopByHopNames \<Longrightarrow> k \<in> strippedKeys r"
  by (simp add: strippedKeys_def)


section \<open>Via\<close>

lemma hget_injectVia:
  "hget (injectVia h proto ps) headerVia =
     (if hget h headerVia = [] then proto @ '' '' @ ps else hget h headerVia @ '', '' @ proto @ '' '' @ ps)"
  by (simp add: injectVia_def hget_appendHeaderValue)

lemma hget_injectVia_other:
  "canonicalKey k \<noteq> headerVia \<Longrightarrow> hget (injectVia h proto ps) k = hget h k"
  by (simp add: injectVia_def hget_appendHeaderValue)

lemma wf_injectVia: "wf_header h \<Longrightarrow> wf_header (injectVia h proto ps)"
  by (simp add: injectVia_def wf_appendHeaderValue)

lemma wf_injectForwardingHeaders:
  "injectForwardingHeaders rd r a cfg = Some r' \<Longrightarrow> wf_header (req_Header r) \<Longrightarrow> wf_header (req_Header r')"
  by (auto simp: injectForwardingHeaders_def injectForwarded_def injectXForwarded_def Let_def wf_appendHeaderValue
      hs.invar_put split: if_splits option.splits)

lemma suffix_injectVia: "suffix (proto @ CHR '' '' # ps) (hget (injectVia h proto ps) headerVia)"
  by (auto simp: hget_injectVia suffix_def)

lemma sublist_injectVia: "sublist ps (hget (injectVia h proto ps) headerVia)"
proof -
  have "suffix ps (hget (injectVia h proto ps) headerVia)"
    by (auto simp: hget_injectVia suffix_def)
  then show ?thesis by (rule suffix_imp_sublist)
qed

lemma lookup_injectVia:
  "map_of (injectVia h proto ps) = (map_of h)(headerVia \<mapsto> [hget (injectVia h proto ps) headerVia])"
  by (simp add: hget_injectVia) (simp add: injectVia_def lookup_appendHeaderValue)

lemma hvalues_injectVia_other:
  "canonicalKey k \<noteq> headerVia \<Longrightarrow> hvalues (injectVia h proto ps) k = hvalues h k"
  by (simp add: hvalues_def hraw_def lookup_injectVia)

text \<open>A Via line folds in only the first existing one. Injection leaves exactly one Via value,
  the first existing value followed by this proxy's entry; every further Via field line that the
  message carried is dropped. All other fields are unchanged.\<close>

lemma injectVia_single_value:
  "hvalues (injectVia h proto ps) headerVia =
     [(case hvalues h headerVia of
         v # _ \<Rightarrow> (if v = [] then proto @ '' '' @ ps else v @ '', '' @ proto @ '' '' @ ps)
       | [] \<Rightarrow> proto @ '' '' @ ps)] \<and>
   (\<forall>k. k = headerVia \<or> map_of (injectVia h proto ps) k = map_of h k)"
  by (auto simp: injectVia_def hvalues_def hraw_def lookup_appendHeaderValue hget_def
      split: list.splits)

section \<open>The constants\<close>

text \<open>The catalogue's rule that every header-name constant is in canonical form holds for every
  constant but one: \<^verbatim>\<open>headerTE\<close> is \<open>TE\<close>, whose canonical form is \<open>Te\<close>, so a direct map read
  with it would miss the field.\<close>

lemma header_constants_canonical:
  "filter (\<lambda>k. canonicalKey k \<noteq> k)
     [headerForwarded, headerXForwardedFor, headerXForwardedProto, headerXForwardedHost,
      headerVia, headerConnection, headerKeepAlive, headerProxyConnection, headerTE, headerTrailer,
      headerUpgrade, headerProxyAuthorization, headerProxyAuthenticate, headerContentLength,
      headerContentType, headerAllow, headerMaxForwards, headerProxyStatus] = [headerTE] \<and>
   canonicalKey headerTE = ''Te'' \<and> hraw [(canonicalKey headerTE, [''trailers''])] headerTE = []"
  by code_simp

section \<open>Forwarding headers\<close>

lemma name_neqs:
  "headerXForwardedProto \<noteq> headerXForwardedFor" "headerXForwardedHost \<noteq> headerXForwardedFor"
  "headerXForwardedHost \<noteq> headerXForwardedProto" "headerForwarded \<noteq> headerXForwardedFor"
  "headerForwarded \<noteq> headerXForwardedProto" "headerForwarded \<noteq> headerXForwardedHost"
  "headerProxyAuthorization \<noteq> headerVia" "headerProxyAuthorization \<noteq> headerForwarded"
  "headerProxyAuthorization \<noteq> headerXForwardedFor" "headerProxyAuthorization \<noteq> headerXForwardedProto"
  "headerProxyAuthorization \<noteq> headerXForwardedHost" "headerVia \<noteq> headerForwarded"
  "headerVia \<noteq> headerXForwardedFor" "headerVia \<noteq> headerXForwardedProto" "headerVia \<noteq> headerXForwardedHost"
  by (simp_all add: header_names)

lemma injectForwardingHeaders_frame:
  assumes "injectForwardingHeaders rd r addr cfg = Some r'"
  shows "r' = r\<lparr>req_Header := req_Header r'\<rparr>"
    and "k \<notin> {headerForwarded, headerXForwardedFor, headerXForwardedProto, headerXForwardedHost} \<Longrightarrow>
      map_of (req_Header r') k = map_of (req_Header r) k"
  using assms
  by (auto simp: injectForwardingHeaders_def injectForwarded_def injectXForwarded_def Let_def
      lookup_appendHeaderValue hs.lookup_put split: if_splits option.splits)

text \<open>With X-Forwarded-For injection on, the client's address is appended to what the client
  sent, and the scheme and host fields are filled in only where the request has none; with both
  kinds of forwarding headers off the request is untouched.\<close>

lemma injectForwardingHeaders_spec:
  assumes "injectForwardingHeaders rd r addr cfg = Some r'"
  shows "(\<not> ForwardedEnabled cfg \<and> \<not> XForwardedForEnabled cfg \<longrightarrow> r' = r) \<and>
    (XForwardedForEnabled cfg \<longrightarrow>
       hget (req_Header r') headerXForwardedFor =
         (if hget (req_Header r) headerXForwardedFor = [] then extractHost addr
          else hget (req_Header r) headerXForwardedFor @ '', '' @ extractHost addr) \<and>
       hget (req_Header r') headerXForwardedProto =
         (if hget (req_Header r) headerXForwardedProto = [] then schemeHTTP
          else hget (req_Header r) headerXForwardedProto) \<and>
       hget (req_Header r') headerXForwardedHost =
         (if hget (req_Header r) headerXForwardedHost = [] then req_Host r
          else hget (req_Header r) headerXForwardedHost))"
  using assms
  by (auto simp: injectForwardingHeaders_def injectForwarded_def injectXForwarded_def Let_def
      hget_appendHeaderValue hget_hset name_neqs name_neqs [symmetric] split: if_splits option.splits)

definition sample_request :: request where
  "sample_request = \<lparr>req_Method = ''GET'', req_Host = ''example.com'', req_RequestURI = ''http://example.com/'',
     req_Proto = ''HTTP/1.1'', req_ProtoMajor = 1, req_ProtoMinor = 1,
     req_Header = [(headerXForwardedFor, [''10.0.0.9''])], req_TransferEncoding = [],
     req_Trailer = None, req_Close = False, req_Body = NoBody\<rparr>"

theorem injectForwardingHeaders_spec_witness:
  "\<exists>r'. injectForwardingHeaders (\<lambda>n. None) sample_request ''10.0.0.1:5555'' \<lparr>ForwardedEnabled = False, XForwardedForEnabled = True\<rparr> = Some r' \<and>
     hget (req_Header r') headerXForwardedFor = ''10.0.0.9, 10.0.0.1'' \<and>
     hget (req_Header r') headerXForwardedHost = ''example.com''"
proof -
  let ?c = "\<lparr>ForwardedEnabled = False, XForwardedForEnabled = True\<rparr>"
  obtain r' where r': "injectForwardingHeaders (\<lambda>n. None) sample_request ''10.0.0.1:5555'' ?c = Some r'"
    by (simp add: injectForwardingHeaders_def)
  have "hget (req_Header sample_request) headerXForwardedFor = ''10.0.0.9''"
    "hget (req_Header sample_request) headerXForwardedHost = []"
    "extractHost ''10.0.0.1:5555'' = ''10.0.0.1''" "req_Host sample_request = ''example.com''"
    by code_simp+
  then show ?thesis
    using injectForwardingHeaders_spec [OF r'] r' by auto
qed

end
