(* ===== verification/Ip_Addr.thy ===== *)
theory Ip_Addr
  imports Go_Prelude "HOL-Library.Word"
begin

text \<open>
  IP addresses and networks as the proxy uses them: \<^verbatim>\<open>netip.ParseAddr\<close>, \<^verbatim>\<open>netip.ParsePrefix\<close> and
  \<^verbatim>\<open>Prefix.Contains\<close> for the no-proxy rules, and \<^verbatim>\<open>net.ParseIP\<close>, \<^verbatim>\<open>net.ParseCIDR\<close>,
  \<^verbatim>\<open>net.CIDRMask\<close>, \<^verbatim>\<open>IP.To4\<close>, \<^verbatim>\<open>IP.Mask\<close> and \<^verbatim>\<open>IPNet.Contains\<close> for the client allowlist. Both
  are models of the Go standard library; the lemmas give the bit-level meaning of the byte-wise
  mask comparison.
\<close>

unbundle bit_operations_syntax

type_synonym octet = "8 word"

section \<open>netip.ParseAddr\<close>

text \<open>\<^verbatim>\<open>netip.Addr\<close>: the zero value is invalid; an IPv6 address has a zone, mostly empty.\<close>

datatype netip = NoAddr | V4 "octet list" | V6 "octet list" string

fun v4_loop :: "nat \<Rightarrow> nat \<Rightarrow> octet list \<Rightarrow> string \<Rightarrow> octet list option" where
  "v4_loop val digs fs [] =
     (if length fs < 3 then None else Some (fs @ [of_nat val]))"
| "v4_loop val digs fs (c # cs) =
     (if is_digit c then
        (if digs = 1 \<and> val = 0 then None
         else let val' = val * 10 + (byte c - 48)
              in (if val' > 255 then None else v4_loop val' (Suc digs) fs cs))
      else if c = CHR ''.'' then
        (if digs = 0 \<or> cs = [] then None
         else if length fs = 3 then None
         else v4_loop 0 0 (fs @ [of_nat val]) cs)
      else None)"

definition parse_v4_fields :: "string \<Rightarrow> octet list option" where
  "parse_v4_fields s = v4_loop 0 0 [] s"

definition is_hex :: "char \<Rightarrow> bool" where
  "is_hex c \<longleftrightarrow> is_digit c \<or> (97 \<le> byte c \<and> byte c \<le> 102) \<or> (65 \<le> byte c \<and> byte c \<le> 70)"

definition hex_val :: "char \<Rightarrow> nat" where
  "hex_val c =
     (if is_digit c then byte c - 48 else if 97 \<le> byte c \<and> byte c \<le> 102 then byte c - 87 else byte c - 55)"

definition hex_num :: "string \<Rightarrow> nat" where
  "hex_num ds = foldl (\<lambda>a c. a * 16 + hex_val c) 0 ds"

text \<open>
  One turn of the group loop of \<^verbatim>\<open>parseIPv6\<close> over the remaining string, the bytes so far and the
  position of the ellipsis: \<open>None\<close> is a parse error, \<open>Inl\<close> leaves the loop, \<open>Inr\<close> goes on.
\<close>

type_synonym v6_state = "string \<times> octet list \<times> nat option"

definition v6_after_group :: "string \<Rightarrow> octet list \<Rightarrow> nat option \<Rightarrow> (v6_state + v6_state) option" where
  "v6_after_group rest ip ell =
     (case rest of
        [] \<Rightarrow> Some (Inl ([], ip, ell))
      | [_] \<Rightarrow> None
      | c # d # t \<Rightarrow>
          if c \<noteq> CHR '':'' then None
          else if d = CHR '':'' then
            (if ell \<noteq> None then None
             else if t = [] then Some (Inl ([], ip, Some (length ip)))
             else Some (Inr (t, ip, Some (length ip))))
          else Some (Inr (d # t, ip, ell)))"

definition v6_step :: "string \<Rightarrow> octet list \<Rightarrow> nat option \<Rightarrow> (v6_state + v6_state) option" where
  "v6_step s ip ell =
     (let ds = takeWhile is_hex s; rest = dropWhile is_hex s; v = hex_num ds
      in if ds = [] \<or> 4 < length ds then None
         else if rest \<noteq> [] \<and> hd rest = CHR ''.'' then
           (if ell = None \<and> length ip \<noteq> 12 then None
            else if 16 < length ip + 4 then None
            else map_option (\<lambda>bs. Inl ([], ip @ bs, ell)) (parse_v4_fields s))
         else v6_after_group rest (ip @ [of_nat (v div 256), of_nat (v mod 256)]) ell)"

lemma v6_step_shorter:
  assumes "v6_step s ip ell = Some (Inr (s', ip', ell'))"
  shows "length s' < length s"
  using assms length_dropWhile_le [of is_hex s]
  by (auto simp: v6_step_def v6_after_group_def Let_def split: if_splits list.splits)

function v6_loop :: "string \<Rightarrow> octet list \<Rightarrow> nat option \<Rightarrow> v6_state option" where
  "v6_loop s ip ell =
     (if 16 \<le> length ip then Some (s, ip, ell)
      else (case v6_step s ip ell of
              None \<Rightarrow> None
            | Some (Inl r) \<Rightarrow> Some r
            | Some (Inr (s', ip', ell')) \<Rightarrow> v6_loop s' ip' ell'))"
  by pat_completeness auto
termination
  by (relation "measure (\<lambda>(s, ip, ell). length s)") (auto dest: v6_step_shorter)

declare v6_loop.simps [simp del]

definition v6_finish :: "string \<times> octet list \<times> nat option \<Rightarrow> string \<Rightarrow> netip option" where
  "v6_finish r zone =
     (case r of (s, ip, ell) \<Rightarrow>
        if s \<noteq> [] then None
        else if length ip < 16 then
          (case ell of
             None \<Rightarrow> None
           | Some e \<Rightarrow> Some (V6 (take e ip @ replicate (16 - length ip) 0 @ drop e ip) zone))
        else if ell \<noteq> None then None
        else Some (V6 ip zone))"

definition parse_v6_body :: "string \<Rightarrow> string \<Rightarrow> netip option" where
  "parse_v6_body s zone =
     (if prefix [CHR '':'', CHR '':''] s then
        (if length s = 2 then Some (V6 (replicate 16 0) zone)
         else Option.bind (v6_loop (drop 2 s) [] (Some 0)) (\<lambda>r. v6_finish r zone))
      else Option.bind (v6_loop s [] None) (\<lambda>r. v6_finish r zone))"

definition parse_v6 :: "string \<Rightarrow> netip option" where
  "parse_v6 s =
     (case index_byte CHR ''%'' s of
        None \<Rightarrow> parse_v6_body s []
      | Some i \<Rightarrow> if drop (Suc i) s = [] then None else parse_v6_body (take i s) (drop (Suc i) s))"

text \<open>\<^verbatim>\<open>netip.ParseAddr\<close>: the first of dot, colon and percent sign decides.\<close>

definition parseAddr :: "string \<Rightarrow> netip option" where
  "parseAddr s =
     (case find (\<lambda>c. c = CHR ''.'' \<or> c = CHR '':'' \<or> c = CHR ''%'') s of
        None \<Rightarrow> None
      | Some c \<Rightarrow>
          if c = CHR ''.'' then map_option V4 (parse_v4_fields s)
          else if c = CHR '':'' then parse_v6 s
          else None)"

fun addr_bits :: "netip \<Rightarrow> nat" where
  "addr_bits NoAddr = 0"
| "addr_bits (V4 _) = 32"
| "addr_bits (V6 _ _) = 128"

section \<open>netip.Prefix\<close>

text \<open>The first \<open>n\<close> bits of two byte strings agree; bit \<open>j\<close> is bit \<open>7 - j mod 8\<close> of byte
  \<open>j div 8\<close> (network order).\<close>

definition addr_bit :: "octet list \<Rightarrow> nat \<Rightarrow> bool" where
  "addr_bit bs j = bit (bs ! (j div 8)) (7 - j mod 8)"

definition agree_bits :: "nat \<Rightarrow> octet list \<Rightarrow> octet list \<Rightarrow> bool" where
  "agree_bits n a b \<longleftrightarrow> (\<forall>j\<in>set [0..<n]. addr_bit a j = addr_bit b j)"

type_synonym ip_prefix = "netip \<times> nat"

definition parsePrefix :: "string \<Rightarrow> ip_prefix option" where
  "parsePrefix s =
     (case last_index_byte CHR ''/'' s of
        None \<Rightarrow> None
      | Some i \<Rightarrow>
          (case parseAddr (take i s) of
             None \<Rightarrow> None
           | Some ip \<Rightarrow>
               if (case ip of V6 _ z \<Rightarrow> z \<noteq> [] | _ \<Rightarrow> False) then None
               else
                 let bs = drop (Suc i) s
                 in if 1 < length bs \<and> \<not> (49 \<le> byte (hd bs) \<and> byte (hd bs) \<le> 57) then None
                    else (case atoi bs of
                            None \<Rightarrow> None
                          | Some n \<Rightarrow>
                              if n < 0 \<or> n > int (addr_bits ip) then None else Some (ip, nat n))))"

definition prefixContains :: "ip_prefix \<Rightarrow> netip \<Rightarrow> bool" where
  "prefixContains p ip =
     (case (p, ip) of
        ((V4 a, n), V4 b) \<Rightarrow> agree_bits n a b
      | ((V6 a _, n), V6 b z) \<Rightarrow> z = [] \<and> agree_bits n a b
      | _ \<Rightarrow> False)"

section \<open>net.IP and net.IPNet\<close>

text \<open>A \<^verbatim>\<open>net.IP\<close> is a byte slice of length 4 or 16, or nil (the empty list).\<close>

type_synonym net_ip = "octet list"

record ip_net =
  net_IP :: net_ip
  net_Mask :: "octet list"

definition v4_in_v6 :: "octet list" where
  "v4_in_v6 = [0, 0, 0, 0, 0, 0, 0, 0, 0, 0, 255, 255]"

definition as16 :: "netip \<Rightarrow> net_ip" where
  "as16 a = (case a of V4 bs \<Rightarrow> v4_in_v6 @ bs | V6 bs _ \<Rightarrow> bs | NoAddr \<Rightarrow> [])"

definition parseIP :: "string \<Rightarrow> net_ip" where
  "parseIP s =
     (case parseAddr s of
        None \<Rightarrow> []
      | Some a \<Rightarrow> if (case a of V6 _ z \<Rightarrow> z \<noteq> [] | _ \<Rightarrow> False) then [] else as16 a)"

definition to4 :: "net_ip \<Rightarrow> net_ip option" where
  "to4 ip =
     (if length ip = 4 then Some ip
      else if length ip = 16 \<and> take 12 ip = v4_in_v6 then Some (drop 12 ip)
      else None)"

fun cidr_bytes :: "nat \<Rightarrow> nat \<Rightarrow> octet list" where
  "cidr_bytes 0 n = []"
| "cidr_bytes (Suc l) n =
     (if 8 \<le> n then 255 # cidr_bytes l (n - 8) else NOT (drop_bit n 255) # cidr_bytes l 0)"

definition cidrMask :: "nat \<Rightarrow> nat \<Rightarrow> octet list" where
  "cidrMask ones bits = cidr_bytes (bits div 8) ones"

definition mask_bytes :: "octet list \<Rightarrow> octet list \<Rightarrow> octet list" where
  "mask_bytes a m = map2 (AND) a m"

text \<open>\<^verbatim>\<open>IP.Mask\<close>, nil when the lengths do not fit.\<close>

definition ipMask :: "net_ip \<Rightarrow> octet list \<Rightarrow> net_ip" where
  "ipMask ip m =
     (let m' = (if length m = 16 \<and> length ip = 4 \<and> take 12 m = replicate 12 255 then drop 12 m else m);
          ip' = (if length m' = 4 \<and> length ip = 16 \<and> take 12 ip = v4_in_v6 then drop 12 ip else ip)
      in if length ip' \<noteq> length m' then [] else mask_bytes ip' m')"

text \<open>\<^verbatim>\<open>dtoi\<close> of the net package: decimal digits below \<open>0xFFFFFF\<close>, the whole string.\<close>

definition parse_mask_len :: "string \<Rightarrow> nat option" where
  "parse_mask_len s =
     (case parse_dec s of Some n \<Rightarrow> (if int n < 0xFFFFFF then Some n else None) | None \<Rightarrow> None)"

definition parseCIDR :: "string \<Rightarrow> ip_net option" where
  "parseCIDR s =
     (case index_byte CHR ''/'' s of
        None \<Rightarrow> None
      | Some i \<Rightarrow>
          (case (parseAddr (take i s), parse_mask_len (drop (Suc i) s)) of
             (Some a, Some n) \<Rightarrow>
               if (case a of V6 _ z \<Rightarrow> z \<noteq> [] | _ \<Rightarrow> False) \<or> addr_bits a < n then None
               else let m = cidrMask n (addr_bits a)
                    in Some \<lparr>net_IP = ipMask (as16 a) m, net_Mask = m\<rparr>
           | _ \<Rightarrow> None))"

definition networkNumberAndMask :: "ip_net \<Rightarrow> net_ip \<times> octet list" where
  "networkNumberAndMask n =
     (let ip = (case to4 (net_IP n) of Some x \<Rightarrow> x | None \<Rightarrow> net_IP n); m = net_Mask n
      in if to4 (net_IP n) = None \<and> length ip \<noteq> 16 then ([], [])
         else if length m = 4 then (if length ip \<noteq> 4 then ([], []) else (ip, m))
         else if length m = 16 then (if length ip = 4 then (ip, drop 12 m) else (ip, m))
         else ([], []))"

definition netContains :: "ip_net \<Rightarrow> net_ip \<Rightarrow> bool" where
  "netContains n ip0 =
     (let (nn, m) = networkNumberAndMask n;
          ip = (case to4 ip0 of Some x \<Rightarrow> x | None \<Rightarrow> ip0)
      in if length ip \<noteq> length nn then False else mask_bytes nn m = mask_bytes ip m)"

section \<open>Lengths of parsed addresses\<close>

lemma v4_loop_length:
  "v4_loop val digs fs s = Some bs \<Longrightarrow> length fs \<le> 3 \<Longrightarrow> length bs = 4"
  by (induction val digs fs s rule: v4_loop.induct) (auto simp: Let_def split: if_splits)

lemma parse_v4_fields_length: "parse_v4_fields s = Some bs \<Longrightarrow> length bs = 4"
  unfolding parse_v4_fields_def by (rule v4_loop_length) auto

definition v6_ok :: "v6_state \<Rightarrow> bool" where
  "v6_ok r = (case r of (s, ip, ell) \<Rightarrow>
     length ip \<le> 16 \<and> (case ell of None \<Rightarrow> True | Some e \<Rightarrow> e \<le> length ip))"

lemma v6_after_group_ok:
  assumes "v6_after_group rest ip ell = Some r" "v6_ok (rest, ip, ell)" "even (length ip)"
  shows "case r of Inl q \<Rightarrow> v6_ok q | Inr q \<Rightarrow> v6_ok q \<and> even (length (fst (snd q)))"
  using assms by (auto simp: v6_after_group_def v6_ok_def split: list.splits if_splits option.splits)

lemma v6_step_ok:
  assumes "v6_step s ip ell = Some r" "v6_ok (s, ip, ell)" "even (length ip)" "length ip < 16"
  shows "case r of Inl q \<Rightarrow> v6_ok q | Inr q \<Rightarrow> v6_ok q \<and> even (length (fst (snd q)))"
proof -
  let ?ip = "ip @ [of_nat (hex_num (takeWhile is_hex s) div 256), of_nat (hex_num (takeWhile is_hex s) mod 256)]"
  from assms(3,4) have "length ip + 2 \<le> 16" by presburger
  with assms(2,3) have "v6_ok (dropWhile is_hex s, ?ip, ell)" "even (length ?ip)"
    by (auto simp: v6_ok_def split: option.splits)
  with v6_after_group_ok [of "dropWhile is_hex s" ?ip ell r] assms show ?thesis
    by (auto simp: v6_step_def Let_def v6_ok_def parse_v4_fields_length split: if_splits option.splits)
qed

lemma v6_loop_ok:
  "v6_loop s ip ell = Some r \<Longrightarrow> v6_ok (s, ip, ell) \<Longrightarrow> even (length ip) \<Longrightarrow> v6_ok r"
proof (induction s ip ell rule: v6_loop.induct)
  case (1 s ip ell)
  show ?case
  proof (cases "16 \<le> length ip")
    case True
    with "1.prems" show ?thesis by (simp add: v6_loop.simps [of s ip ell])
  next
    case False
    with "1.prems"(1) obtain q where q: "v6_step s ip ell = Some q"
      by (auto simp: v6_loop.simps [of s ip ell] split: option.splits)
    with "1.prems"(2,3) False have ok: "case q of Inl q \<Rightarrow> v6_ok q | Inr q \<Rightarrow> v6_ok q \<and> even (length (fst (snd q)))"
      by (intro v6_step_ok) auto
    show ?thesis
    proof (cases q)
      case (Inl r')
      with q "1.prems"(1) ok False show ?thesis by (simp add: v6_loop.simps [of s ip ell])
    next
      case (Inr t)
      obtain s' ip' ell' where t: "t = (s', ip', ell')" by (cases t)
      from "1.prems"(1) q Inr t False have "v6_loop s' ip' ell' = Some r"
        by (simp add: v6_loop.simps [of s ip ell])
      with "1.IH" [OF False q Inr t [symmetric] refl] ok Inr t show ?thesis by simp
    qed
  qed
qed

lemma v6_finish_length:
  assumes "v6_finish r zone = Some a" "v6_ok r"
  shows "\<exists>bs. a = V6 bs zone \<and> length bs = 16"
  using assms by (auto simp: v6_finish_def v6_ok_def split: if_splits option.splits prod.splits)

lemma parse_v6_body_length: "parse_v6_body s zone = Some a \<Longrightarrow> \<exists>bs. a = V6 bs zone \<and> length bs = 16"
  using v6_loop_ok [of "drop 2 s" "[]" "Some 0"] v6_loop_ok [of s "[]" None]
  by (auto simp: parse_v6_body_def bind_eq_Some_conv v6_ok_def split: if_splits dest!: v6_finish_length)

definition wf_addr :: "netip \<Rightarrow> bool" where
  "wf_addr a = (case a of NoAddr \<Rightarrow> False | V4 bs \<Rightarrow> length bs = 4 | V6 bs _ \<Rightarrow> length bs = 16)"

lemma parseAddr_wf: "parseAddr s = Some a \<Longrightarrow> wf_addr a"
  by (auto simp: parseAddr_def parse_v6_def wf_addr_def parse_v4_fields_length
      split: option.splits if_splits dest: parse_v6_body_length)

section \<open>Masks and bits\<close>

lemma length_cidr_bytes [simp]: "length (cidr_bytes l n) = l"
  by (induction l n rule: cidr_bytes.induct) auto

lemma bit_cidr_bytes:
  "i < l \<Longrightarrow> b < 8 \<Longrightarrow> bit (cidr_bytes l n ! i) b \<longleftrightarrow> 8 * i + (7 - b) < n"
proof (induction l n arbitrary: i rule: cidr_bytes.induct)
  case (1 n)
  then show ?case by simp
next
  case (2 l n)
  have m: "(255 :: octet) = mask 8" by (simp add: mask_eq_exp_minus_1)
  show ?case
  proof (cases i)
    case 0
    with "2.prems" show ?thesis
      by (auto simp: m bit_mask_iff bit_not_iff bit_drop_bit_eq)
  next
    case (Suc k)
    with "2.IH" "2.prems" show ?thesis by auto
  qed
qed

lemma octet_eq_iff: "(a :: octet) = b \<longleftrightarrow> (\<forall>i<8. bit a i = bit b i)"
  by (simp add: bit_eq_iff)

lemma mask_bytes_eq_iff:
  assumes "length a = l" "length b = l"
  shows "mask_bytes a (cidr_bytes l n) = mask_bytes b (cidr_bytes l n) \<longleftrightarrow> agree_bits (min n (8 * l)) a b"
proof -
  have "mask_bytes a (cidr_bytes l n) = mask_bytes b (cidr_bytes l n) \<longleftrightarrow>
      (\<forall>i<l. \<forall>k<8. 8 * i + (7 - k) < n \<longrightarrow> bit (a ! i) k = bit (b ! i) k)"
    using assms
    by (auto simp: mask_bytes_def list_eq_iff_nth_eq octet_eq_iff bit_and_iff bit_cidr_bytes)
  also have "\<dots> \<longleftrightarrow> (\<forall>j < min n (8 * l). addr_bit a j = addr_bit b j)"
  proof (rule iffI; intro allI impI)
    fix j assume *: "\<forall>i<l. \<forall>k<8. 8 * i + (7 - k) < n \<longrightarrow> bit (a ! i) k = bit (b ! i) k"
      and j: "j < min n (8 * l)"
    have "j div 8 < l" "7 - j mod 8 < 8" "8 * (j div 8) + (7 - (7 - j mod 8)) < n"
      using j by auto
    with * show "addr_bit a j = addr_bit b j" by (simp add: addr_bit_def)
  next
    fix i k assume *: "\<forall>j < min n (8 * l). addr_bit a j = addr_bit b j"
      and i: "i < l" "k < (8::nat)" "8 * i + (7 - k) < n"
    have "8 * i + (7 - k) < min n (8 * l)" using i by auto
    moreover have "(8 * i + (7 - k)) div 8 = i" "(8 * i + (7 - k)) mod 8 = 7 - k" by simp_all
    then have "(8 * i + (7 - k)) div 8 = i" "7 - (8 * i + (7 - k)) mod 8 = k" using i by simp_all
    ultimately show "bit (a ! i) k = bit (b ! i) k"
      using * unfolding addr_bit_def by metis
  qed
  also have "\<dots> \<longleftrightarrow> agree_bits (min n (8 * l)) a b" by (auto simp: agree_bits_def)
  finally show ?thesis .
qed

lemma agree_bits_refl [simp]: "agree_bits n a a"
  by (simp add: agree_bits_def)

lemma agree_bits_sym: "agree_bits n a b \<longleftrightarrow> agree_bits n b a"
  by (auto simp: agree_bits_def)

section \<open>Membership in a network\<close>

text \<open>
  The meaning of a network given by an address and a prefix length: the base bytes and the number
  of leading bits that must agree. An IPv4-mapped IPv6 base with at least 96 bits denotes the
  IPv4 network.
\<close>

definition net_meaning :: "netip \<Rightarrow> nat \<Rightarrow> octet list \<times> nat" where
  "net_meaning a n =
     (case a of
        V4 bs \<Rightarrow> (bs, n)
      | V6 bs _ \<Rightarrow> if take 12 bs = v4_in_v6 \<and> 96 \<le> n then (drop 12 bs, n - 96) else (bs, n)
      | NoAddr \<Rightarrow> ([], n))"

definition unmap4 :: "net_ip \<Rightarrow> net_ip" where
  "unmap4 ip = (case to4 ip of Some x \<Rightarrow> x | None \<Rightarrow> ip)"

definition covers :: "octet list \<times> nat \<Rightarrow> net_ip \<Rightarrow> bool" where
  "covers p ip = (case p of (base, n) \<Rightarrow> length (unmap4 ip) = length base \<and> agree_bits n base (unmap4 ip))"

definition cidr_net :: "netip \<Rightarrow> nat \<Rightarrow> ip_net" where
  "cidr_net a n = (let m = cidrMask n (addr_bits a) in \<lparr>net_IP = ipMask (as16 a) m, net_Mask = m\<rparr>)"

lemma length_mask_bytes [simp]: "length (mask_bytes a m) = min (length a) (length m)"
  by (simp add: mask_bytes_def)

lemma mask_bytes_idem: "length a = length m \<Longrightarrow> mask_bytes (mask_bytes a m) m = mask_bytes a m"
  by (auto simp: mask_bytes_def list_eq_iff_nth_eq)

lemma cidr_bytes_append: "8 * k \<le> n \<Longrightarrow> cidr_bytes (k + l) n = replicate k 255 @ cidr_bytes l (n - 8 * k)"
  by (induction k arbitrary: n) auto

lemma mask_bytes_append:
  "length a = length m \<Longrightarrow> mask_bytes (a @ b) (m @ k) = mask_bytes a m @ mask_bytes b k"
  by (simp add: mask_bytes_def)

lemma mask_bytes_ones: "mask_bytes a (replicate (length a) 255) = a"
proof -
  have "(255 :: octet) = mask 8" by (simp add: mask_eq_exp_minus_1)
  then have "x AND 255 = x" for x :: octet by (simp add: octet_eq_iff bit_and_iff bit_mask_iff)
  then show ?thesis by (auto simp: mask_bytes_def list_eq_iff_nth_eq)
qed

lemma netContains_v4:
  assumes "length bs = 4" "n \<le> 32"
  shows "netContains (cidr_net (V4 bs) n) ip \<longleftrightarrow> covers (bs, n) ip"
proof -
  have m: "cidrMask n 32 = cidr_bytes 4 n" by (simp add: cidrMask_def)
  have "ipMask (as16 (V4 bs)) (cidr_bytes 4 n) = mask_bytes bs (cidr_bytes 4 n)"
    using assms by (simp add: ipMask_def as16_def v4_in_v6_def)
  then have net: "cidr_net (V4 bs) n = \<lparr>net_IP = mask_bytes bs (cidr_bytes 4 n), net_Mask = cidr_bytes 4 n\<rparr>"
    by (simp add: cidr_net_def m Let_def)
  have "min n 32 = n" using assms(2) by simp
  then show ?thesis
    using assms mask_bytes_eq_iff [of bs 4 "unmap4 ip" n]
    by (auto simp: netContains_def networkNumberAndMask_def net to4_def unmap4_def covers_def
        mask_bytes_idem Let_def)
qed

lemma length_v4_in_v6 [simp]: "length v4_in_v6 = 12"
  by (simp add: v4_in_v6_def)

lemma take_mask_bytes_mapped:
  assumes "length bs = 16"
  shows "take 12 (mask_bytes bs (cidr_bytes 16 n)) = v4_in_v6 \<longleftrightarrow> take 12 bs = v4_in_v6 \<and> 96 \<le> n"
proof -
  have long: "mask_bytes bs (cidr_bytes 16 n) = take 12 bs @ mask_bytes (drop 12 bs) (cidr_bytes 4 (n - 96))"
    if "96 \<le> n"
  proof -
    have "cidr_bytes 16 n = replicate 12 255 @ cidr_bytes 4 (n - 96)"
      using cidr_bytes_append [of 12 n 4] that by simp
    moreover have "bs = take 12 bs @ drop 12 bs" by simp
    ultimately show ?thesis
      using assms mask_bytes_ones [of "take 12 bs"]
        mask_bytes_append [of "take 12 bs" "replicate 12 255" "drop 12 bs" "cidr_bytes 4 (n - 96)"]
      by simp
  qed
  have "96 \<le> n" if "take 12 (mask_bytes bs (cidr_bytes 16 n)) = v4_in_v6"
  proof -
    have "mask_bytes bs (cidr_bytes 16 n) ! 11 = v4_in_v6 ! 11"
      by (subst that [symmetric]) simp
    then have "mask_bytes bs (cidr_bytes 16 n) ! 11 = 255" by (simp add: v4_in_v6_def)
    then have "bs ! 11 AND cidr_bytes 16 n ! 11 = 255"
      using assms by (simp add: mask_bytes_def)
    then have "bit (cidr_bytes 16 n ! 11) 0"
      using bit_and_iff [of "bs ! 11" "cidr_bytes 16 n ! 11" 0] by simp
    then show ?thesis using bit_cidr_bytes [of 11 16 0 n] by simp
  qed
  moreover have "take 12 (mask_bytes bs (cidr_bytes 16 n)) = take 12 bs" if "96 \<le> n"
    unfolding long [OF that] using assms by simp
  ultimately show ?thesis by metis
qed

lemma netContains_v6:
  assumes "length bs = 16" "n \<le> 128"
  shows "netContains (cidr_net (V6 bs z) n) ip \<longleftrightarrow> covers (net_meaning (V6 bs z) n) ip"
proof -
  let ?m = "cidr_bytes 16 n"
  have net: "cidr_net (V6 bs z) n = \<lparr>net_IP = mask_bytes bs ?m, net_Mask = ?m\<rparr>"
    using assms(1) by (simp add: cidr_net_def cidrMask_def Let_def ipMask_def as16_def)
  note mapped = take_mask_bytes_mapped [OF assms(1), of n]
  show ?thesis
  proof (cases "take 12 bs = v4_in_v6 \<and> 96 \<le> n")
    case True
    have m: "?m = replicate 12 255 @ cidr_bytes 4 (n - 96)"
      using cidr_bytes_append [of 12 n 4] True by simp
    have "mask_bytes bs ?m = take 12 bs @ mask_bytes (drop 12 bs) (cidr_bytes 4 (n - 96))"
      using assms(1) mask_bytes_ones [of "take 12 bs"] m
        mask_bytes_append [of "take 12 bs" "replicate 12 255" "drop 12 bs" "cidr_bytes 4 (n - 96)"]
      by simp
    then have "networkNumberAndMask (cidr_net (V6 bs z) n) =
        (mask_bytes (drop 12 bs) (cidr_bytes 4 (n - 96)), cidr_bytes 4 (n - 96))"
      using assms(1) mapped True m by (simp add: networkNumberAndMask_def net to4_def Let_def)
    moreover have "min (n - 96) 32 = n - 96" using assms(2) by simp
    ultimately show ?thesis
      using assms(1) True mask_bytes_eq_iff [of "drop 12 bs" 4 "unmap4 ip" "n - 96"]
      by (auto simp: netContains_def unmap4_def covers_def net_meaning_def mask_bytes_idem Let_def)
  next
    case False
    then have "networkNumberAndMask (cidr_net (V6 bs z) n) = (mask_bytes bs ?m, ?m)"
      using assms(1) mapped by (auto simp: networkNumberAndMask_def net to4_def Let_def)
    moreover have "min n 128 = n" using assms(2) by simp
    moreover have "net_meaning (V6 bs z) n = (bs, n)" using False by (auto simp: net_meaning_def)
    ultimately show ?thesis
      using assms(1) mask_bytes_eq_iff [of bs 16 "unmap4 ip" n]
      by (auto simp: netContains_def unmap4_def covers_def mask_bytes_idem Let_def)
  qed
qed

lemma netContains_meaning:
  assumes "wf_addr a" "n \<le> addr_bits a"
  shows "netContains (cidr_net a n) ip \<longleftrightarrow> covers (net_meaning a n) ip"
  using assms netContains_v4 netContains_v6
  by (cases a) (auto simp: wf_addr_def net_meaning_def)

end
