(* ===== verification/Access_Config.thy ===== *)
theory Access_Config
  imports Header_Rules Ip_Addr
begin

text \<open>
  The pure parts of src/internal/proxy/config.go: service principal names, comma-separated lists,
  the client allowlist and the CONNECT port list. The main lemma relates the allowlist given as a
  string to a bit-prefix relation on addresses.
\<close>

definition ConnectPortWildcard :: string where "ConnectPortWildcard = ''*''"

definition normalizeSPN :: "string \<Rightarrow> char \<Rightarrow> char \<Rightarrow> string" where
  "normalizeSPN spn targetSep alternateSep =
     (case index_byte targetSep spn of
        Some _ \<Rightarrow> spn
      | None \<Rightarrow>
          (case index_byte alternateSep spn of
             Some i \<Rightarrow> take i spn @ [targetSep] @ drop (Suc i) spn
           | None \<Rightarrow> spn))"

definition SplitCSV :: "string \<Rightarrow> string list" where
  "SplitCSV s = filter (\<lambda>part. part \<noteq> []) (map trim_space (split_sep CHR '','' s))"

datatype allow_error = InvalidCIDR string | InvalidIP string

definition parseAllowEntry :: "string \<Rightarrow> allow_error + ip_net" where
  "parseAllowEntry entry =
     (if CHR ''/'' \<in> set entry then
        (case parseCIDR entry of None \<Rightarrow> Inl (InvalidCIDR entry) | Some ipNet \<Rightarrow> Inr ipNet)
      else
        let ip = parseIP entry
        in if ip = [] then Inl (InvalidIP entry)
           else let bits = (if to4 ip = None then 128 else 32)
                in Inr \<lparr>net_IP = ip, net_Mask = cidrMask bits bits\<rparr>)"

fun parseAllowEntries :: "string list \<Rightarrow> allow_error + ip_net list" where
  "parseAllowEntries [] = Inr []"
| "parseAllowEntries (e # es) =
     (case parseAllowEntry e of
        Inl err \<Rightarrow> Inl err
      | Inr n \<Rightarrow> (case parseAllowEntries es of Inl err \<Rightarrow> Inl err | Inr ns \<Rightarrow> Inr (n # ns)))"

definition ParseAllowList :: "string \<Rightarrow> allow_error + ip_net list" where
  "ParseAllowList s = parseAllowEntries (SplitCSV s)"

definition ipAllowed :: "net_ip \<Rightarrow> ip_net list \<Rightarrow> bool" where
  "ipAllowed ip allowList =
     (if allowList = [] then True
      else let ip' = (case to4 ip of Some v4 \<Rightarrow> v4 | None \<Rightarrow> ip)
           in list_ex (\<lambda>n. netContains n ip') allowList)"

definition connectPortAllowed :: "string \<Rightarrow> string list \<Rightarrow> bool" where
  "connectPortAllowed port allowedPorts \<longleftrightarrow>
     allowedPorts = [] \<or> list_ex (\<lambda>p. p = ConnectPortWildcard \<or> p = port) allowedPorts"

section \<open>Lists\<close>

lemma SplitCSV_entries: "p \<in> set (SplitCSV s) \<Longrightarrow> p \<noteq> [] \<and> CHR '','' \<notin> set p"
  using set_trim_space split_sep_no_sep by (fastforce simp: SplitCSV_def)

lemma SplitCSV_empty [simp]: "SplitCSV [] = []"
  by (simp add: SplitCSV_def trim_space_plain)

section \<open>Service principal names\<close>

lemma normalizeSPN_target: "targetSep \<in> set spn \<Longrightarrow> normalizeSPN spn targetSep alt = spn"
  using index_byte_None [of targetSep spn] by (auto simp: normalizeSPN_def split: option.splits)

lemma normalizeSPN_alternate:
  assumes "targetSep \<notin> set spn" "alt \<notin> set xs" "spn = xs @ alt # ys"
  shows "normalizeSPN spn targetSep alt = xs @ targetSep # ys"
  using assms index_byte_append [of alt xs ys]
  by (simp add: normalizeSPN_def index_byte_None [THEN iffD2])

text \<open>An SPN may be written for either backend. Converting \<open>service@host\<close> to the Kerberos form
  and back gives the original, and converting twice is converting once, for any separators.\<close>

lemma normalizeSPN_roundtrip:
  assumes "sep \<notin> set service" "sep \<notin> set host" "alt \<notin> set service" "alt \<notin> set host" "sep \<noteq> alt"
  shows "normalizeSPN (service @ alt # host) sep alt = service @ sep # host \<and>
    normalizeSPN (normalizeSPN (service @ alt # host) sep alt) alt sep = service @ alt # host \<and>
    normalizeSPN (normalizeSPN (service @ alt # host) sep alt) sep alt =
      normalizeSPN (service @ alt # host) sep alt"
  using assms by (simp add: normalizeSPN_alternate [where xs = service and ys = host] normalizeSPN_target)

theorem normalizeSPN_roundtrip_witness:
  "normalizeSPN ''HTTP@proxy.corp'' CHR ''/'' CHR ''@'' = ''HTTP/proxy.corp'' \<and>
   normalizeSPN ''HTTP/proxy.corp'' CHR ''@'' CHR ''/'' = ''HTTP@proxy.corp''"
  using normalizeSPN_roundtrip [of "CHR ''/''" "''HTTP''" "''proxy.corp''" "CHR ''@''"] by auto

section \<open>The allowlist\<close>

text \<open>What one entry of the list means: an address and a prefix length.\<close>

definition entry_prefix :: "string \<Rightarrow> (netip \<times> nat) option" where
  "entry_prefix e =
     (case index_byte CHR ''/'' e of
        Some i \<Rightarrow>
          (case (parseAddr (take i e), parse_mask_len (drop (Suc i) e)) of
             (Some a, Some n) \<Rightarrow> Some (a, n)
           | _ \<Rightarrow> None)
      | None \<Rightarrow>
          (case parseAddr e of Some a \<Rightarrow> Some (a, addr_bits a) | None \<Rightarrow> None))"

lemma parseCIDR_Some:
  assumes "parseCIDR e = Some N"
  obtains a n where "entry_prefix e = Some (a, n)" "wf_addr a" "n \<le> addr_bits a" "N = cidr_net a n"
  using assms parseAddr_wf
  by (fastforce simp: parseCIDR_def entry_prefix_def cidr_net_def Let_def
      split: option.splits if_splits)

lemma unmap4_idem: "unmap4 (unmap4 ip) = unmap4 ip"
  by (auto simp: unmap4_def to4_def split: option.splits if_splits)

lemma to4_unmap4: "(case to4 (unmap4 ip) of None \<Rightarrow> unmap4 ip | Some x \<Rightarrow> x) = unmap4 ip"
  using unmap4_idem [of ip] unmap4_def [of "unmap4 ip"] by simp

lemma netContains_unmap4: "netContains N (unmap4 ip) = netContains N ip"
  by (simp add: netContains_def to4_unmap4) (simp add: unmap4_def)

lemma netContains_host:
  assumes "wf_addr a" and that: "b = (if to4 (as16 a) = None then 128 else 32)"
  shows "netContains \<lparr>net_IP = as16 a, net_Mask = cidrMask b b\<rparr> ip \<longleftrightarrow> covers (net_meaning a (addr_bits a)) ip"
proof (cases "to4 (as16 a)")
  case None
  with assms obtain bs z where a: "a = V6 bs z" "length bs = 16" "take 12 bs \<noteq> v4_in_v6"
    by (cases a) (auto simp: wf_addr_def as16_def to4_def split: if_splits)
  with None that show ?thesis
    using mask_bytes_eq_iff [of bs 16 "unmap4 ip" 128]
    by (auto simp: netContains_def networkNumberAndMask_def as16_def to4_def unmap4_def covers_def
        net_meaning_def cidrMask_def Let_def)
next
  case (Some x)
  with assms have x: "length x = 4" "net_meaning a (addr_bits a) = (x, 32)"
    by (auto simp: wf_addr_def as16_def to4_def net_meaning_def split: netip.splits if_splits)
  with Some that show ?thesis
    using mask_bytes_eq_iff [of x 4 "unmap4 ip" 32]
    by (auto simp: netContains_def networkNumberAndMask_def unmap4_def covers_def cidrMask_def Let_def)
qed

lemma parseAllowEntry_meaning:
  assumes "parseAllowEntry e = Inr N"
  shows "\<exists>a n. entry_prefix e = Some (a, n) \<and> (\<forall>ip. netContains N ip = covers (net_meaning a n) ip)"
proof (cases "CHR ''/'' \<in> set e")
  case True
  with assms have "parseCIDR e = Some N"
    by (auto simp: parseAllowEntry_def split: option.splits)
  then obtain a n where "entry_prefix e = Some (a, n)" "wf_addr a" "n \<le> addr_bits a" "N = cidr_net a n"
    by (rule parseCIDR_Some)
  then show ?thesis using netContains_meaning by blast
next
  case False
  then have ib: "index_byte CHR ''/'' e = None" by (simp add: index_byte_None)
  from assms False obtain a where a: "parseAddr e = Some a" "parseIP e = as16 a"
    "N = \<lparr>net_IP = as16 a, net_Mask =
        (let b = (if to4 (as16 a) = None then 128 else 32) in cidrMask b b)\<rparr>"
    by (auto simp: parseAllowEntry_def parseIP_def Let_def split: option.splits if_splits)
  then have "entry_prefix e = Some (a, addr_bits a)" by (simp add: entry_prefix_def ib)
  moreover have "netContains N ip = covers (net_meaning a (addr_bits a)) ip" for ip
    using netContains_host [OF parseAddr_wf [OF a(1)] refl, of ip] a(3) by (simp add: Let_def)
  ultimately show ?thesis by blast
qed

lemma parseAllowEntries_meaning:
  "parseAllowEntries es = Inr nets \<Longrightarrow>
     list_ex (\<lambda>n. netContains n ip) nets \<longleftrightarrow>
     (\<exists>e\<in>set es. \<exists>a n. entry_prefix e = Some (a, n) \<and> covers (net_meaning a n) ip)"
proof (induction es arbitrary: nets)
  case Nil
  then show ?case by simp
next
  case (Cons e es)
  then obtain N ns where N: "parseAllowEntry e = Inr N" "parseAllowEntries es = Inr ns" "nets = N # ns"
    by (auto split: sum.splits)
  obtain a n where "entry_prefix e = Some (a, n)" "\<forall>ip. netContains N ip = covers (net_meaning a n) ip"
    using parseAllowEntry_meaning [OF N(1)] by blast
  with Cons.IH [OF N(2)] N(3) show ?case by simp
qed

lemma parseAllowEntries_Nil: "parseAllowEntries es = Inr nets \<Longrightarrow> nets = [] \<longleftrightarrow> es = []"
  by (cases es) (auto split: sum.splits)

lemma ipAllowed_meaning:
  assumes "ParseAllowList s = Inr nets"
  shows "ipAllowed ip nets \<longleftrightarrow>
    SplitCSV s = [] \<or>
    (\<exists>e\<in>set (SplitCSV s). \<exists>a n. entry_prefix e = Some (a, n) \<and> covers (net_meaning a n) ip)"
proof -
  from assms have p: "parseAllowEntries (SplitCSV s) = Inr nets" by (simp add: ParseAllowList_def)
  have "ipAllowed ip nets \<longleftrightarrow> nets = [] \<or> list_ex (\<lambda>n. netContains n (unmap4 ip)) nets"
    by (simp add: ipAllowed_def unmap4_def)
  with parseAllowEntries_meaning [OF p, of ip] parseAllowEntries_Nil [OF p] show ?thesis
    by (simp add: netContains_unmap4)
qed

text \<open>C24: The allowlist means what it says. When the list string parses, a client address is
  admitted exactly when the list is empty or some entry, read as an address with a prefix length,
  agrees with the client on all leading bits of that length; an IPv4 client and its IPv4-mapped
  IPv6 form are the same host, and IPv4 and IPv6 networks never mix.\<close>

theorem ipAllowed_iff:
  assumes "ParseAllowList s = Inr nets"
  shows "ipAllowed ip nets \<longleftrightarrow>
    SplitCSV s = [] \<or>
    (\<exists>e\<in>set (SplitCSV s). \<exists>a n. entry_prefix e = Some (a, n) \<and> covers (net_meaning a n) ip)"
  using assms by (rule ipAllowed_meaning)

theorem ipAllowed_iff_witness:
  "\<exists>nets. ParseAllowList ''10.0.0.0/8, ::1'' = Inr nets \<and>
     ipAllowed (parseIP ''10.9.8.7'') nets \<and> \<not> ipAllowed (parseIP ''11.0.0.1'') nets"
proof -
  have "\<not> Sum_Type.isl (ParseAllowList ''10.0.0.0/8, ::1'')" by code_simp
  then obtain nets where n: "ParseAllowList ''10.0.0.0/8, ::1'' = Inr nets"
    by (cases "ParseAllowList ''10.0.0.0/8, ::1''") auto
  have csv: "SplitCSV ''10.0.0.0/8, ::1'' = [''10.0.0.0/8'', ''::1'']" by code_simp
  have e: "entry_prefix ''10.0.0.0/8'' = Some (V4 [10, 0, 0, 0], 8)"
    "entry_prefix ''::1'' = Some (V6 [0, 0, 0, 0, 0, 0, 0, 0, 0, 0, 0, 0, 0, 0, 0, 1] [], 128)"
    by code_simp+
  have c: "covers (net_meaning (V4 [10, 0, 0, 0]) 8) (parseIP ''10.9.8.7'')"
    "\<not> covers (net_meaning (V4 [10, 0, 0, 0]) 8) (parseIP ''11.0.0.1'')"
    "\<not> covers (net_meaning (V6 [0, 0, 0, 0, 0, 0, 0, 0, 0, 0, 0, 0, 0, 0, 0, 1] []) 128) (parseIP ''11.0.0.1'')"
    by code_simp+
  have "ipAllowed (parseIP ''10.9.8.7'') nets"
    unfolding ipAllowed_iff [OF n] using csv e c by auto
  moreover have "\<not> ipAllowed (parseIP ''11.0.0.1'') nets"
    unfolding ipAllowed_iff [OF n] using csv e c by auto
  ultimately show ?thesis using n by blast
qed

end
