(* ===== verification/No_Proxy.thy ===== *)
theory No_Proxy
  imports Access_Config
begin

text \<open>
  The no-proxy matcher of src/internal/proxy/noproxy.go: classification of the patterns when the
  matcher is built, matching of one host, and the precedence of the pattern sources. \<open>ul\<close> is Go's
  lower-casing of a string with non-ASCII bytes.
\<close>

datatype noProxyRuleKind = ruleHostname | ruleWildcard | ruleIP | ruleCIDR | ruleAll

record noProxyRule =
  np_raw :: string
  np_kind :: noProxyRuleKind
  np_host :: string
  np_suffix :: string
  np_ip :: netip
  np_prefix :: ip_prefix

type_synonym NoProxyMatcher = "noProxyRule list"

text \<open>\<^verbatim>\<open>strings.TrimPrefix(pat, "*")\<close>.\<close>

definition trimStar :: "string \<Rightarrow> string" where
  "trimStar pat = (if prefix ''*'' pat then drop 1 pat else pat)"

definition zeroRule :: "string \<Rightarrow> noProxyRule" where
  "zeroRule pat = \<lparr>np_raw = pat, np_kind = ruleHostname, np_host = [], np_suffix = [],
     np_ip = NoAddr, np_prefix = (NoAddr, 0)\<rparr>"

definition classify :: "(string \<Rightarrow> string) \<Rightarrow> string \<Rightarrow> noProxyRule" where
  "classify ul pat =
     (let rule = zeroRule pat
      in if pat = ''*'' then rule\<lparr>np_kind := ruleAll\<rparr>
         else
           (case parsePrefix pat of
              Some pfx \<Rightarrow> rule\<lparr>np_kind := ruleCIDR, np_prefix := pfx\<rparr>
            | None \<Rightarrow>
                (case parseAddr pat of
                   Some ip \<Rightarrow> rule\<lparr>np_kind := ruleIP, np_ip := ip\<rparr>
                 | None \<Rightarrow>
                     let sfx = trimStar pat
                     in if prefix ''.'' sfx
                        then rule\<lparr>np_kind := ruleWildcard, np_suffix := to_lower ul sfx\<rparr>
                        else rule\<lparr>np_kind := ruleHostname, np_host := to_lower ul pat\<rparr>)))"

definition NewNoProxyMatcher :: "(string \<Rightarrow> string) \<Rightarrow> string \<Rightarrow> NoProxyMatcher" where
  "NewNoProxyMatcher ul patterns = map (classify ul) (SplitCSV patterns)"

definition ruleMatches :: "noProxyRule \<Rightarrow> string \<Rightarrow> netip \<Rightarrow> bool" where
  "ruleMatches r host hostIP =
     (case np_kind r of
        ruleAll \<Rightarrow> True
      | ruleHostname \<Rightarrow> host = np_host r
      | ruleWildcard \<Rightarrow> host = drop 1 (np_suffix r) \<or> suffix (np_suffix r) host
      | ruleIP \<Rightarrow> hostIP = np_ip r
      | ruleCIDR \<Rightarrow> prefixContains (np_prefix r) hostIP)"

text \<open>The host without its port and brackets, lower-cased.\<close>

definition bareHost :: "(string \<Rightarrow> string) \<Rightarrow> string \<Rightarrow> string" where
  "bareHost ul host =
     to_lower ul (case splitHostPort host of Inr (h, _) \<Rightarrow> h | Inl _ \<Rightarrow> stripIPv6Brackets host)"

definition matchRules :: "NoProxyMatcher \<Rightarrow> string \<Rightarrow> netip \<Rightarrow> bool \<times> string" where
  "matchRules rules host hostIP =
     (case find (\<lambda>r. ruleMatches r host hostIP) rules of
        Some r \<Rightarrow> (True, np_raw r)
      | None \<Rightarrow> (False, []))"

definition Match :: "(string \<Rightarrow> string) \<Rightarrow> NoProxyMatcher \<Rightarrow> string \<Rightarrow> bool \<times> string" where
  "Match ul m host =
     (let h = bareHost ul host;
          hostIP = (case parseAddr h of Some ip \<Rightarrow> ip | None \<Rightarrow> NoAddr)
      in matchRules m h hostIP)"

text \<open>\<^verbatim>\<open>cmp.Or\<close> over the flag and the two environment variables.\<close>

definition ResolveNoProxy :: "(string \<Rightarrow> string) \<Rightarrow> string \<Rightarrow> string" where
  "ResolveNoProxy getenv flagValue =
     (if flagValue \<noteq> [] then flagValue
      else if getenv ''NO_PROXY'' \<noteq> [] then getenv ''NO_PROXY''
      else getenv ''no_proxy'')"

section \<open>Rules against patterns\<close>

text \<open>What a pattern covers, stated on the pattern itself.\<close>

definition patternCovers :: "(string \<Rightarrow> string) \<Rightarrow> string \<Rightarrow> string \<Rightarrow> bool" where
  "patternCovers ul pat h =
     (pat = ''*'' \<or>
      (case parsePrefix pat of
         Some pfx \<Rightarrow> (\<exists>ip. parseAddr h = Some ip \<and> prefixContains pfx ip)
       | None \<Rightarrow>
           (case parseAddr pat of
              Some ip \<Rightarrow> parseAddr h = Some ip
            | None \<Rightarrow>
                if prefix ''.'' (trimStar pat)
                then (let sfx = to_lower ul (trimStar pat) in h = drop 1 sfx \<or> suffix sfx h)
                else h = to_lower ul pat)))"

lemma parsePrefix_addr: "parsePrefix s = Some (a, n) \<Longrightarrow> wf_addr a"
  using parseAddr_wf by (auto simp: parsePrefix_def Let_def split: option.splits if_splits)

lemma prefixContains_NoAddr [simp]: "\<not> prefixContains p NoAddr"
  by (auto simp: prefixContains_def split: prod.splits netip.splits)

lemma classify_covers:
  "ruleMatches (classify ul pat) h (case parseAddr h of Some ip \<Rightarrow> ip | None \<Rightarrow> NoAddr) \<longleftrightarrow>
     patternCovers ul pat h"
proof -
  have "ip \<noteq> NoAddr" if "parseAddr s = Some ip" for s ip
    using parseAddr_wf [OF that] by (auto simp: wf_addr_def)
  then show ?thesis
    by (auto simp: classify_def patternCovers_def ruleMatches_def zeroRule_def Let_def
        split: option.splits)
qed

lemma classify_raw: "np_raw (classify ul pat) = pat"
  by (simp add: classify_def zeroRule_def Let_def split: option.split)

lemma Match_find:
  "Match ul (NewNoProxyMatcher ul patterns) host =
     (case find (\<lambda>pat. patternCovers ul pat (bareHost ul host)) (SplitCSV patterns) of
        Some pat \<Rightarrow> (True, pat)
      | None \<Rightarrow> (False, []))"
  by (simp add: Match_def matchRules_def NewNoProxyMatcher_def Let_def find_map classify_covers
      classify_raw split: option.split)

text \<open>C32: The compiled rules decide exactly what the pattern list says. Matching a host against the
  matcher built from a list finds the first pattern of the list that covers the host, and reports
  that pattern as it was written: the star covers everything, a CIDR or address pattern only a
  host that parses as an address, a domain pattern its base domain and names ending in the dotted
  suffix, any other pattern only itself.\<close>

theorem Match_first_covering:
  "Match ul (NewNoProxyMatcher ul patterns) host = (True, pat) \<longleftrightarrow>
     (\<exists>before after. SplitCSV patterns = before @ pat # after \<and>
        patternCovers ul pat (bareHost ul host) \<and>
        list_all (\<lambda>p. \<not> patternCovers ul p (bareHost ul host)) before)"
proof -
  let ?f = "find (\<lambda>p. patternCovers ul p (bareHost ul host)) (SplitCSV patterns)"
  have "Match ul (NewNoProxyMatcher ul patterns) host = (True, pat) \<longleftrightarrow> ?f = Some pat"
    by (simp add: Match_find split: option.split)
  then show ?thesis by (simp only: find_Some_split)
qed

section \<open>Ports, brackets and letter case\<close>

lemma bareHost_join:
  assumes "bracket_free h" "bracket_free p" "CHR '':'' \<notin> set p"
  shows "bareHost ul (joinHostPort h p) = to_lower ul h"
  using assms by (simp add: bareHost_def splitHostPort_join)

lemma bareHost_bare:
  assumes "bracket_free h" shows "bareHost ul (CHR ''['' # h @ [CHR '']'']) = to_lower ul h"
  using assms by (simp add: bareHost_def splitHostPort_bare stripIPv6Brackets_def suffix_def)

lemma bareHost_plain:
  assumes "bracket_free h" "splitHostPort h = Inl e"
  shows "bareHost ul h = to_lower ul h"
proof -
  have "\<not> prefix [CHR ''[''] h" using assms(1) by (cases h) (auto simp: bracket_free_def)
  with assms show ?thesis by (simp add: bareHost_def stripIPv6Brackets_def)
qed

text \<open>The routing decision does not depend on how the host is written. For a host without a port,
  adding any port, adding brackets, or changing ASCII letter case gives the same match.\<close>

lemma Match_port_case_independent:
  assumes "bracket_free h" "splitHostPort h = Inl e" "bracket_free p" "CHR '':'' \<notin> set p"
    and "list_all is_ascii h"
  shows "Match ul m (joinHostPort h p) = Match ul m h \<and>
    Match ul m (CHR ''['' # h @ [CHR '']'']) = Match ul m h \<and>
    Match ul m (map lower_char h) = Match ul m h"
proof -
  have "bracket_free (map lower_char h)"
    using assms(1) by (simp add: bracket_free_def punct_map_lower)
  moreover have "splitHostPort (map lower_char h) = Inl e"
    using assms(2) by (simp add: splitHostPort_map_lower)
  ultimately have "bareHost ul (map lower_char h) = bareHost ul h"
    using assms by (simp add: bareHost_plain to_lower_def list_all_iff)
  then show ?thesis
    using assms by (simp add: Match_def bareHost_join bareHost_bare bareHost_plain)
qed

theorem Match_port_case_independent_witness:
  "Match id (NewNoProxyMatcher id ''*.corp.com'') ''WWW.corp.com:8443'' = (True, ''*.corp.com'') \<and>
   Match id (NewNoProxyMatcher id ''*.corp.com'') ''www.corp.com'' = (True, ''*.corp.com'')"
proof -
  let ?m = "NewNoProxyMatcher id ''*.corp.com''"
  have "Match id ?m ''www.corp.com'' = (True, ''*.corp.com'')" by code_simp
  moreover have h: "bracket_free ''WWW.corp.com''" "splitHostPort ''WWW.corp.com'' = Inl MissingPort"
    "bracket_free ''8443''" "CHR '':'' \<notin> set ''8443''" "list_all is_ascii ''WWW.corp.com''"
    by code_simp+
  moreover have "joinHostPort ''WWW.corp.com'' ''8443'' = ''WWW.corp.com:8443''"
    "map lower_char ''WWW.corp.com'' = ''www.corp.com''"
    by code_simp+
  ultimately show ?thesis
    using Match_port_case_independent [OF h, of id ?m] by simp
qed

end
