(* ===== verification/Response_Check.thy ===== *)
theory Response_Check
  imports Header_Rules "HOL-Library.Char_ord" "HOL-Library.List_Lexorder"
begin

text \<open>
  Reading, validating and relaying upstream responses: src/internal/proxy/response.go. The network
  enters through parameters: what \<^verbatim>\<open>http.ReadResponse\<close> returns is a list of results, one per call
  (the end of the list is an upstream that closed), and \<open>wr k\<close> is the outcome of the \<open>k\<close>-th write
  to the client. \<^verbatim>\<open>exchangeRequest\<close> runs its upload in a goroutine; the upload's outcome and
  whether it is known before the response are a parameter too, so every interleaving is covered.
\<close>

section \<open>Header bytes\<close>

definition isValidFieldName :: "string \<Rightarrow> bool" where
  "isValidFieldName name =
     (if name = [] then False
      else list_all (\<lambda>c. is_lower c \<or> is_upper c \<or> is_digit c \<or>
        c \<in> {CHR ''!'', CHR ''#'', CHR ''$'', CHR ''%'', CHR ''&'', CHR 0x27, CHR ''*'', CHR ''+'',
             CHR ''-'', CHR ''.'', CHR ''^'', CHR ''_'', CHR 0x60, CHR ''|'', CHR ''~''}) name)"

definition forbiddenByte :: "char \<Rightarrow> bool" where
  "forbiddenByte c = (if byte c = 9 then False else byte c < 0x20 \<or> byte c = 0x7F)"

definition hasForbiddenFieldValueByte :: "string \<Rightarrow> bool" where
  "hasForbiddenFieldValueByte v = list_ex forbiddenByte v"

definition validateResponseHeaderBytes :: "response \<Rightarrow> proxyError option" where
  "validateResponseHeaderBytes resp =
     (if list_ex (\<lambda>(name, values). \<not> isValidFieldName name \<or> list_ex hasForbiddenFieldValueByte values)
           (resp_Header resp)
      then Some errMalformedResponseHeader else None)"

section \<open>Content-Length\<close>

fun contentLengthLoop :: "string list \<Rightarrow> nat option \<Rightarrow> proxyError option" where
  "contentLengthLoop [] seen = None"
| "contentLengthLoop (p # ps) seen =
     (let part = trim_space p
      in if part = [] then contentLengthLoop ps seen
         else (case parse_uint64 part of
                 None \<Rightarrow> Some errInvalidContentLength
               | Some n \<Rightarrow>
                   (case seen of
                      None \<Rightarrow> contentLengthLoop ps (Some n)
                    | Some f \<Rightarrow>
                        if n \<noteq> f then Some errInvalidContentLength else contentLengthLoop ps seen)))"

definition contentLengthParts :: "header \<Rightarrow> string list" where
  "contentLengthParts h = concat (map (split_sep CHR '','') (hraw h headerContentLength))"

definition validateResponseContentLength :: "response \<Rightarrow> proxyError option" where
  "validateResponseContentLength resp = contentLengthLoop (contentLengthParts (resp_Header resp)) None"

section \<open>One upstream response\<close>

definition readUpstreamResponse :: "go_error + response \<Rightarrow> string \<Rightarrow> go_error + response" where
  "readUpstreamResponse rr pseudonym =
     (case rr of
        Inl err \<Rightarrow>
          if sublist ''Content-Length'' (error_text err) then Inl (Sentinel ErrContentLengthInvalid)
          else Inl err
      | Inr resp \<Rightarrow>
          if validateResponseContentLength resp \<noteq> None then Inl (Sentinel ErrContentLengthInvalid)
          else if validateResponseHeaderBytes resp \<noteq> None then Inl (Sentinel ErrMalformedResponse)
          else
            let conflict = resp_TransferEncoding resp \<noteq> [] \<and> hget (resp_Header resp) headerContentLength \<noteq> [];
                resp1 = (if conflict
                         then resp\<lparr>resp_Header := hdel (resp_Header resp) headerContentLength,
                                   resp_ContentLength := - 1\<rparr>
                         else resp);
                h2 = hdel (resp_Header resp1) headerProxyAuthenticate
            in Inr (resp1\<lparr>resp_Header := injectVia h2 (resp_Proto resp1) pseudonym\<rparr>))"

section \<open>Interim responses\<close>

definition isInterimResponse :: "response \<Rightarrow> bool" where
  "isInterimResponse resp \<longleftrightarrow>
     resp_StatusCode resp \<ge> 100 \<and> resp_StatusCode resp < 200 \<and> resp_StatusCode resp \<noteq> 101"

definition clientCannotParseInterim :: "request \<Rightarrow> bool" where
  "clientCannotParseInterim req \<longleftrightarrow> \<not> protoAtLeast req 1 1"

text \<open>\<^verbatim>\<open>textproto.TrimString\<close> and the newline replacement of \<^verbatim>\<open>Header.WriteSubset\<close>.\<close>

definition ascii_space :: "char \<Rightarrow> bool" where
  "ascii_space c \<longleftrightarrow> byte c \<in> {0x20, 0x09, 0x0A, 0x0D}"

definition trimString :: "string \<Rightarrow> string" where
  "trimString s = rev (dropWhile ascii_space (rev (dropWhile ascii_space s)))"

definition headerNewlineToSpace :: "string \<Rightarrow> string" where
  "headerNewlineToSpace s = map (\<lambda>c. if byte c = 0x0A \<or> byte c = 0x0D then CHR '' '' else c) s"

definition fieldLines :: "string \<times> string list \<Rightarrow> string list" where
  "fieldLines kv =
     (if isValidFieldName (fst kv)
      then map (\<lambda>v. fst kv @ '': '' @ trimString (headerNewlineToSpace v)) (snd kv) else [])"

text \<open>The lines of \<^verbatim>\<open>Header.WriteSubset\<close>, without their line ends: keys in byte order.\<close>

definition headerLines :: "header \<Rightarrow> string list \<Rightarrow> string list" where
  "headerLines h excl =
     concat (map fieldLines (sort_key fst (filter (\<lambda>kv. fst kv \<notin> set excl) h)))"

definition relayInterimBytes :: "response \<Rightarrow> string" where
  "relayInterimBytes resp =
     resp_Proto resp @ '' '' @ resp_Status resp @ crlf @
     concat (map (\<lambda>l. l @ crlf)
       (headerLines (resp_Header resp) [headerContentLength, ''Transfer-Encoding'', headerTrailer])) @
     crlf"

text \<open>\<open>None\<close> when the client speaks HTTP/1.0 and the response is dropped.\<close>

definition relayInterimResponse :: "request \<Rightarrow> response \<Rightarrow> string option" where
  "relayInterimResponse req resp =
     (if clientCannotParseInterim req then None else Some (relayInterimBytes resp))"

datatype read_outcome = Final response | ClientWriteErr go_error | ReadErr go_error

record read_result =
  rr_outcome :: read_outcome
  rr_written :: "string list"
  rr_rest :: "(go_error + response) list"

definition unexpectedEOF :: go_error where
  "unexpectedEOF = Plain ''unexpected EOF''"

fun readThroughInterim ::
    "request \<Rightarrow> (nat \<Rightarrow> go_error option) \<Rightarrow> (go_error + response) list \<Rightarrow> string list \<Rightarrow> read_result" where
  "readThroughInterim req wr [] written =
     \<lparr>rr_outcome = ReadErr unexpectedEOF, rr_written = written, rr_rest = []\<rparr>"
| "readThroughInterim req wr (Inl e # rs) written =
     \<lparr>rr_outcome = ReadErr e, rr_written = written, rr_rest = rs\<rparr>"
| "readThroughInterim req wr (Inr resp # rs) written =
     (if \<not> isInterimResponse resp then
        \<lparr>rr_outcome = Final resp, rr_written = written, rr_rest = rs\<rparr>
      else if validateResponseHeaderBytes resp \<noteq> None then
        \<lparr>rr_outcome = ReadErr (Sentinel ErrMalformedResponse), rr_written = written, rr_rest = rs\<rparr>
      else
        (case relayInterimResponse req resp of
           None \<Rightarrow> readThroughInterim req wr rs written
         | Some bs \<Rightarrow>
             (case wr (length written) of
                Some werr \<Rightarrow> \<lparr>rr_outcome = ClientWriteErr werr, rr_written = written, rr_rest = rs\<rparr>
              | None \<Rightarrow> readThroughInterim req wr rs (written @ [bs]))))"

section \<open>exchangeRequest\<close>

text \<open>\<^verbatim>\<open>strings.EqualFold\<close> against an ASCII string none of whose letters has a non-ASCII fold.\<close>

definition equalFold :: "string \<Rightarrow> string \<Rightarrow> bool" where
  "equalFold a b \<longleftrightarrow> map lower_char a = map lower_char b"

definition expectContinue :: "request \<Rightarrow> bool" where
  "expectContinue req =
     list_ex (\<lambda>val. list_ex (\<lambda>tok. equalFold (trim_space tok) ''100-continue'') (split_sep CHR '','' val))
       (hvalues (req_Header req) ''Expect'')"

text \<open>The outcome of \<^verbatim>\<open>writeRequest\<close>: its error, and whether it was still running when the response
  (or the failure to read one) was in hand and had to be cancelled.\<close>

datatype upload = Upload (upload_late: bool) (upload_err: "go_error option")

text \<open>Deadlines left in the past on the two connections when the exchange returns.\<close>

record deadlines =
  dl_clientRead :: bool
  dl_upstreamWrite :: bool
  dl_upstreamRead :: bool

definition no_deadlines :: deadlines where
  "no_deadlines = \<lparr>dl_clientRead = False, dl_upstreamWrite = False, dl_upstreamRead = False\<rparr>"

record exchange =
  ex_resp :: "response option"
  ex_requestErr :: "go_error option"
  ex_clientErr :: "go_error option"
  ex_err :: "go_error option"
  ex_written :: "string list"
  ex_rest :: "(go_error + response) list"
  ex_deadlines :: deadlines

fun of_outcome :: "read_outcome \<Rightarrow> response option \<times> go_error option \<times> go_error option" where
  "of_outcome (Final r) = (Some r, None, None)"
| "of_outcome (ClientWriteErr e) = (None, Some e, None)"
| "of_outcome (ReadErr e) = (None, None, Some e)"

definition hasBody :: "request \<Rightarrow> bool" where
  "hasBody req = (case req_Body req of NilBody \<Rightarrow> False | NoBody \<Rightarrow> False | Body _ \<Rightarrow> True)"

definition exchangeSync ::
    "request \<Rightarrow> (nat \<Rightarrow> go_error option) \<Rightarrow> upload \<Rightarrow> (go_error + response) list \<Rightarrow> exchange" where
  "exchangeSync req wr up stream =
     (case upload_err up of
        Some e \<Rightarrow>
          \<lparr>ex_resp = None, ex_requestErr = Some e, ex_clientErr = None, ex_err = None,
           ex_written = [], ex_rest = stream, ex_deadlines = no_deadlines\<rparr>
      | None \<Rightarrow>
          let r = readThroughInterim req wr stream [];
              (resp, ce, re) = of_outcome (rr_outcome r)
          in \<lparr>ex_resp = resp, ex_requestErr = None, ex_clientErr = ce, ex_err = re,
              ex_written = rr_written r, ex_rest = rr_rest r, ex_deadlines = no_deadlines\<rparr>)"

definition exchangeAsync ::
    "request \<Rightarrow> (nat \<Rightarrow> go_error option) \<Rightarrow> upload \<Rightarrow> (go_error + response) list \<Rightarrow> exchange" where
  "exchangeAsync req wr up stream =
     (let r = readThroughInterim req wr stream [];
          (resp, ce, re) = of_outcome (rr_outcome r);
          werr = upload_err up;
          (resp1, werr1, dl1) =
            (if \<not> upload_late up then (resp, werr, no_deadlines\<lparr>dl_upstreamRead := werr \<noteq> None\<rparr>)
             else if werr = None then (map_option (resp_Close_update (\<lambda>_. True)) resp, None, no_deadlines)
             else (resp, (if resp = None then None else werr),
                   \<lparr>dl_clientRead = True, dl_upstreamWrite = True, dl_upstreamRead = True\<rparr>));
          dl2 = dl1\<lparr>dl_upstreamRead := False\<rparr>;
          (resp2, werr2) =
            (if resp1 \<noteq> None \<and> werr1 \<noteq> None
             then (map_option (resp_Close_update (\<lambda>_. True)) resp1, None) else (resp1, werr1))
      in \<lparr>ex_resp = resp2, ex_requestErr = werr2, ex_clientErr = ce, ex_err = re,
          ex_written = rr_written r, ex_rest = rr_rest r, ex_deadlines = dl2\<rparr>)"

definition exchangeRequest ::
    "request \<Rightarrow> (nat \<Rightarrow> go_error option) \<Rightarrow> upload \<Rightarrow> (go_error + response) list \<Rightarrow> exchange" where
  "exchangeRequest req wr up stream =
     (if \<not> hasBody req \<or> \<not> expectContinue req then exchangeSync req wr up stream
      else exchangeAsync req wr up stream)"

section \<open>Clean header lines\<close>

lemma forbiddenByte_space [simp]: "\<not> forbiddenByte CHR '' ''" "\<not> forbiddenByte CHR '':''"
  by (simp_all add: forbiddenByte_def)

lemma isValidFieldName_clean: "isValidFieldName k \<Longrightarrow> \<not> hasForbiddenFieldValueByte k"
  by (auto simp: isValidFieldName_def hasForbiddenFieldValueByte_def list_ex_iff list_all_iff
      forbiddenByte_def is_lower_def is_upper_def is_digit_def split: if_splits)

lemma set_trimString: "set (trimString s) \<subseteq> set s"
  by (auto simp: trimString_def dest!: set_dropWhileD)

lemma clean_value:
  assumes "\<not> hasForbiddenFieldValueByte v"
  shows "\<not> hasForbiddenFieldValueByte (trimString (headerNewlineToSpace v))"
  using assms set_trimString [of "headerNewlineToSpace v"]
  by (auto simp: hasForbiddenFieldValueByte_def list_ex_iff headerNewlineToSpace_def split: if_splits)

lemma fieldLines_clean:
  assumes "list_all (\<lambda>v. \<not> hasForbiddenFieldValueByte v) (snd kv)" "l \<in> set (fieldLines kv)"
  shows "\<not> hasForbiddenFieldValueByte l"
proof -
  from assms(2) obtain v where v: "v \<in> set (snd kv)" "isValidFieldName (fst kv)"
    "l = fst kv @ '': '' @ trimString (headerNewlineToSpace v)"
    by (auto simp: fieldLines_def split: if_splits)
  from v(1) assms(1) have "\<not> hasForbiddenFieldValueByte (trimString (headerNewlineToSpace v))"
    by (intro clean_value) (auto simp: list_all_iff)
  with v(2,3) isValidFieldName_clean [OF v(2)] show ?thesis
    by (simp add: hasForbiddenFieldValueByte_def)
qed

lemma headerLines_clean:
  assumes "validateResponseHeaderBytes resp = None"
  shows "list_all (\<lambda>l. \<not> hasForbiddenFieldValueByte l) (headerLines (resp_Header resp) excl)"
proof -
  have "\<not> hasForbiddenFieldValueByte l"
    if "kv \<in> set (resp_Header resp)" "l \<in> set (fieldLines kv)" for kv l
  proof (rule fieldLines_clean [OF _ that(2)])
    show "list_all (\<lambda>v. \<not> hasForbiddenFieldValueByte v) (snd kv)"
      using assms that(1)
      by (cases kv) (auto simp: validateResponseHeaderBytes_def list_ex_iff list_all_iff split: if_splits)
  qed
  then show ?thesis by (auto simp: headerLines_def list_all_iff)
qed

section \<open>Interim responses are relayed and skipped\<close>

definition interimBytes :: "request \<Rightarrow> response list \<Rightarrow> string list" where
  "interimBytes req ints = (if clientCannotParseInterim req then [] else map relayInterimBytes ints)"

definition relayable :: "response \<Rightarrow> bool" where
  "relayable r \<longleftrightarrow> isInterimResponse r \<and> validateResponseHeaderBytes r = None"

text \<open>Whatever the outcome, the loop has consumed a run of valid interim responses, relayed them in
  order, and stopped at the next item of the stream.\<close>

lemma readThroughInterim_run:
  "\<exists>ints. list_all relayable ints \<and>
     rr_written (readThroughInterim req wr stream written) = written @ interimBytes req ints \<and>
     (case rr_outcome (readThroughInterim req wr stream written) of
        Final r \<Rightarrow> \<not> isInterimResponse r \<and>
          stream = map Inr ints @ Inr r # rr_rest (readThroughInterim req wr stream written)
      | _ \<Rightarrow> (\<exists>tl. stream = map Inr ints @ tl))"
proof (induction req wr stream written rule: readThroughInterim.induct)
  case (1 req wr written)
  show ?case by (intro exI [of _ "[]"]) (simp add: interimBytes_def)
next
  case (2 req wr e rs written)
  show ?case by (intro exI [of _ "[]"]) (simp add: interimBytes_def)
next
  case (3 req wr resp rs written)
  show ?case
  proof (cases "relayable resp")
    case False
    then show ?thesis
      by (intro exI [of _ "[]"]) (auto simp: interimBytes_def relayable_def)
  next
    case rel: True
    then have int: "\<not> \<not> isInterimResponse resp" "\<not> validateResponseHeaderBytes resp \<noteq> None"
      by (simp_all add: relayable_def)
    note IH = "3.IH" [OF int]
    show ?thesis
    proof (cases "relayInterimResponse req resp")
      case None
      from IH(1) [OF None] obtain ints where "list_all relayable ints"
        "rr_written (readThroughInterim req wr rs written) = written @ interimBytes req ints"
        "case rr_outcome (readThroughInterim req wr rs written) of
           Final r \<Rightarrow> \<not> isInterimResponse r \<and>
             rs = map Inr ints @ Inr r # rr_rest (readThroughInterim req wr rs written)
         | _ \<Rightarrow> (\<exists>tl. rs = map Inr ints @ tl)"
        by blast
      with rel int None show ?thesis
        by (intro exI [of _ "resp # ints"])
           (auto simp: interimBytes_def relayInterimResponse_def
             split: read_outcome.splits if_splits)
    next
      case (Some bs)
      then have bs: "bs = relayInterimBytes resp" "\<not> clientCannotParseInterim req"
        by (auto simp: relayInterimResponse_def split: if_splits)
      show ?thesis
      proof (cases "wr (length written)")
        case werr: (Some e)
        with rel Some show ?thesis
          by (intro exI [of _ "[]"]) (auto simp: relayable_def interimBytes_def)
      next
        case ok: None
        from IH(2) [OF Some ok] obtain ints where "list_all relayable ints"
          "rr_written (readThroughInterim req wr rs (written @ [bs])) = (written @ [bs]) @ interimBytes req ints"
          "case rr_outcome (readThroughInterim req wr rs (written @ [bs])) of
             Final r \<Rightarrow> \<not> isInterimResponse r \<and>
               rs = map Inr ints @ Inr r # rr_rest (readThroughInterim req wr rs (written @ [bs]))
           | _ \<Rightarrow> (\<exists>tl. rs = map Inr ints @ tl)"
          by blast
        with rel int Some ok bs show ?thesis
          by (intro exI [of _ "resp # ints"])
             (auto simp: interimBytes_def split: read_outcome.splits)
      qed
    qed
  qed
qed


text \<open>C20: Reading through interim responses keeps the upstream stream aligned: when a final response
  is returned, exactly the interim responses before it were consumed, each of them had valid header
  bytes, each was relayed once and in order (none to an HTTP/1.0 client), and the returned response
  is the first one that is not interim.\<close>

theorem readThroughInterim_aligned:
  assumes "rr_outcome (readThroughInterim req wr stream []) = Final r"
  shows "\<exists>ints. stream = map Inr ints @ Inr r # rr_rest (readThroughInterim req wr stream []) \<and>
    \<not> isInterimResponse r \<and>
    list_all (\<lambda>i. isInterimResponse i \<and> validateResponseHeaderBytes i = None) ints \<and>
    rr_written (readThroughInterim req wr stream []) =
      (if protoAtLeast req 1 1 then map relayInterimBytes ints else [])"
proof -
  from readThroughInterim_run [of req wr stream "[]"] obtain ints where ints:
    "list_all relayable ints"
    "rr_written (readThroughInterim req wr stream []) = interimBytes req ints"
    "stream = map Inr ints @ Inr r # rr_rest (readThroughInterim req wr stream [])"
    "\<not> isInterimResponse r"
    using assms by auto
  have "list_all (\<lambda>i. isInterimResponse i \<and> validateResponseHeaderBytes i = None) ints"
    using ints(1) by (simp add: relayable_def list_all_iff)
  with ints(2-4) show ?thesis
    by (intro exI [of _ ints]) (simp add: interimBytes_def clientCannotParseInterim_def)
qed

definition sample_response :: "int \<Rightarrow> response" where
  "sample_response code = \<lparr>resp_StatusCode = code, resp_Status = itoa code, resp_Proto = ''HTTP/1.1'',
     resp_ProtoMajor = 1, resp_ProtoMinor = 1, resp_Header = [(''Link'', [''</a>''])],
     resp_TransferEncoding = [], resp_ContentLength = 0, resp_Close = False, resp_Body = []\<rparr>"

theorem readThroughInterim_aligned_witness:
  "\<exists>ints. [Inr (sample_response 103), Inr (sample_response 200)] =
     map Inr ints @ Inr (sample_response 200) #
       rr_rest (readThroughInterim sample_request (\<lambda>k. None)
         [Inr (sample_response 103), Inr (sample_response 200)] []) \<and>
    \<not> isInterimResponse (sample_response 200) \<and>
    list_all (\<lambda>i. isInterimResponse i \<and> validateResponseHeaderBytes i = None) ints \<and>
    rr_written (readThroughInterim sample_request (\<lambda>k. None)
      [Inr (sample_response 103), Inr (sample_response 200)] []) =
      (if protoAtLeast sample_request 1 1 then map relayInterimBytes ints else [])"
  by (rule readThroughInterim_aligned) code_simp

text \<open>No response splitting through an interim response's fields. Every message written to the
  client while reading through interim responses, whatever the outcome, is a status line followed by
  header lines none of which holds a forbidden control octet, and an empty line. The status line
  itself is not checked: it is the upstream's own text.\<close>

lemma interim_lines_clean:
  "list_all (\<lambda>bs. \<exists>i lines. Inr i \<in> set stream \<and>
       bs = resp_Proto i @ '' '' @ resp_Status i @ crlf @ concat (map (\<lambda>l. l @ crlf) lines) @ crlf \<and>
       list_all (\<lambda>l. \<not> hasForbiddenFieldValueByte l) lines)
     (rr_written (readThroughInterim req wr stream []))"
proof -
  from readThroughInterim_run [of req wr stream "[]"] obtain ints where ints:
    "list_all relayable ints"
    "rr_written (readThroughInterim req wr stream []) = interimBytes req ints"
    "case rr_outcome (readThroughInterim req wr stream []) of
       Final r \<Rightarrow> \<not> isInterimResponse r \<and>
         stream = map Inr ints @ Inr r # rr_rest (readThroughInterim req wr stream [])
     | _ \<Rightarrow> (\<exists>tl. stream = map Inr ints @ tl)"
    by (elim exE conjE) simp
  then have "\<exists>tl. stream = map Inr ints @ tl"
    by (auto split: read_outcome.splits simp del: append_eq_conv_conj)
  then have sub: "Inr i \<in> set stream" if "i \<in> set ints" for i
    using that by auto
  have "\<exists>j lines. Inr j \<in> set stream \<and>
       relayInterimBytes i = resp_Proto j @ '' '' @ resp_Status j @ crlf @ concat (map (\<lambda>l. l @ crlf) lines) @ crlf \<and>
       list_all (\<lambda>l. \<not> hasForbiddenFieldValueByte l) lines" if "i \<in> set ints" for i
  proof -
    from that ints(1) have "validateResponseHeaderBytes i = None"
      by (auto simp: list_all_iff relayable_def)
    from headerLines_clean [OF this] sub [OF that] show ?thesis
      unfolding relayInterimBytes_def by blast
  qed
  then show ?thesis
    by (auto simp: ints(2) interimBytes_def list_all_iff)
qed

section \<open>Content-Length agreement\<close>

definition agrees :: "nat \<Rightarrow> string \<Rightarrow> bool" where
  "agrees n p \<longleftrightarrow> trim_space p = [] \<or> parse_uint64 (trim_space p) = Some n"

lemma contentLengthLoop_Some: "contentLengthLoop ps (Some n) = None \<longleftrightarrow> list_all (agrees n) ps"
  by (induction ps) (auto simp: agrees_def Let_def split: option.splits)

lemma contentLengthLoop_None: "contentLengthLoop ps None = None \<longleftrightarrow> (\<exists>n. list_all (agrees n) ps)"
proof (induction ps)
  case (Cons p ps)
  then show ?case
    by (cases "parse_uint64 (trim_space p)")
       (auto simp: agrees_def [of _ p] Let_def contentLengthLoop_Some)
qed simp

text \<open>A response is accepted exactly when all its Content-Length elements, over all field lines
  and all comma-separated parts, are blank or decimal 64-bit numbers with one common value.\<close>

lemma validateResponseContentLength_iff:
  "validateResponseContentLength resp = None \<longleftrightarrow>
     (\<exists>n. list_all (\<lambda>p. trim_space p = [] \<or> parse_uint64 (trim_space p) = Some n)
        (concat (map (split_sep CHR '','') (hraw (resp_Header resp) headerContentLength))))"
  by (simp add: validateResponseContentLength_def contentLengthLoop_None contentLengthParts_def
      agrees_def [abs_def])



section \<open>The exchange as a whole\<close>

text \<open>What the exchange guarantees of a response \<open>r\<close> it returns: it is a final response that
  was read off the stream, possibly with its Close flag raised.\<close>

lemma exchangeRequest_final:
  assumes "ex_resp (exchangeRequest req wr up stream) = Some r"
  shows "\<exists>r0. rr_outcome (readThroughInterim req wr stream []) = Final r0 \<and>
    (r = r0 \<or> r = r0\<lparr>resp_Close := True\<rparr>) \<and>
    ex_rest (exchangeRequest req wr up stream) = rr_rest (readThroughInterim req wr stream []) \<and>
    ex_written (exchangeRequest req wr up stream) = rr_written (readThroughInterim req wr stream [])"
  using assms
  by (cases "rr_outcome (readThroughInterim req wr stream [])"; cases "upload_err up")
     (auto simp: exchangeRequest_def exchangeSync_def exchangeAsync_def Let_def split: if_splits)

text \<open>C21: An exchange with the upstream ends in exactly one way: with a response and no error, or
  with an error and no response. If the returned response does not ask for the connection to be
  closed, then the upload had completed, before the response when the client expects a continue, and
  no deadline is left in the past on either connection, so the connection can carry the next
  request.\<close>

theorem exchangeRequest_reusable:
  "(ex_resp (exchangeRequest req wr up stream) = None \<longleftrightarrow>
      ex_requestErr (exchangeRequest req wr up stream) \<noteq> None \<or>
      ex_clientErr (exchangeRequest req wr up stream) \<noteq> None \<or>
      ex_err (exchangeRequest req wr up stream) \<noteq> None) \<and>
   (case ex_resp (exchangeRequest req wr up stream) of
      None \<Rightarrow> True
    | Some r \<Rightarrow> resp_Close r \<or>
        upload_err up = None \<and> ex_deadlines (exchangeRequest req wr up stream) = no_deadlines \<and>
        \<not> (hasBody req \<and> expectContinue req \<and> upload_late up) \<and>
        (\<exists>ints. stream = map Inr ints @ Inr r # ex_rest (exchangeRequest req wr up stream) \<and>
           list_all isInterimResponse ints \<and> \<not> isInterimResponse r))"
proof (rule conjI)
  let ?r = "readThroughInterim req wr stream []"
  show "ex_resp (exchangeRequest req wr up stream) = None \<longleftrightarrow>
      ex_requestErr (exchangeRequest req wr up stream) \<noteq> None \<or>
      ex_clientErr (exchangeRequest req wr up stream) \<noteq> None \<or>
      ex_err (exchangeRequest req wr up stream) \<noteq> None"
    by (cases "rr_outcome ?r"; cases "upload_err up")
       (auto simp: exchangeRequest_def exchangeSync_def exchangeAsync_def Let_def)
  show "case ex_resp (exchangeRequest req wr up stream) of
      None \<Rightarrow> True
    | Some r \<Rightarrow> resp_Close r \<or>
        upload_err up = None \<and> ex_deadlines (exchangeRequest req wr up stream) = no_deadlines \<and>
        \<not> (hasBody req \<and> expectContinue req \<and> upload_late up) \<and>
        (\<exists>ints. stream = map Inr ints @ Inr r # ex_rest (exchangeRequest req wr up stream) \<and>
           list_all isInterimResponse ints \<and> \<not> isInterimResponse r)"
  proof (cases "ex_resp (exchangeRequest req wr up stream)")
    case (Some r)
    from exchangeRequest_final [OF this] obtain r0 where r0:
      "rr_outcome ?r = Final r0" "r = r0 \<or> r = r0\<lparr>resp_Close := True\<rparr>"
      "ex_rest (exchangeRequest req wr up stream) = rr_rest ?r" by blast
    have "upload_err up = None \<and> ex_deadlines (exchangeRequest req wr up stream) = no_deadlines \<and>
        \<not> (hasBody req \<and> expectContinue req \<and> upload_late up)" if "\<not> resp_Close r"
      using Some that r0(1)
      by (cases "upload_err up")
         (auto simp: exchangeRequest_def exchangeSync_def exchangeAsync_def Let_def no_deadlines_def
           split: if_splits)
    moreover have "\<exists>ints. stream = map Inr ints @ Inr r0 # rr_rest ?r \<and>
        list_all isInterimResponse ints \<and> \<not> isInterimResponse r0"
      using readThroughInterim_run [of req wr stream "[]"] r0(1)
      by (auto simp: list_all_iff relayable_def)
    ultimately show ?thesis using Some r0 by auto
  qed simp
qed

theorem exchangeRequest_reusable_witness:
  "\<exists>ints. [Inr (sample_response 103), Inr (sample_response 200), Inr (sample_response 204)] =
       map Inr ints @ Inr (sample_response 200) #
         ex_rest (exchangeRequest sample_request (\<lambda>k. None) (Upload False None)
           [Inr (sample_response 103), Inr (sample_response 200), Inr (sample_response 204)]) \<and>
     list_all isInterimResponse ints"
proof -
  have r: "ex_resp (exchangeRequest sample_request (\<lambda>k. None) (Upload False None)
      [Inr (sample_response 103), Inr (sample_response 200), Inr (sample_response 204)]) = Some (sample_response 200)"
    by code_simp
  have "\<not> resp_Close (sample_response 200)" by (simp add: sample_response_def)
  with exchangeRequest_reusable [of sample_request "\<lambda>k. None" "Upload False None"
      "[Inr (sample_response 103), Inr (sample_response 200), Inr (sample_response 204)]"]
  show ?thesis unfolding r option.case by blast
qed

end
