(* ===== verification/Upstream_Dial.thy ===== *)
theory Upstream_Dial
  imports Proxy_Errors
begin

text \<open>
  Dialling the upstream proxy: src/internal/proxy/dial.go. Go's TCP dialer, the TLS handshake, the
  file system and the PEM parser are parameters. A certificate pool is represented by the PEM text it
  was built from; instants and durations are integers (nanoseconds).
\<close>

record tlsConfig =
  tc_MinVersion :: int
  tc_RootCAs :: "bytes option"
  tc_InsecureSkipVerify :: bool
  tc_ServerName :: string

record netDialer =
  nd_Timeout :: int
  nd_Deadline :: "int option"

record UpstreamTLSConfig =
  Enabled :: bool
  CAFile :: string
  InsecureSkipVerify :: bool
  TLSConfig :: "tlsConfig option"
  Dialer :: "netDialer option"

text \<open>\<^verbatim>\<open>tls.VersionTLS12\<close>.\<close>

definition versionTLS12 :: int where "versionTLS12 = 0x0303"

definition BuildTLSConfig ::
    "(string \<Rightarrow> go_error + bytes) \<Rightarrow> (bytes \<Rightarrow> bool) \<Rightarrow> UpstreamTLSConfig \<Rightarrow> go_error + UpstreamTLSConfig" where
  "BuildTLSConfig readFile appendCertsFromPEM c =
     (let tc0 = \<lparr>tc_MinVersion = versionTLS12, tc_RootCAs = None, tc_InsecureSkipVerify = False,
                 tc_ServerName = []\<rparr>;
          finish = (\<lambda>tc. Inr (c\<lparr>TLSConfig :=
            Some (if InsecureSkipVerify c then tc\<lparr>tc_InsecureSkipVerify := True\<rparr> else tc)\<rparr>))
      in if CAFile c \<noteq> [] then
           (case readFile (CAFile c) of
              Inl err \<Rightarrow> Inl (Wrap (''failed to read upstream CA file: '' @ error_text err) err)
            | Inr caCert \<Rightarrow>
                if \<not> appendCertsFromPEM caCert
                then Inl (Plain (''failed to parse upstream CA certificate from '' @ CAFile c))
                else finish (tc0\<lparr>tc_RootCAs := Some caCert\<rparr>))
         else finish tc0)"

text \<open>A connection to the upstream: the raw one, or TLS over it with the settings used.\<close>

datatype 'c upstream_conn = PlainConn 'c | TLSConn tlsConfig 'c

text \<open>The outcome also says whether a raw connection that was opened has been closed again.\<close>

record 'c dial_outcome =
  do_result :: "go_error + 'c upstream_conn"
  do_rawClosed :: bool

definition dialContextDeadline :: "int \<Rightarrow> netDialer \<Rightarrow> int option" where
  "dialContextDeadline now d =
     (let c1 = (if nd_Timeout d \<noteq> 0 then Some (now + nd_Timeout d) else None)
      in (case nd_Deadline d of
            None \<Rightarrow> c1
          | Some dl \<Rightarrow> (case c1 of None \<Rightarrow> Some dl | Some t \<Rightarrow> Some (min t dl))))"

definition dialUpstream ::
    "(netDialer \<Rightarrow> int option \<Rightarrow> string \<Rightarrow> go_error + 'c) \<Rightarrow> (tlsConfig \<Rightarrow> int option \<Rightarrow> 'c \<Rightarrow> go_error option) \<Rightarrow>
     int \<Rightarrow> string \<Rightarrow> UpstreamTLSConfig \<Rightarrow> 'c dial_outcome" where
  "dialUpstream dial handshake now addr tlsCfg =
     (let dialer = (case Dialer tlsCfg of None \<Rightarrow> \<lparr>nd_Timeout = 0, nd_Deadline = None\<rparr> | Some d \<Rightarrow> d)
      in if \<not> Enabled tlsCfg then
           \<lparr>do_result = (case dial dialer None addr of Inl e \<Rightarrow> Inl e | Inr c \<Rightarrow> Inr (PlainConn c)),
            do_rawClosed = False\<rparr>
         else
           let tc0 = (case TLSConfig tlsCfg of
                        Some t \<Rightarrow> t
                      | None \<Rightarrow> \<lparr>tc_MinVersion = versionTLS12, tc_RootCAs = None,
                                 tc_InsecureSkipVerify = False, tc_ServerName = []\<rparr>);
               tc = tc0\<lparr>tc_ServerName := extractHost addr\<rparr>;
               ctx = dialContextDeadline now dialer
           in (case dial dialer ctx addr of
                 Inl err \<Rightarrow> \<lparr>do_result = Inl err, do_rawClosed = False\<rparr>
               | Inr raw \<Rightarrow>
                   (case handshake tc ctx raw of
                      Some err \<Rightarrow> \<lparr>do_result = Inl err, do_rawClosed = True\<rparr>
                    | None \<Rightarrow> \<lparr>do_result = Inr (TLSConn tc raw), do_rawClosed = False\<rparr>)))"

text \<open>With upstream TLS enabled and its settings built at startup, every connection that
  \<^verbatim>\<open>dialUpstream\<close> hands out has completed a handshake with exactly these settings: TLS 1.2 or
  later, the host of the dialled address as the name to verify, the configured CA file as the only
  root of trust (the system roots when none is configured), and verification off only when the
  operator asked for that. It never falls back to a plain connection.\<close>

lemma dialUpstream_verified:
  assumes built: "BuildTLSConfig readFile pem c = Inr c'"
    and enabled: "Enabled c"
    and ok: "do_result (dialUpstream dial handshake now addr c') = Inr conn"
  shows "\<exists>tc ctx raw. conn = TLSConn tc raw \<and> handshake tc ctx raw = None \<and>
    tc_MinVersion tc = versionTLS12 \<and> tc_ServerName tc = extractHost addr \<and>
    tc_InsecureSkipVerify tc = InsecureSkipVerify c \<and>
    (case tc_RootCAs tc of
       None \<Rightarrow> CAFile c = []
     | Some ca \<Rightarrow> CAFile c \<noteq> [] \<and> readFile (CAFile c) = Inr ca \<and> pem ca)"
proof -
  from built enabled obtain tc where tc: "TLSConfig c' = Some tc" "Enabled c'"
    "tc_MinVersion tc = versionTLS12" "tc_InsecureSkipVerify tc = InsecureSkipVerify c"
    "case tc_RootCAs tc of None \<Rightarrow> CAFile c = []
     | Some ca \<Rightarrow> CAFile c \<noteq> [] \<and> readFile (CAFile c) = Inr ca \<and> pem ca"
    by (auto simp: BuildTLSConfig_def Let_def split: if_splits sum.splits)
  let ?tc = "tc\<lparr>tc_ServerName := extractHost addr\<rparr>"
  from ok tc(1,2) obtain ctx raw where "conn = TLSConn ?tc raw" "handshake ?tc ctx raw = None"
    by (fastforce simp: dialUpstream_def Let_def split: sum.splits option.splits)
  with tc(3-5) show ?thesis
    by (intro exI [of _ ?tc] exI [of _ ctx] exI [of _ raw]) simp
qed

text \<open>A raw connection whose handshake fails is closed, and no other failure leaves one open.\<close>

lemma dialUpstream_no_leak:
  assumes "do_result (dialUpstream dial handshake now addr c) = Inl err"
  shows "do_rawClosed (dialUpstream dial handshake now addr c) \<or>
    (\<exists>d ctx. dial d ctx addr = Inl err)"
  using assms
  by (auto simp: dialUpstream_def Let_def split: sum.splits option.splits if_splits)

end
