(* ===== verification/Client_Session.thy ===== *)
theory Client_Session
  imports Access_Config No_Proxy Response_Check Upstream_Dial
begin

text \<open>
  One accepted client connection: src/internal/proxy/session.go, forward.go, the request paths of
  direct.go, and handleConnectTunnel of connect.go. The session's effects on the network are recorded
  as a trace of events; every answer of the network (a request read, a token, a dial, a write) is
  taken from the environment \<open>env\<close>. The environment's functions are indexed by the length of the
  trace so far, so it may answer differently at every moment. Log lines and socket deadlines leave no
  event; what an expired deadline causes is an error value that the environment returns.
\<close>

section \<open>Configuration, environment and state\<close>

record Config =
  cfg_Upstream :: string
  cfg_Pseudonym :: string
  cfg_DialTimeout :: int
  cfg_ReadTimeout :: int
  cfg_KeepAlive :: int
  cfg_IdleTimeout :: int
  cfg_ConnectPorts :: "string list"
  cfg_AllowedIPs :: "ip_net list"
  cfg_NoProxy :: "NoProxyMatcher option"
  cfg_Forwarding :: ForwardingConfig
  cfg_UpstreamTLS :: UpstreamTLSConfig

text \<open>What the far end of a dialled connection will do: the outcome of the \<open>i\<close>-th request upload,
  and the results of \<^verbatim>\<open>http.ReadResponse\<close> in order.\<close>

record peer =
  peer_uploads :: "nat \<Rightarrow> upload"
  peer_stream :: "(go_error + response) list"

text \<open>\<open>env_cancel = Some k\<close>: the context is done from moment \<open>k\<close> on. \<open>env_token\<close> is
  \<^verbatim>\<open>Provider.GetToken\<close>; \<open>env_write t i\<close> is the outcome of the \<open>i\<close>-th write to the client at
  moment \<open>t\<close>; \<open>env_rand\<close> is \<^verbatim>\<open>crypto/rand.Read\<close>, which never fails in the Go release the module
  requires; \<open>env_lower\<close> is Go's non-ASCII lower-casing; \<open>env_client\<close> is the type of the accepted
  connection, which a listener wrapped by another package chooses: a \<^verbatim>\<open>*net.TCPConn\<close>, or another type with
  or without a method \<^verbatim>\<open>CloseWrite\<close>.\<close>

datatype sock = TCPSock | OtherSock bool

fun hasCloseWrite :: "sock \<Rightarrow> bool" where
  "hasCloseWrite TCPSock = True"
| "hasCloseWrite (OtherSock cw) = cw"

record env =
  env_cancel :: "nat option"
  env_token :: "nat \<Rightarrow> go_error + string"
  env_dial :: "nat \<Rightarrow> netDialer \<Rightarrow> int option \<Rightarrow> string \<Rightarrow> go_error + peer"
  env_handshake :: "nat \<Rightarrow> tlsConfig \<Rightarrow> int option \<Rightarrow> peer \<Rightarrow> go_error option"
  env_clock :: "nat \<Rightarrow> int"
  env_write :: "nat \<Rightarrow> nat \<Rightarrow> go_error option"
  env_rand :: "nat \<Rightarrow> nat \<Rightarrow> bytes"
  env_lower :: "string \<Rightarrow> string"
  env_client :: sock

datatype wire_form = ProxyForm | OriginForm

text \<open>A dialled connection is named by the moment it was dialled. \<open>EKeepAlive None\<close> is the client
  connection; \<open>EDrain\<close> reads and discards what a denied client still sends, for at most a second.\<close>

datatype event =
    EPoll bool
  | ERead request
  | EToken bool
  | EDialUpstream nat | EDialDirect nat string | EDialFailed string
  | EKeepAlive "nat option" int
  | ESend nat wire_form request
  | EInterim string
  | ERespond response
  | EError proxyError
  | EMaxForwards response
  | EConnectOK response
  | ETunnel nat int
  | EClose nat
  | EDrain
  | EClientCloseWrite | EClientClose

text \<open>A connection in use: its reader's remaining responses and the number of requests sent.\<close>

record link =
  ln_id :: nat
  ln_uploads :: "nat \<Rightarrow> upload"
  ln_sent :: nat
  ln_stream :: "(go_error + response) list"

record ClientSession =
  cs_reqReader :: "(go_error + request) list"
  cs_proxyConn :: "link option"
  cs_trace :: "event list"

definition emit :: "event \<Rightarrow> ClientSession \<Rightarrow> ClientSession" where
  "emit ev st = st\<lparr>cs_trace := cs_trace st @ [ev]\<rparr>"

definition emits :: "event list \<Rightarrow> ClientSession \<Rightarrow> ClientSession" where
  "emits evs st = st\<lparr>cs_trace := cs_trace st @ evs\<rparr>"

definition moment :: "ClientSession \<Rightarrow> nat" where
  "moment st = length (cs_trace st)"

text \<open>The select on \<^verbatim>\<open>ctx.Done()\<close> with a default branch.\<close>

definition ctxDone :: "env \<Rightarrow> ClientSession \<Rightarrow> bool" where
  "ctxDone env st = (case env_cancel env of None \<Rightarrow> False | Some k \<Rightarrow> k \<le> moment st)"

definition pollDone :: "env \<Rightarrow> ClientSession \<Rightarrow> bool \<times> ClientSession" where
  "pollDone env st = (ctxDone env st, emit (EPoll (ctxDone env st)) st)"

section \<open>Validation\<close>

text \<open>\<open>Inl\<close> is the local answer, written to the client before \<^verbatim>\<open>applyMaxForwards\<close> returns false.\<close>

definition applyMaxForwards :: "request \<Rightarrow> response + request" where
  "applyMaxForwards req =
     (if req_Method req \<noteq> methodTrace \<and> req_Method req \<noteq> methodOptions then Inr req
      else let mf = hget (req_Header req) headerMaxForwards
           in if mf = [] then Inr req
              else (case atoi mf of
                      None \<Rightarrow> Inr req
                    | Some n \<Rightarrow>
                        if n \<le> 0 then Inl (writeMaxForwardsResponse req)
                        else Inr (req\<lparr>req_Header := hset (req_Header req) headerMaxForwards (itoa (n - 1))\<rparr>)))"

datatype verdict = Forward request | Answered response | Rejected proxyError

definition connectPort :: "string \<Rightarrow> string" where
  "connectPort host = (case splitHostPort host of Inl _ \<Rightarrow> ''443'' | Inr (_, port) \<Rightarrow> port)"

definition validateRequest :: "Config \<Rightarrow> request \<Rightarrow> verdict" where
  "validateRequest cfg req =
     (let prior = hget (req_Header req) headerVia
      in if prior \<noteq> [] \<and> sublist (cfg_Pseudonym cfg) prior then Rejected errProxyLoopDetected
         else if req_Method req = methodConnect \<and> cfg_ConnectPorts cfg \<noteq> [] \<and>
             \<not> connectPortAllowed (connectPort (req_Host req)) (cfg_ConnectPorts cfg)
           then Rejected errForbiddenPort
         else (case applyMaxForwards req of
                 Inl resp \<Rightarrow> Answered resp
               | Inr req' \<Rightarrow> Forward (sanitizeHopByHop req')))"

definition connectionWillClose :: "request \<Rightarrow> response \<Rightarrow> bool" where
  "connectionWillClose req resp \<longleftrightarrow>
     (if req_ProtoMajor req = 1 \<and> req_ProtoMinor req = 0 then True
      else req_Close req \<or> resp_Close resp)"

section \<open>Reading requests\<close>

definition readRequest :: "env \<Rightarrow> ClientSession \<Rightarrow> (go_error + request) \<times> ClientSession" where
  "readRequest env st =
     (case pollDone env st of (done1, st1) \<Rightarrow>
        if done1 then (Inl (Sentinel ErrSessionShutdown), st1)
        else
          let res = (case cs_reqReader st1 of [] \<Rightarrow> Inl (Sentinel EOF) | r # _ \<Rightarrow> r);
              st2 = st1\<lparr>cs_reqReader := tl (cs_reqReader st1)\<rparr>
          in (case pollDone env st2 of (done2, st3) \<Rightarrow>
                if done2 then (Inl (Sentinel ErrSessionShutdown), st3)
                else (res, (case res of Inr req \<Rightarrow> emit (ERead req) st3 | Inl _ \<Rightarrow> st3))))"

definition readNextRequest :: "env \<Rightarrow> ClientSession \<Rightarrow> nat \<Rightarrow> request option \<times> ClientSession" where
  "readNextRequest env st iter =
     (case readRequest env st of
        (Inr req, st1) \<Rightarrow> (Some req, st1)
      | (Inl err, st1) \<Rightarrow>
          if errors_is err ErrSessionShutdown then (None, st1)
          else if iter > 0 then (None, st1)
          else if isExpectedCloseError err then (None, st1)
          else (None, emit (EError errHTTPRequestError) st1))"

section \<open>The upstream path\<close>

definition handleDialError :: "go_error \<Rightarrow> ClientSession \<Rightarrow> ClientSession" where
  "handleDialError err st =
     emit (EError (if isTimeoutError err then errConnectionTimeout else errConnectionRefused)) st"

text \<open>A connection that is not a \<^verbatim>\<open>*net.TCPConn\<close> is skipped.\<close>

definition enableKeepAlive :: "sock \<Rightarrow> nat option \<Rightarrow> int \<Rightarrow> ClientSession \<Rightarrow> ClientSession" where
  "enableKeepAlive conn c period st = (case conn of TCPSock \<Rightarrow> emit (EKeepAlive c period) st | OtherSock _ \<Rightarrow> st)"

text \<open>On both connections, when configured; \<open>conn\<close> is the type of the dialled one.\<close>

definition keepAliveBoth :: "Config \<Rightarrow> env \<Rightarrow> nat \<Rightarrow> sock \<Rightarrow> ClientSession \<Rightarrow> ClientSession" where
  "keepAliveBoth cfg env c conn st =
     (if cfg_KeepAlive cfg > 0
      then enableKeepAlive conn (Some c) (cfg_KeepAlive cfg) (enableKeepAlive (env_client env) None (cfg_KeepAlive cfg) st)
      else st)"

definition setHeader :: "header \<Rightarrow> request \<Rightarrow> request" where
  "setHeader h req = req\<lparr>req_Header := h\<rparr>"

definition withVia :: "Config \<Rightarrow> request \<Rightarrow> request" where
  "withVia cfg req = setHeader (injectVia (req_Header req) (req_Proto req) (cfg_Pseudonym cfg)) req"

definition withForwarding :: "Config \<Rightarrow> env \<Rightarrow> string \<Rightarrow> ClientSession \<Rightarrow> request \<Rightarrow> request" where
  "withForwarding cfg env clientAddr st req =
     (case injectForwardingHeaders (\<lambda>n. Some (env_rand env (moment st) n)) req clientAddr (cfg_Forwarding cfg) of
        Some r \<Rightarrow> r | None \<Rightarrow> req)"

definition withToken :: "string \<Rightarrow> request \<Rightarrow> request" where
  "withToken token req =
     setHeader (hset (req_Header req) headerProxyAuthorization (negotiateScheme @ token)) req"

fun peerOf :: "peer upstream_conn \<Rightarrow> peer" where
  "peerOf (PlainConn p) = p"
| "peerOf (TLSConn _ p) = p"

fun sockOf :: "peer upstream_conn \<Rightarrow> sock" where
  "sockOf (PlainConn _) = TCPSock"
| "sockOf (TLSConn _ _) = OtherSock True"

text \<open>The response reader of an upstream connection: every \<^verbatim>\<open>readOne\<close> is \<^verbatim>\<open>readUpstreamResponse\<close>.\<close>

definition upstreamLink :: "Config \<Rightarrow> nat \<Rightarrow> peer \<Rightarrow> link" where
  "upstreamLink cfg c p =
     \<lparr>ln_id = c, ln_uploads = peer_uploads p, ln_sent = 0,
      ln_stream = map (\<lambda>rr. readUpstreamResponse rr (cfg_Pseudonym cfg)) (peer_stream p)\<rparr>"

text \<open>The request comes back too: it carries the token once one was acquired.\<close>

definition dialAndAuthUpstream ::
    "Config \<Rightarrow> env \<Rightarrow> ClientSession \<Rightarrow> request \<Rightarrow> link option \<times> request \<times> ClientSession" where
  "dialAndAuthUpstream cfg env st req =
     (case env_token env (moment st) of
        Inl terr \<Rightarrow> (None, req, emit (EError (tokenErrorToProxyError terr)) (emit (EToken False) st))
      | Inr token \<Rightarrow>
          let st1 = emit (EToken True) st;
              req1 = withToken token req;
              t = moment st1
          in (case do_result (dialUpstream (env_dial env t) (env_handshake env t) (env_clock env t)
                      (cfg_Upstream cfg) (cfg_UpstreamTLS cfg)) of
                Inl derr \<Rightarrow> (None, req1, handleDialError derr (emit (EDialFailed (cfg_Upstream cfg)) st1))
              | Inr conn \<Rightarrow>
                  (Some (upstreamLink cfg t (peerOf conn)), req1,
                   keepAliveBoth cfg env t (sockOf conn) (emit (EDialUpstream t) st1))))"

definition writeResponse ::
    "env \<Rightarrow> ClientSession \<Rightarrow> response \<Rightarrow> go_error option \<times> response \<times> ClientSession" where
  "writeResponse env st resp =
     (case pollDone env st of (done, st1) \<Rightarrow>
        let resp1 = (if done then resp\<lparr>resp_Close := True\<rparr> else resp)
        in (env_write env (moment st1) 0, resp1, emit (ERespond resp1) st1))"

definition acquireUpstream ::
    "Config \<Rightarrow> env \<Rightarrow> ClientSession \<Rightarrow> request \<Rightarrow> link option \<times> request \<times> ClientSession" where
  "acquireUpstream cfg env st req =
     (case cs_proxyConn st of
        Some ln \<Rightarrow> (Some ln, req, st)
      | None \<Rightarrow>
          (case dialAndAuthUpstream cfg env st req of
             (mln, req1, st1) \<Rightarrow> (mln, req1, st1\<lparr>cs_proxyConn := mln\<rparr>)))"

definition relayViaUpstream ::
    "Config \<Rightarrow> env \<Rightarrow> string \<Rightarrow> ClientSession \<Rightarrow> request \<Rightarrow> bool \<times> ClientSession" where
  "relayViaUpstream cfg env clientAddr st req =
     (case acquireUpstream cfg env st (withForwarding cfg env clientAddr st req) of
        (None, _, st1) \<Rightarrow> (False, st1)
      | (Some ln, req1, st1) \<Rightarrow>
          let req2 = withVia cfg req1;
              st2 = emit (ESend (ln_id ln) ProxyForm req2) st1;
              ex = exchangeRequest req2 (env_write env (moment st2)) (ln_uploads ln (ln_sent ln)) (ln_stream ln);
              st3 = (emits (map EInterim (ex_written ex)) st2)
                \<lparr>cs_proxyConn := Some (ln\<lparr>ln_sent := Suc (ln_sent ln), ln_stream := ex_rest ex\<rparr>)\<rparr>
          in if ex_requestErr ex \<noteq> None then (False, emit (EError errConnectionTerminated) st3)
             else if ex_clientErr ex \<noteq> None then (False, st3)
             else (case ex_err ex of
                     Some rerr \<Rightarrow> (False, emit (EError (snd (handleUpstreamResponseError rerr))) st3)
                   | None \<Rightarrow>
                       (case ex_resp ex of
                          None \<Rightarrow> (False, st3)
                        | Some resp \<Rightarrow>
                            (case writeResponse env st3 resp of (werr, resp1, st4) \<Rightarrow>
                               if werr \<noteq> None then (False, st4)
                               else (\<not> connectionWillClose req2 resp1, st4)))))"

section \<open>CONNECT\<close>

definition handleConnectTunnel ::
    "Config \<Rightarrow> env \<Rightarrow> ClientSession \<Rightarrow> link \<Rightarrow> request \<Rightarrow> ClientSession" where
  "handleConnectTunnel cfg env st ln req =
     (let rd = readThroughInterim req (env_write env (moment st)) (ln_stream ln) [];
          st1 = emits (map EInterim (rr_written rd)) st
      in (case rr_outcome rd of
            ClientWriteErr _ \<Rightarrow> st1
          | ReadErr err \<Rightarrow> emit (EError (snd (handleUpstreamResponseError err))) st1
          | Final resp \<Rightarrow>
              if resp_StatusCode resp < 200 \<or> resp_StatusCode resp \<ge> 300 then emit (ERespond resp) st1
              else
                let st2 = emit (EConnectOK resp) st1
                in if env_write env (moment st2) 0 \<noteq> None then st2
                   else emit (ETunnel (ln_id ln) (cfg_IdleTimeout cfg)) st2))"

definition tunnelViaUpstream ::
    "Config \<Rightarrow> env \<Rightarrow> string \<Rightarrow> ClientSession \<Rightarrow> request \<Rightarrow> ClientSession" where
  "tunnelViaUpstream cfg env clientAddr st req =
     (case dialAndAuthUpstream cfg env st (withForwarding cfg env clientAddr st req) of
        (None, _, st1) \<Rightarrow> st1
      | (Some ln, req1, st1) \<Rightarrow>
          let req2 = withVia cfg req1;
              st2 = emit (ESend (ln_id ln) ProxyForm req2) st1;
              st3 = (if upload_err (ln_uploads ln 0) \<noteq> None
                     then emit (EError errConnectionTerminated) st2
                     else handleConnectTunnel cfg env st2 ln req2)
          in emit (EClose (ln_id ln)) st3)"

definition dialDirect ::
    "Config \<Rightarrow> env \<Rightarrow> ClientSession \<Rightarrow> string \<Rightarrow> string \<Rightarrow> (go_error + peer) \<times> string" where
  "dialDirect cfg env st host defaultPort =
     (let target = dialTarget host defaultPort
      in (env_dial env (moment st) \<lparr>nd_Timeout = cfg_DialTimeout cfg, nd_Deadline = None\<rparr> None target, target))"

definition tunnelDirect :: "Config \<Rightarrow> env \<Rightarrow> ClientSession \<Rightarrow> request \<Rightarrow> ClientSession" where
  "tunnelDirect cfg env st req =
     (case dialDirect cfg env st (req_Host req) ''443'' of
        (Inl err, target) \<Rightarrow> handleDialError err (emit (EDialFailed target) st)
      | (Inr p, target) \<Rightarrow>
          let c = moment st;
              st1 = emit (EDialDirect c target) st;
              resp = \<lparr>resp_StatusCode = 200, resp_Status = [], resp_Proto = [], resp_ProtoMajor = 1,
                      resp_ProtoMinor = 1, resp_Header = injectVia [] (req_Proto req) (cfg_Pseudonym cfg),
                      resp_TransferEncoding = [], resp_ContentLength = 0, resp_Close = False,
                      resp_Body = []\<rparr>;
              st2 = emit (EConnectOK resp) st1;
              st3 = (if env_write env (moment st2) 0 \<noteq> None then st2
                     else emit (ETunnel c (cfg_IdleTimeout cfg)) (keepAliveBoth cfg env c TCPSock st2))
          in emit (EClose c) st3)"

section \<open>The direct path\<close>

text \<open>On a direct connection \<^verbatim>\<open>readOne\<close> is \<^verbatim>\<open>http.ReadResponse\<close> with Via injected.\<close>

definition directRead :: "Config \<Rightarrow> go_error + response \<Rightarrow> go_error + response" where
  "directRead cfg rr =
     (case rr of
        Inl e \<Rightarrow> Inl e
      | Inr resp \<Rightarrow>
          Inr (resp\<lparr>resp_Header := injectVia (resp_Header resp) (resp_Proto resp) (cfg_Pseudonym cfg)\<rparr>))"

definition relayDirect ::
    "Config \<Rightarrow> env \<Rightarrow> ClientSession \<Rightarrow> link \<Rightarrow> request \<Rightarrow> bool \<times> link \<times> ClientSession" where
  "relayDirect cfg env st ln req =
     (let st1 = emit (ESend (ln_id ln) OriginForm req) st;
          ex = exchangeRequest req (env_write env (moment st1)) (ln_uploads ln (ln_sent ln)) (ln_stream ln);
          st2 = emits (map EInterim (ex_written ex)) st1;
          ln1 = ln\<lparr>ln_sent := Suc (ln_sent ln), ln_stream := ex_rest ex\<rparr>
      in if ex_requestErr ex \<noteq> None then (False, ln1, emit (EError errConnectionTerminated) st2)
         else if ex_clientErr ex \<noteq> None then (False, ln1, st2)
         else if ex_err ex \<noteq> None then (False, ln1, st2)
         else (case ex_resp ex of
                 None \<Rightarrow> (False, ln1, st2)
               | Some resp \<Rightarrow>
                   (case writeResponse env st2 resp of (werr, resp1, st3) \<Rightarrow>
                      if werr \<noteq> None then (False, ln1, st3)
                      else (\<not> connectionWillClose req resp1, ln1, st3))))"

text \<open>\<open>Some (req, reroute)\<close>, or \<open>None\<close> when the loop must stop.\<close>

definition nextDirectRequest ::
    "Config \<Rightarrow> env \<Rightarrow> ClientSession \<Rightarrow> string \<Rightarrow> (request \<times> bool) option \<times> ClientSession" where
  "nextDirectRequest cfg env st boundHost =
     (case readRequest env st of
        (Inl _, st1) \<Rightarrow> (None, st1)
      | (Inr req, st1) \<Rightarrow>
          if \<not> sameHost (env_lower env) (req_Host req) boundHost ''80'' then (Some (req, True), st1)
          else (case validateRequest cfg req of
                  Answered resp \<Rightarrow> (None, emit (EMaxForwards resp) st1)
                | Rejected pe \<Rightarrow> (None, emit (EError pe) st1)
                | Forward req1 \<Rightarrow>
                    if req_Method req1 = methodConnect then (None, emit (EError errMismatchedTarget) st1)
                    else (Some (withVia cfg req1, False), st1)))"

lemma pollDone_reader [simp]: "cs_reqReader (snd (pollDone env st)) = cs_reqReader st"
  by (simp add: pollDone_def emit_def)

lemma readRequest_consumes:
  "readRequest env st = (Inr req, st') \<Longrightarrow> length (cs_reqReader st') < length (cs_reqReader st)"
  by (auto simp: readRequest_def pollDone_def emit_def Let_def split: if_splits list.splits sum.splits)

lemma nextDirectRequest_consumes:
  "nextDirectRequest cfg env st h = (Some r, st') \<Longrightarrow> length (cs_reqReader st') < length (cs_reqReader st)"
  by (auto simp: nextDirectRequest_def split: sum.splits prod.splits verdict.splits if_splits
      dest!: readRequest_consumes)

lemma emit_reader [simp]:
  "cs_reqReader (emit ev st) = cs_reqReader st" "cs_reqReader (emits evs st) = cs_reqReader st"
  by (simp_all add: emit_def emits_def)

lemma writeResponse_reader:
  "writeResponse env st resp = (werr, resp1, st') \<Longrightarrow> cs_reqReader st' = cs_reqReader st"
  by (auto simp: writeResponse_def pollDone_def Let_def)

lemma relayDirect_reader:
  "relayDirect cfg env st ln req = (ok, ln', st') \<Longrightarrow> cs_reqReader st' = cs_reqReader st"
  by (auto simp: relayDirect_def Let_def dest: writeResponse_reader split: if_splits option.splits prod.splits)

function forwardDirectLoop ::
    "Config \<Rightarrow> env \<Rightarrow> string \<Rightarrow> ClientSession \<Rightarrow> link \<Rightarrow> request \<Rightarrow> request option \<times> bool \<times> ClientSession" where
  "forwardDirectLoop cfg env boundHost st ln req =
     (case relayDirect cfg env st ln req of (ok, ln1, st1) \<Rightarrow>
        if \<not> ok then (None, False, st1)
        else (case nextDirectRequest cfg env st1 boundHost of
                (None, st2) \<Rightarrow> (None, False, st2)
              | (Some (req1, reroute), st2) \<Rightarrow>
                  if reroute then (Some req1, True, st2)
                  else forwardDirectLoop cfg env boundHost st2 ln1 req1))"
  by pat_completeness auto

termination
  by (relation "measure (\<lambda>(_, _, _, st, _, _). length (cs_reqReader st))")
     (auto dest!: nextDirectRequest_consumes [OF sym] relayDirect_reader [OF sym])

declare forwardDirectLoop.simps [simp del]

definition forwardDirect ::
    "Config \<Rightarrow> env \<Rightarrow> ClientSession \<Rightarrow> request \<Rightarrow> request option \<times> bool \<times> ClientSession" where
  "forwardDirect cfg env st req =
     (case dialDirect cfg env st (req_Host req) ''80'' of
        (Inl err, target) \<Rightarrow> (None, False, handleDialError err (emit (EDialFailed target) st))
      | (Inr p, target) \<Rightarrow>
          let c = moment st;
              st1 = keepAliveBoth cfg env c TCPSock (emit (EDialDirect c target) st);
              ln = \<lparr>ln_id = c, ln_uploads = peer_uploads p, ln_sent = 0,
                    ln_stream = map (directRead cfg) (peer_stream p)\<rparr>
          in (case forwardDirectLoop cfg env (req_Host req) st1 ln req of
                (next_req, cont, st2) \<Rightarrow> (next_req, cont, emit (EClose c) st2)))"

section \<open>The session\<close>

definition bypasses :: "Config \<Rightarrow> env \<Rightarrow> string \<Rightarrow> bool" where
  "bypasses cfg env host =
     (case cfg_NoProxy cfg of None \<Rightarrow> False | Some m \<Rightarrow> fst (Match (env_lower env) m host))"

definition routeRequest ::
    "Config \<Rightarrow> env \<Rightarrow> string \<Rightarrow> ClientSession \<Rightarrow> request \<Rightarrow> request option \<times> bool \<times> ClientSession" where
  "routeRequest cfg env clientAddr st req =
     (if bypasses cfg env (req_Host req) then
        if req_Method req = methodConnect then (None, False, tunnelDirect cfg env st req)
        else forwardDirect cfg env st (withVia cfg req)
      else if req_Method req = methodConnect then (None, False, tunnelViaUpstream cfg env clientAddr st req)
      else (case relayViaUpstream cfg env clientAddr st req of (cont, st1) \<Rightarrow> (None, cont, st1)))"

definition nextPending ::
    "env \<Rightarrow> ClientSession \<Rightarrow> request option \<Rightarrow> nat \<Rightarrow> request option \<times> ClientSession" where
  "nextPending env st pending iter =
     (case pending of Some req \<Rightarrow> (Some req, st) | None \<Rightarrow> readNextRequest env st iter)"

lemma readNextRequest_consumes:
  "readNextRequest env st iter = (Some r, st') \<Longrightarrow> length (cs_reqReader st') < length (cs_reqReader st)"
  by (auto simp: readNextRequest_def split: prod.splits sum.splits if_splits dest: readRequest_consumes)

lemma nextPending_consumes:
  "nextPending env st pending iter = (Some r, st') \<Longrightarrow>
     2 * length (cs_reqReader st') + 1 \<le> 2 * length (cs_reqReader st) + (if pending = None then 0 else 1)"
  by (auto simp: nextPending_def split: option.splits dest: readNextRequest_consumes)

lemma keepAliveBoth_reader [simp]: "cs_reqReader (keepAliveBoth cfg env c conn st) = cs_reqReader st"
  by (simp add: keepAliveBoth_def enableKeepAlive_def split: sock.splits)

lemma handleDialError_reader [simp]: "cs_reqReader (handleDialError e st) = cs_reqReader st"
  by (simp add: handleDialError_def)

lemma forwardDirectLoop_reader:
  "forwardDirectLoop cfg env h st ln req = (nxt, cont, st') \<Longrightarrow>
     length (cs_reqReader st') + (if nxt = None then 0 else 1) \<le> length (cs_reqReader st)"
proof (induction "length (cs_reqReader st)" arbitrary: st ln req rule: less_induct)
  case less
  obtain ok ln1 st1 where r: "relayDirect cfg env st ln req = (ok, ln1, st1)"
    by (cases "relayDirect cfg env st ln req") auto
  note rd = relayDirect_reader [OF r]
  obtain nx st2 where n: "nextDirectRequest cfg env st1 h = (nx, st2)"
    by (cases "nextDirectRequest cfg env st1 h") auto
  note unfold = forwardDirectLoop.simps [of cfg env h st ln req]
  show ?case
  proof (cases nx)
    case None
    have "length (cs_reqReader st2) \<le> length (cs_reqReader st1)"
      using n by (auto simp: nextDirectRequest_def readRequest_def pollDone_def Let_def
          split: if_splits sum.splits prod.splits verdict.splits)
    with less.prems None r n rd show ?thesis
      by (auto simp: unfold split: if_splits)
  next
    case (Some p)
    obtain req1 rr where p: "p = (req1, rr)" by (cases p)
    have "length (cs_reqReader st2) < length (cs_reqReader st1)"
      using n Some by (auto dest: nextDirectRequest_consumes)
    with less.prems less.hyps [of st2 ln1 req1] Some p r n rd show ?thesis
      by (auto simp: unfold split: if_splits)
  qed
qed

lemma dialAndAuthUpstream_reader:
  "dialAndAuthUpstream cfg env st req = (mln, req1, st') \<Longrightarrow> cs_reqReader st' = cs_reqReader st"
  by (auto simp: dialAndAuthUpstream_def Let_def split: sum.splits)

lemma acquireUpstream_reader:
  "acquireUpstream cfg env st req = (mln, req1, st') \<Longrightarrow> cs_reqReader st' = cs_reqReader st"
  by (auto simp: acquireUpstream_def split: option.splits prod.splits dest: dialAndAuthUpstream_reader)

lemma relayViaUpstream_reader:
  "relayViaUpstream cfg env a st req = (ok, st') \<Longrightarrow> cs_reqReader st' = cs_reqReader st"
  by (auto simp: relayViaUpstream_def Let_def split: if_splits option.splits prod.splits
      dest!: acquireUpstream_reader writeResponse_reader)

lemma routeRequest_reader:
  assumes "routeRequest cfg env a st req = (nxt, True, st')"
  shows "length (cs_reqReader st') + (if nxt = None then 0 else 1) \<le> length (cs_reqReader st)"
  using assms
  by (auto simp: routeRequest_def forwardDirect_def Let_def split: if_splits prod.splits sum.splits
      dest!: forwardDirectLoop_reader relayViaUpstream_reader)

function run ::
    "Config \<Rightarrow> env \<Rightarrow> string \<Rightarrow> ClientSession \<Rightarrow> request option \<Rightarrow> nat \<Rightarrow> ClientSession" where
  "run cfg env clientAddr st pending iter =
     (case nextPending env st pending iter of
        (None, st1) \<Rightarrow> st1
      | (Some req, st1) \<Rightarrow>
          (case validateRequest cfg req of
             Rejected pe \<Rightarrow> emit (EError pe) st1
           | Answered resp \<Rightarrow> emit (EMaxForwards resp) st1
           | Forward req1 \<Rightarrow>
               (case routeRequest cfg env clientAddr st1 req1 of (nxt, cont, st2) \<Rightarrow>
                  if \<not> cont then st2 else run cfg env clientAddr st2 nxt (Suc iter))))"
  by pat_completeness auto

termination
  by (relation "measure (\<lambda>(_, _, _, st, pending, _).
        2 * length (cs_reqReader st) + (if pending = None then 0 else 1))")
     (fastforce dest!: nextPending_consumes [OF sym] routeRequest_reader [OF sym] split: if_splits)+

declare run.simps [simp del]

text \<open>The deferred \<^verbatim>\<open>closeWrite\<close>, which does nothing on a connection without \<^verbatim>\<open>CloseWrite\<close>, and close of the
  client connection.\<close>

definition closeClient :: "env \<Rightarrow> event list" where
  "closeClient env = (if hasCloseWrite (env_client env) then [EClientCloseWrite] else []) @ [EClientClose]"

definition handleClientCtx ::
    "Config \<Rightarrow> env \<Rightarrow> string \<Rightarrow> (go_error + request) list \<Rightarrow> event list" where
  "handleClientCtx cfg env clientAddr requests =
     (if cfg_Pseudonym cfg = [] then closeClient env
      else if cfg_AllowedIPs cfg \<noteq> [] \<and> \<not> ipAllowed (parseIP (extractHost clientAddr)) (cfg_AllowedIPs cfg)
        then EError errClientDenied # EDrain # closeClient env
      else
        let st = run cfg env clientAddr \<lparr>cs_reqReader = requests, cs_proxyConn = None, cs_trace = []\<rparr> None 0;
            st1 = (case cs_proxyConn st of None \<Rightarrow> st | Some ln \<Rightarrow> emit (EClose (ln_id ln)) st)
        in cs_trace st1 @ closeClient env)"

text \<open>\<^verbatim>\<open>handleClient\<close> runs under the background context, which is never done.\<close>

definition handleClient :: "Config \<Rightarrow> env \<Rightarrow> string \<Rightarrow> (go_error + request) list \<Rightarrow> event list" where
  "handleClient cfg env = handleClientCtx cfg (env\<lparr>env_cancel := None\<rparr>)"

section \<open>Validation\<close>

lemma sanitize_Forward:
  "validateRequest cfg r = Forward v \<Longrightarrow> \<exists>r'. applyMaxForwards r = Inr r' \<and> v = sanitizeHopByHop r'"
  by (auto simp: validateRequest_def Let_def split: if_splits sum.splits)

lemma applyMaxForwards_frame:
  "applyMaxForwards r = Inr r' \<Longrightarrow> r' = r\<lparr>req_Header := req_Header r'\<rparr>"
  by (auto simp: applyMaxForwards_def Let_def split: if_splits option.splits)

lemma validateRequest_frame:
  assumes "validateRequest cfg r = Forward v"
  shows "req_Method v = req_Method r" "req_Host v = req_Host r" "req_Proto v = req_Proto r"
    "req_Body v = req_Body r" "req_ProtoMajor v = req_ProtoMajor r" "req_ProtoMinor v = req_ProtoMinor r"
    "req_Close v = req_Close r" "req_Trailer v = None"
proof -
  from sanitize_Forward [OF assms] obtain r' where r': "applyMaxForwards r = Inr r'"
    and v: "v = sanitizeHopByHop r'" by blast
  from applyMaxForwards_frame [OF r'] obtain h where "r' = r\<lparr>req_Header := h\<rparr>" by blast
  then show "req_Method v = req_Method r" "req_Host v = req_Host r" "req_Proto v = req_Proto r"
    "req_Body v = req_Body r" "req_ProtoMajor v = req_ProtoMajor r" "req_ProtoMinor v = req_ProtoMinor r"
    "req_Close v = req_Close r" "req_Trailer v = None"
    by (simp_all add: v sanitize_frame)
qed

lemma validateRequest_no_credentials:
  assumes "validateRequest cfg r = Forward v"
  shows "map_of (req_Header v) headerProxyAuthorization = None"
proof -
  have "headerProxyAuthorization \<in> canonicalKey ` set hopByHopNames"
    by (rule image_eqI [of _ _ headerProxyAuthorization]) (simp_all add: hopByHopNames_def)
  with sanitize_Forward [OF assms] show ?thesis
    by (auto simp: lookup_sanitize hopByHop_stripped)
qed

end
