(* ===== verification/Session_Protocol.thy ===== *)
theory Session_Protocol
  imports Client_Session
begin

text \<open>
  The protocol a client session promises, as an abstract machine that reads the session's events,
  and the proof that every trace of \<open>handleClientCtx\<close> is a run of it. The machine holds the phase of
  the client connection, whether shutdown was observed, and the dialled connections with what each may
  be used for. Properties of whole sessions are then read off the machine's guards.
\<close>

section \<open>The machine\<close>

datatype phase = Ready | Busy request | Opened request | Over

text \<open>\<open>UpstreamLink used\<close>: whether a request (and with it the token) was already sent.
  \<open>DirectLink h p\<close>: the host the connection is bound to, and the default port it was dialled with.\<close>

datatype link_kind = UpstreamLink bool | DirectLink string string

record monitor =
  m_phase :: phase
  m_cancelled :: bool
  m_links :: "nat \<rightharpoonup> link_kind"

definition m_init :: monitor where
  "m_init = \<lparr>m_phase = Ready, m_cancelled = False, m_links = Map.empty\<rparr>"

definition addedKeys :: "string set" where
  "addedKeys = {headerVia, headerForwarded, headerXForwardedFor, headerXForwardedProto,
     headerXForwardedHost, headerProxyAuthorization}"

text \<open>What the upstream may receive for a validated request \<open>v\<close>: the same request, whose header
  differs only in the fields the proxy adds, with this proxy's Via entry.\<close>

definition rewritten :: "Config \<Rightarrow> request \<Rightarrow> request \<Rightarrow> bool" where
  "rewritten cfg v q \<longleftrightarrow>
     q = v\<lparr>req_Header := req_Header q\<rparr> \<and>
     (\<forall>k. k \<in> addedKeys \<or> map_of (req_Header q) k = map_of (req_Header v) k) \<and>
     hget (req_Header q) headerVia = hget (req_Header (withVia cfg v)) headerVia \<and>
     (wf_header (req_Header v) \<longrightarrow> wf_header (req_Header q))"

definition credentials :: "request \<Rightarrow> string list" where
  "credentials q = hvalues (req_Header q) headerProxyAuthorization"

text \<open>The one credential is a token the provider returned.\<close>

definition authenticated :: "env \<Rightarrow> request \<Rightarrow> bool" where
  "authenticated env q \<longleftrightarrow>
     (\<exists>t token. env_token env t = Inr token \<and> credentials q = [negotiateScheme @ token])"

definition may_send :: "Config \<Rightarrow> env \<Rightarrow> request \<Rightarrow> link_kind \<Rightarrow> wire_form \<Rightarrow> request \<Rightarrow> bool" where
  "may_send cfg env r kind form q \<longleftrightarrow>
     (case validateRequest cfg r of
        Forward v \<Rightarrow>
          (case kind of
             UpstreamLink used \<Rightarrow>
               form = ProxyForm \<and> \<not> bypasses cfg env (req_Host r) \<and> rewritten cfg v q \<and>
               (if used then req_Method r \<noteq> methodConnect \<and> credentials q = [] else authenticated env q)
           | DirectLink h p \<Rightarrow>
               p = ''80'' \<and> form = OriginForm \<and> req_Method r \<noteq> methodConnect \<and>
               sameHost (env_lower env) (req_Host r) h ''80'' \<and> q = withVia cfg v)
      | _ \<Rightarrow> False)"

fun sent_on :: "link_kind \<Rightarrow> link_kind" where
  "sent_on (UpstreamLink _) = UpstreamLink True"
| "sent_on (DirectLink h p) = DirectLink h p"

definition forwardable :: "Config \<Rightarrow> request \<Rightarrow> bool" where
  "forwardable cfg r \<longleftrightarrow> (case validateRequest cfg r of Forward _ \<Rightarrow> True | _ \<Rightarrow> False)"

text \<open>A tunnel uses the upstream connection its CONNECT was sent on, or the direct one dialled for it.\<close>

definition may_tunnel :: "Config \<Rightarrow> env \<Rightarrow> request \<Rightarrow> link_kind \<Rightarrow> bool" where
  "may_tunnel cfg env r kind \<longleftrightarrow>
     (case kind of
        UpstreamLink used \<Rightarrow> used \<and> \<not> bypasses cfg env (req_Host r)
      | DirectLink h p \<Rightarrow> h = req_Host r \<and> p = ''443'')"

definition direct_port :: "request \<Rightarrow> string" where
  "direct_port r = (if req_Method r = methodConnect then ''443'' else ''80'')"

definition is_busy :: "monitor \<Rightarrow> bool" where
  "is_busy m \<longleftrightarrow> (case m_phase m of Busy _ \<Rightarrow> True | _ \<Rightarrow> False)"

text \<open>Keep-alive is enabled on TCP connections only: a client connection of another type and a TLS
  connection to the upstream are left as they are.\<close>

fun link_sock :: "Config \<Rightarrow> link_kind \<Rightarrow> sock" where
  "link_sock cfg (UpstreamLink _) = (if Enabled (cfg_UpstreamTLS cfg) then OtherSock True else TCPSock)"
| "link_sock cfg (DirectLink _ _) = TCPSock"

definition may_keepalive :: "Config \<Rightarrow> env \<Rightarrow> (nat \<rightharpoonup> link_kind) \<Rightarrow> nat option \<Rightarrow> bool" where
  "may_keepalive cfg env links c \<longleftrightarrow>
     (case c of
        None \<Rightarrow> env_client env = TCPSock
      | Some i \<Rightarrow> (case links i of None \<Rightarrow> False | Some kind \<Rightarrow> link_sock cfg kind = TCPSock))"

fun mon_step :: "Config \<Rightarrow> env \<Rightarrow> monitor \<Rightarrow> event \<Rightarrow> monitor option" where
  "mon_step cfg env m (EPoll b) = Some (m\<lparr>m_cancelled := m_cancelled m \<or> b\<rparr>)"
| "mon_step cfg env m (ERead r) =
     (if m_phase m = Ready \<and> \<not> m_cancelled m then Some (m\<lparr>m_phase := Busy r\<rparr>) else None)"
| "mon_step cfg env m (EToken b) =
     (case m_phase m of
        Busy r \<Rightarrow> if \<not> m_cancelled m \<and> forwardable cfg r \<and> \<not> bypasses cfg env (req_Host r) then Some m else None
      | _ \<Rightarrow> None)"
| "mon_step cfg env m (EDialUpstream c) =
     (case m_phase m of
        Busy r \<Rightarrow>
          if \<not> m_cancelled m \<and> m_links m c = None \<and> forwardable cfg r \<and> \<not> bypasses cfg env (req_Host r)
          then Some (m\<lparr>m_links := (m_links m)(c \<mapsto> UpstreamLink False)\<rparr>) else None
      | _ \<Rightarrow> None)"
| "mon_step cfg env m (EDialDirect c target) =
     (case m_phase m of
        Busy r \<Rightarrow>
          if \<not> m_cancelled m \<and> m_links m c = None \<and> forwardable cfg r \<and> bypasses cfg env (req_Host r) \<and>
             target = dialTarget (req_Host r) (direct_port r)
          then Some (m\<lparr>m_links := (m_links m)(c \<mapsto> DirectLink (req_Host r) (direct_port r))\<rparr>) else None
      | _ \<Rightarrow> None)"
| "mon_step cfg env m (EDialFailed target) = (if is_busy m \<and> \<not> m_cancelled m then Some m else None)"
| "mon_step cfg env m (EKeepAlive c p) =
     (if p = cfg_KeepAlive cfg \<and> p > 0 \<and> may_keepalive cfg env (m_links m) c then Some m else None)"
| "mon_step cfg env m (ESend c form q) =
     (case m_phase m of
        Busy r \<Rightarrow>
          (case m_links m c of
             Some kind \<Rightarrow>
               if \<not> m_cancelled m \<and> may_send cfg env r kind form q
               then Some (m\<lparr>m_links := (m_links m)(c \<mapsto> sent_on kind)\<rparr>) else None
           | None \<Rightarrow> None)
      | _ \<Rightarrow> None)"
| "mon_step cfg env m (EInterim bs) = (if is_busy m then Some m else None)"
| "mon_step cfg env m (ERespond resp) =
     (case m_phase m of
        Busy r \<Rightarrow>
          if m_cancelled m \<and> \<not> resp_Close resp then None
          else Some (m\<lparr>m_phase :=
            if connectionWillClose r resp \<or> req_Method r = methodConnect then Over else Ready\<rparr>)
      | _ \<Rightarrow> None)"
| "mon_step cfg env m (EError pe) =
     (if m_phase m = Ready \<or> is_busy m then Some (m\<lparr>m_phase := Over\<rparr>) else None)"
| "mon_step cfg env m (EMaxForwards resp) =
     (case m_phase m of
        Busy r \<Rightarrow> if validateRequest cfg r = Answered resp then Some (m\<lparr>m_phase := Over\<rparr>) else None
      | _ \<Rightarrow> None)"
| "mon_step cfg env m (EConnectOK resp) =
     (case m_phase m of
        Busy r \<Rightarrow>
          if req_Method r = methodConnect \<and> forwardable cfg r \<and> 200 \<le> resp_StatusCode resp \<and> resp_StatusCode resp < 300
          then Some (m\<lparr>m_phase := Opened r\<rparr>) else None
      | _ \<Rightarrow> None)"
| "mon_step cfg env m (ETunnel c t) =
     (case m_phase m of
        Opened r \<Rightarrow>
          (case m_links m c of
             Some kind \<Rightarrow>
               if \<not> m_cancelled m \<and> may_tunnel cfg env r kind then Some (m\<lparr>m_phase := Over\<rparr>) else None
           | None \<Rightarrow> None)
      | _ \<Rightarrow> None)"
| "mon_step cfg env m (EClose c) =
     (if m_links m c \<noteq> None then Some (m\<lparr>m_links := (m_links m)(c := None)\<rparr>) else None)"
| "mon_step cfg env m EDrain = (if m_phase m = Over then Some m else None)"
| "mon_step cfg env m EClientCloseWrite =
     (if m_links m = Map.empty \<and> hasCloseWrite (env_client env) then Some (m\<lparr>m_phase := Over\<rparr>) else None)"
| "mon_step cfg env m EClientClose =
     (if m_links m = Map.empty \<and> (m_phase m = Over \<or> \<not> hasCloseWrite (env_client env))
      then Some (m\<lparr>m_phase := Over\<rparr>) else None)"

fun mon_run :: "Config \<Rightarrow> env \<Rightarrow> monitor \<Rightarrow> event list \<Rightarrow> monitor option" where
  "mon_run cfg env m [] = Some m"
| "mon_run cfg env m (ev # evs) =
     (case mon_step cfg env m ev of None \<Rightarrow> None | Some m' \<Rightarrow> mon_run cfg env m' evs)"

lemma mon_run_append:
  "mon_run cfg env m (xs @ ys) =
     (case mon_run cfg env m xs of None \<Rightarrow> None | Some m' \<Rightarrow> mon_run cfg env m' ys)"
  by (induction xs arbitrary: m) (auto split: option.splits)

section \<open>States that follow the machine\<close>

definition follows :: "Config \<Rightarrow> env \<Rightarrow> ClientSession \<Rightarrow> monitor \<Rightarrow> bool" where
  "follows cfg env st m \<longleftrightarrow>
     mon_run cfg env m_init (cs_trace st) = Some m \<and> (\<forall>c. m_links m c \<noteq> None \<longrightarrow> c < moment st)"

lemma moment_emit [simp]: "moment (emit ev st) = Suc (moment st)" "moment (emits evs st) = moment st + length evs"
  by (simp_all add: moment_def emit_def emits_def)

lemma follows_emit:
  assumes "follows cfg env st m" "mon_step cfg env m ev = Some m'"
    "\<And>c. m_links m' c \<noteq> None \<Longrightarrow> m_links m c \<noteq> None \<or> c = moment st"
  shows "follows cfg env (emit ev st) m'"
  using assms by (auto simp: follows_def mon_run_append emit_def moment_def less_Suc_eq)

lemma follows_reader [simp]:
  "follows cfg env (st\<lparr>cs_reqReader := rs\<rparr>) m = follows cfg env st m"
  "follows cfg env (st\<lparr>cs_proxyConn := pc\<rparr>) m = follows cfg env st m"
  by (simp_all add: follows_def moment_def)

lemma emits_Cons: "emits (ev # evs) st = emits evs (emit ev st)"
  by (simp add: emits_def emit_def)

lemma emits_Nil [simp]: "emits [] st = st"
  by (simp add: emits_def)

lemma follows_interims:
  assumes "follows cfg env st m" "is_busy m"
  shows "follows cfg env (emits (map EInterim bss) st) m"
  using assms(1)
proof (induction bss arbitrary: st)
  case (Cons b bs)
  have "follows cfg env (emit (EInterim b) st) m"
    by (rule follows_emit [OF Cons.prems]) (simp_all add: assms(2))
  from Cons.IH [OF this] show ?case by (simp add: emits_Cons)
qed simp

lemma follows_enableKeepAlive:
  assumes "follows cfg env st m" "conn = TCPSock \<Longrightarrow> may_keepalive cfg env (m_links m) c" "cfg_KeepAlive cfg > 0"
  shows "follows cfg env (enableKeepAlive conn c (cfg_KeepAlive cfg) st) m"
  using follows_emit [OF assms(1), of "EKeepAlive c (cfg_KeepAlive cfg)" m] assms
  by (auto simp: enableKeepAlive_def split: sock.splits)

lemma follows_keepAlive:
  assumes "follows cfg env st m" "m_links m c = Some kind" "conn = link_sock cfg kind"
  shows "follows cfg env (keepAliveBoth cfg env c conn st) m"
  unfolding keepAliveBoth_def using assms
  by (auto simp: may_keepalive_def intro!: follows_enableKeepAlive)

lemma sockOf_dialUpstream:
  "do_result (dialUpstream d h t a (cfg_UpstreamTLS cfg)) = Inr conn \<Longrightarrow> sockOf conn = link_sock cfg (UpstreamLink b)"
  by (auto simp: dialUpstream_def Let_def split: if_splits sum.splits option.splits)

lemma uncancelled [simp]: "\<not> m_cancelled m \<Longrightarrow> m\<lparr>m_cancelled := False\<rparr> = m"
  by (cases m) simp

lemma follows_poll:
  assumes "follows cfg env st m" "pollDone env st = (d, st')"
  shows "follows cfg env st' (m\<lparr>m_cancelled := m_cancelled m \<or> d\<rparr>)"
  using follows_emit [OF assms(1), of "EPoll d"] assms(2) by (auto simp: pollDone_def)

lemma follows_error:
  assumes "follows cfg env st m" "m_phase m = Ready \<or> is_busy m"
  shows "follows cfg env (emit (EError pe) st) (m\<lparr>m_phase := Over\<rparr>)"
  by (rule follows_emit [OF assms(1)]) (simp_all add: assms(2))

section \<open>Reading\<close>

lemma readRequest_follows:
  assumes "follows cfg env st m" "m_phase m = Ready" "\<not> m_cancelled m"
    and "readRequest env st = (res, st')"
  shows "\<exists>m'. follows cfg env st' m' \<and> m_links m' = m_links m \<and>
    (case res of Inr req \<Rightarrow> m' = m\<lparr>m_phase := Busy req\<rparr> | Inl _ \<Rightarrow> m_phase m' = Ready)"
proof -
  obtain d1 st1 where p1: "pollDone env st = (d1, st1)" by (cases "pollDone env st")
  note f1 = follows_poll [OF assms(1) p1]
  show ?thesis
  proof (cases d1)
    case True
    with p1 assms f1 show ?thesis by (auto simp: readRequest_def)
  next
    case False
    let ?st2 = "st1\<lparr>cs_reqReader := tl (cs_reqReader st1)\<rparr>"
    obtain d2 st3 where p2: "pollDone env ?st2 = (d2, st3)" by (cases "pollDone env ?st2")
    from f1 False assms(3) have "follows cfg env ?st2 m" by simp
    note f2 = follows_poll [OF this p2]
    show ?thesis
    proof (cases "d2 \<or> (\<exists>e. res = Inl e)")
      case True
      with p1 p2 assms f2 False show ?thesis
        by (auto simp: readRequest_def Let_def split: if_splits sum.splits)
    next
      case d2: False
      then obtain req where req: "res = Inr req" by (cases res) auto
      from d2 p1 p2 assms(4) False req have st': "st' = emit (ERead req) st3"
        by (auto simp: readRequest_def Let_def split: list.splits sum.splits)
      from f2 d2 assms(3) have "follows cfg env st3 m" by simp
      from follows_emit [OF this, of "ERead req" "m\<lparr>m_phase := Busy req\<rparr>"] st' req assms(2,3)
      show ?thesis by auto
    qed
  qed
qed

lemma writeResponse_follows:
  assumes "follows cfg env st m" "m_phase m = Busy r" "\<not> m_cancelled m"
    and "writeResponse env st resp = (werr, resp1, st')"
  shows "\<exists>m'. follows cfg env st' m' \<and> m_links m' = m_links m \<and>
    (\<not> connectionWillClose r resp1 \<and> req_Method r \<noteq> methodConnect \<longrightarrow> m_phase m' = Ready \<and> \<not> m_cancelled m')"
proof -
  obtain d st1 where p: "pollDone env st = (d, st1)" by (cases "pollDone env st")
  note f = follows_poll [OF assms(1) p]
  from p assms(4) have resp1: "resp1 = (if d then resp\<lparr>resp_Close := True\<rparr> else resp)"
    and st': "st' = emit (ERespond resp1) st1"
    by (auto simp: writeResponse_def Let_def)
  have step: "mon_step cfg env (m\<lparr>m_cancelled := m_cancelled m \<or> d\<rparr>) (ERespond resp1) =
      Some (m\<lparr>m_cancelled := d, m_phase :=
        if connectionWillClose r resp1 \<or> req_Method r = methodConnect then Over else Ready\<rparr>)"
    using assms(2,3) resp1 by (auto split: if_splits)
  from resp1 have "d \<Longrightarrow> connectionWillClose r resp1"
    by (simp add: connectionWillClose_def)
  with follows_emit [OF f step] st' show ?thesis by auto
qed

section \<open>What is sent\<close>

lemma withForwarding_cases:
  "withForwarding cfg env a st v = v\<lparr>req_Header := req_Header (withForwarding cfg env a st v)\<rparr> \<and>
   (\<forall>k. k \<notin> {headerForwarded, headerXForwardedFor, headerXForwardedProto, headerXForwardedHost} \<longrightarrow>
      map_of (req_Header (withForwarding cfg env a st v)) k = map_of (req_Header v) k)"
proof -
  let ?i = "injectForwardingHeaders (\<lambda>n. Some (env_rand env (moment st) n)) v a (cfg_Forwarding cfg)"
  show ?thesis
  proof (cases ?i)
    case (Some r)
    from injectForwardingHeaders_frame [OF Some] show ?thesis
      by (simp add: withForwarding_def Some)
  qed (simp add: withForwarding_def)
qed

lemma hget_cong: "map_of h (canonicalKey k) = map_of h' (canonicalKey k) \<Longrightarrow> hget h k = hget h' k"
  by (simp add: hget_lookup)

lemma withVia_rewritten:
  assumes q: "q = v\<lparr>req_Header := h\<rparr>"
    and h: "\<And>k. k \<notin> addedKeys - {headerVia} \<Longrightarrow> map_of h k = map_of (req_Header v) k"
    and wf: "wf_header (req_Header v) \<Longrightarrow> wf_header h"
  shows "rewritten cfg v (withVia cfg q)"
    and "credentials (withVia cfg q) = credentials q"
proof -
  have "hget h headerVia = hget (req_Header v) headerVia"
    by (rule hget_cong) (simp add: h addedKeys_def)
  moreover have "map_of h k = map_of (req_Header v) k" if "k \<notin> addedKeys" for k
    using that h [of k] by auto
  moreover have "headerVia \<in> addedKeys" by (simp add: addedKeys_def)
  ultimately show "rewritten cfg v (withVia cfg q)"
    using wf by (auto simp: rewritten_def withVia_def setHeader_def q hget_injectVia lookup_injectVia wf_injectVia)
  show "credentials (withVia cfg q) = credentials q"
    by (simp add: credentials_def withVia_def setHeader_def hvalues_injectVia_other name_neqs)
qed

lemma validated_credentials:
  "validateRequest cfg r = Forward v \<Longrightarrow> credentials v = []"
  by (simp add: credentials_def hvalues_def hraw_def validateRequest_no_credentials)

lemma forwarding_names:
  "{headerForwarded, headerXForwardedFor, headerXForwardedProto, headerXForwardedHost}
     \<subseteq> addedKeys - {headerVia}"
  "headerProxyAuthorization \<in> addedKeys - {headerVia}"
  "headerProxyAuthorization \<notin> {headerForwarded, headerXForwardedFor, headerXForwardedProto, headerXForwardedHost}"
  by (auto simp: addedKeys_def name_neqs name_neqs [symmetric])

lemma withForwarding_lookup:
  "k \<notin> addedKeys - {headerVia} \<Longrightarrow>
     map_of (req_Header (withForwarding cfg env a st v)) k = map_of (req_Header v) k"
  using withForwarding_cases [of cfg env a st v] forwarding_names(1) by blast

lemma withForwarding_wf:
  "wf_header (req_Header v) \<Longrightarrow> wf_header (req_Header (withForwarding cfg env a st v))"
  by (auto simp: withForwarding_def intro: wf_injectForwardingHeaders split: option.splits)

lemma upstream_reused:
  assumes "validateRequest cfg r = Forward v"
  shows "rewritten cfg v (withVia cfg (withForwarding cfg env a st v))"
    and "credentials (withVia cfg (withForwarding cfg env a st v)) = []"
proof -
  let ?q = "withForwarding cfg env a st v"
  note w = withForwarding_cases [of cfg env a st v]
  note rw = withVia_rewritten [OF conjunct1 [OF w] withForwarding_lookup withForwarding_wf]
  show "rewritten cfg v (withVia cfg ?q)" by (rule rw)
  have "credentials ?q = credentials v"
    using w forwarding_names(3) by (simp add: credentials_def hvalues_def hraw_def)
  with rw(2) validated_credentials [OF assms] show "credentials (withVia cfg ?q) = []" by simp
qed

lemma upstream_fresh:
  "rewritten cfg v (withVia cfg (withToken token (withForwarding cfg env a st v)))"
  "env_token env t = Inr token \<Longrightarrow> authenticated env (withVia cfg (withToken token (withForwarding cfg env a st v)))"
proof -
  let ?f = "withForwarding cfg env a st v"
  let ?q = "withToken token ?f"
  note w = withForwarding_cases [of cfg env a st v]
  have q: "?q = v\<lparr>req_Header := req_Header ?q\<rparr>"
    by (subst conjunct1 [OF w]) (simp add: withToken_def setHeader_def)
  have h: "map_of (req_Header ?q) k = map_of (req_Header v) k" if "k \<notin> addedKeys - {headerVia}" for k
    using withForwarding_lookup [OF that] that forwarding_names(2)
    by (auto simp: withToken_def setHeader_def hs.lookup_put)
  have wf: "wf_header (req_Header ?q)" if "wf_header (req_Header v)"
    using withForwarding_wf [OF that] by (simp add: withToken_def setHeader_def hs.invar_put)
  show "rewritten cfg v (withVia cfg ?q)" by (rule withVia_rewritten [OF q h wf])
  have "credentials ?q = [negotiateScheme @ token]"
    by (simp add: credentials_def withToken_def setHeader_def hvalues_hset)
  with withVia_rewritten(2) [OF q h wf] show "env_token env t = Inr token \<Longrightarrow> authenticated env (withVia cfg ?q)"
    by (auto simp: authenticated_def)
qed

section \<open>The upstream path\<close>

lemma handleDialError_follows:
  assumes "follows cfg env st m" "is_busy m" "\<not> m_cancelled m"
  shows "follows cfg env (handleDialError e (emit (EDialFailed t) st)) (m\<lparr>m_phase := Over\<rparr>)"
  unfolding handleDialError_def
  by (intro follows_error follows_emit [OF assms(1)]) (simp_all add: assms)

lemma dialAndAuthUpstream_follows:
  assumes f: "follows cfg env st m" and busy: "m_phase m = Busy r" "\<not> m_cancelled m"
    and r: "forwardable cfg r" "\<not> bypasses cfg env (req_Host r)"
    and d: "dialAndAuthUpstream cfg env st req = (mln, req1, st')"
  shows "\<exists>m'. follows cfg env st' m' \<and>
    (case mln of
       None \<Rightarrow> m_links m' = m_links m
     | Some ln \<Rightarrow> m' = m\<lparr>m_links := (m_links m)(ln_id ln \<mapsto> UpstreamLink False)\<rparr> \<and>
         m_links m (ln_id ln) = None \<and> (\<exists>t token. env_token env t = Inr token \<and> req1 = withToken token req))"
proof -
  have b: "is_busy m" by (simp add: is_busy_def busy)
  have tok: "follows cfg env (emit (EToken t) st) m" for t
    by (rule follows_emit [OF f]) (simp_all add: busy r)
  show ?thesis
  proof (cases "env_token env (moment st)")
    case (Inl e)
    with d follows_error [OF tok disjI2 [OF b]] show ?thesis
      by (intro exI [of _ "m\<lparr>m_phase := Over\<rparr>"]) (auto simp: dialAndAuthUpstream_def)
  next
    case (Inr token)
    let ?st1 = "emit (EToken True) st"
    let ?t = "Suc (moment st)"
    let ?d = "do_result (dialUpstream (env_dial env ?t) (env_handshake env ?t) (env_clock env ?t)
       (cfg_Upstream cfg) (cfg_UpstreamTLS cfg))"
    show ?thesis
    proof (cases ?d)
      case (Inl e)
      with d Inr handleDialError_follows [OF tok b busy(2)] show ?thesis
        by (intro exI [of _ "m\<lparr>m_phase := Over\<rparr>"]) (auto simp: dialAndAuthUpstream_def Let_def)
    next
      case conn: (Inr conn)
      let ?m = "m\<lparr>m_links := (m_links m)(?t \<mapsto> UpstreamLink False)\<rparr>"
      have fresh: "m_links m ?t = None"
        using f by (force simp: follows_def)
      have "follows cfg env (emit (EDialUpstream ?t) ?st1) ?m"
        by (rule follows_emit [OF tok]) (auto simp: busy r fresh split: if_splits)
      then have "follows cfg env st' ?m" "\<exists>ln. mln = Some ln \<and> ln_id ln = ?t" "req1 = withToken token req"
        using d Inr conn follows_keepAlive [of cfg env _ ?m ?t, OF _ _ sockOf_dialUpstream [OF conn]]
        by (auto simp: dialAndAuthUpstream_def Let_def upstreamLink_def)
      with fresh Inr show ?thesis
        by (intro exI [of _ ?m]) (auto intro!: exI [of _ "moment st"] exI [of _ token])
    qed
  qed
qed

definition base_links :: "ClientSession \<Rightarrow> nat \<rightharpoonup> link_kind" where
  "base_links st = (case cs_proxyConn st of None \<Rightarrow> Map.empty | Some ln \<Rightarrow> [ln_id ln \<mapsto> UpstreamLink True])"

lemma send_follows:
  assumes "follows cfg env st m" "m_phase m = Busy r" "\<not> m_cancelled m" "m_links m c = Some kind"
    "may_send cfg env r kind form q"
  shows "follows cfg env (emit (ESend c form q) st) (m\<lparr>m_links := (m_links m)(c \<mapsto> sent_on kind)\<rparr>)"
  by (rule follows_emit [OF assms(1)]) (auto simp: assms split: if_splits)

lemma acquireUpstream_follows:
  assumes f: "follows cfg env st m" and busy: "m_phase m = Busy r" "\<not> m_cancelled m"
    and v: "validateRequest cfg r = Forward v" and np: "\<not> bypasses cfg env (req_Host r)"
    and meth: "req_Method r \<noteq> methodConnect" and base: "m_links m = base_links st"
    and a: "acquireUpstream cfg env st (withForwarding cfg env addr st v) = (mln, req1, st1)"
  shows "\<exists>m1. follows cfg env st1 m1 \<and> cs_proxyConn st1 = mln \<and>
    (case mln of
       None \<Rightarrow> m_links m1 = Map.empty
     | Some ln \<Rightarrow> \<exists>used. m1 = m\<lparr>m_links := [ln_id ln \<mapsto> UpstreamLink used]\<rparr> \<and>
         may_send cfg env r (UpstreamLink used) ProxyForm (withVia cfg req1))"
proof (cases "cs_proxyConn st")
  case (Some ln)
  with a have eq: "mln = Some ln" "req1 = withForwarding cfg env addr st v" "st1 = st"
    by (auto simp: acquireUpstream_def)
  have "may_send cfg env r (UpstreamLink True) ProxyForm (withVia cfg req1)"
    using upstream_reused [OF v] np meth by (simp add: may_send_def v eq)
  moreover have "m = m\<lparr>m_links := [ln_id ln \<mapsto> UpstreamLink True]\<rparr>"
    using base Some by (cases m) (simp add: base_links_def)
  ultimately show ?thesis using f eq Some by auto
next
  case None
  obtain st2 where d: "dialAndAuthUpstream cfg env st (withForwarding cfg env addr st v) = (mln, req1, st2)"
    and st1: "st1 = st2\<lparr>cs_proxyConn := mln\<rparr>"
    using a None by (auto simp: acquireUpstream_def split: prod.splits)
  have fw: "forwardable cfg r" by (simp add: forwardable_def v)
  from dialAndAuthUpstream_follows [OF f busy fw np d] obtain m' where m': "follows cfg env st2 m'"
    "case mln of None \<Rightarrow> m_links m' = m_links m
     | Some ln \<Rightarrow> m' = m\<lparr>m_links := (m_links m)(ln_id ln \<mapsto> UpstreamLink False)\<rparr> \<and>
         m_links m (ln_id ln) = None \<and> (\<exists>t token. env_token env t = Inr token \<and> req1 = withToken token (withForwarding cfg env addr st v))"
    by blast
  have empty: "m_links m = Map.empty" using base None by (simp add: base_links_def)
  show ?thesis
  proof (cases mln)
    case (Some ln)
    with m'(2) empty obtain t token where "m' = m\<lparr>m_links := [ln_id ln \<mapsto> UpstreamLink False]\<rparr>"
      "env_token env t = Inr token" "req1 = withToken token (withForwarding cfg env addr st v)" by auto
    moreover from this(2,3) have "may_send cfg env r (UpstreamLink False) ProxyForm (withVia cfg req1)"
      using upstream_fresh np by (simp add: may_send_def v)
    ultimately show ?thesis using m'(1) Some st1 by auto
  qed (use m' empty st1 in auto)
qed

lemma rewritten_frame:
  "rewritten cfg v q \<Longrightarrow> req_ProtoMajor q = req_ProtoMajor v \<and> req_ProtoMinor q = req_ProtoMinor v \<and>
     req_Close q = req_Close v \<and> req_Method q = req_Method v"
  by (auto simp: rewritten_def) (metis request.ext_inject request.surjective request.update_convs(7))+

lemma connectionWillClose_cong:
  assumes "validateRequest cfg r = Forward v" "rewritten cfg v q \<or> q = withVia cfg v"
  shows "connectionWillClose q resp = connectionWillClose r resp" "req_Method q = req_Method r"
proof -
  have "req_ProtoMajor q = req_ProtoMajor v \<and> req_ProtoMinor q = req_ProtoMinor v \<and>
     req_Close q = req_Close v \<and> req_Method q = req_Method v"
    using assms(2) rewritten_frame by (auto simp: withVia_def setHeader_def)
  then show "connectionWillClose q resp = connectionWillClose r resp" "req_Method q = req_Method r"
    using validateRequest_frame [OF assms(1)] by (simp_all add: connectionWillClose_def)
qed

text \<open>How both relay functions end: they give up (perhaps after an error answer), or write the
  response and go on only if neither side closes.\<close>

definition relay_ends ::
    "env \<Rightarrow> ClientSession \<Rightarrow> request \<Rightarrow> bool \<Rightarrow> ClientSession \<Rightarrow> bool" where
  "relay_ends env st q ok st' \<longleftrightarrow>
     \<not> ok \<and> (st' = st \<or> (\<exists>pe. st' = emit (EError pe) st)) \<or>
     (\<exists>resp werr resp1. writeResponse env st resp = (werr, resp1, st') \<and> (ok \<longrightarrow> \<not> connectionWillClose q resp1))"

lemma relay_ends_follows:
  assumes f: "follows cfg env st m" and busy: "m_phase m = Busy r" "\<not> m_cancelled m"
    and v: "validateRequest cfg r = Forward v" "rewritten cfg v q \<or> q = withVia cfg v"
    and meth: "req_Method r \<noteq> methodConnect" and e: "relay_ends env st q ok st'"
  shows "\<exists>m'. follows cfg env st' m' \<and> m_links m' = m_links m \<and> cs_proxyConn st' = cs_proxyConn st \<and>
    (ok \<longrightarrow> m_phase m' = Ready \<and> \<not> m_cancelled m')"
proof -
  have b: "is_busy m" by (simp add: is_busy_def busy)
  from e consider "\<not> ok" "st' = st" | pe where "\<not> ok" "st' = emit (EError pe) st"
    | resp werr resp1 where "writeResponse env st resp = (werr, resp1, st')"
        "ok \<longrightarrow> \<not> connectionWillClose q resp1"
    by (auto simp: relay_ends_def)
  then show ?thesis
  proof cases
    case 1
    with f show ?thesis by blast
  next
    case 2
    with follows_error [OF f disjI2 [OF b]] show ?thesis
      by (intro exI [of _ "m\<lparr>m_phase := Over\<rparr>"]) (simp add: emit_def)
  next
    case 3
    moreover have "cs_proxyConn st' = cs_proxyConn st"
      using 3(1) by (auto simp: writeResponse_def pollDone_def emit_def Let_def)
    ultimately show ?thesis
      using writeResponse_follows [OF f busy 3(1)] connectionWillClose_cong [OF v] meth by auto
  qed
qed

lemma relayViaUpstream_ends:
  assumes "acquireUpstream cfg env st (withForwarding cfg env addr st v) = (Some ln, req1, st1)"
    and "relayViaUpstream cfg env addr st v = (ok, st')"
  shows "\<exists>bss ln'. ln_id ln' = ln_id ln \<and>
    relay_ends env ((emits (map EInterim bss) (emit (ESend (ln_id ln) ProxyForm (withVia cfg req1)) st1))
      \<lparr>cs_proxyConn := Some ln'\<rparr>) (withVia cfg req1) ok st'"
proof -
  let ?ex = "exchangeRequest (withVia cfg req1) (env_write env (Suc (moment st1)))
    (ln_uploads ln (ln_sent ln)) (ln_stream ln)"
  show ?thesis
    using assms
    by (intro exI [of _ "ex_written ?ex"]
          exI [of _ "ln\<lparr>ln_sent := Suc (ln_sent ln), ln_stream := ex_rest ?ex\<rparr>"])
       (auto simp: relayViaUpstream_def Let_def relay_ends_def split: if_splits option.splits prod.splits)
qed

lemma relayViaUpstream_follows:
  assumes f: "follows cfg env st m" and busy: "m_phase m = Busy r" "\<not> m_cancelled m"
    and v: "validateRequest cfg r = Forward v" and np: "\<not> bypasses cfg env (req_Host r)"
    and meth: "req_Method r \<noteq> methodConnect" and base: "m_links m = base_links st"
    and rel: "relayViaUpstream cfg env addr st v = (ok, st')"
  shows "\<exists>m'. follows cfg env st' m' \<and> m_links m' = base_links st' \<and>
    (ok \<longrightarrow> m_phase m' = Ready \<and> \<not> m_cancelled m')"
proof -
  obtain mln req1 st1 where a: "acquireUpstream cfg env st (withForwarding cfg env addr st v) = (mln, req1, st1)"
    by (cases "acquireUpstream cfg env st (withForwarding cfg env addr st v)") auto
  from acquireUpstream_follows [OF f busy v np meth base a] obtain m1 where m1:
    "follows cfg env st1 m1" "cs_proxyConn st1 = mln"
    "case mln of None \<Rightarrow> m_links m1 = Map.empty
     | Some ln \<Rightarrow> \<exists>used. m1 = m\<lparr>m_links := [ln_id ln \<mapsto> UpstreamLink used]\<rparr> \<and>
         may_send cfg env r (UpstreamLink used) ProxyForm (withVia cfg req1)" by blast
  show ?thesis
  proof (cases mln)
    case None
    with a rel m1 show ?thesis
      by (auto simp: relayViaUpstream_def base_links_def)
  next
    case (Some ln)
    let ?q = "withVia cfg req1"
    let ?st2 = "emit (ESend (ln_id ln) ProxyForm ?q) st1"
    let ?m = "m\<lparr>m_links := [ln_id ln \<mapsto> UpstreamLink True]\<rparr>"
    from m1(3) Some obtain used where used: "m1 = m\<lparr>m_links := [ln_id ln \<mapsto> UpstreamLink used]\<rparr>"
      "may_send cfg env r (UpstreamLink used) ProxyForm ?q" by auto
    have "follows cfg env ?st2 (m1\<lparr>m_links := (m_links m1)(ln_id ln \<mapsto> sent_on (UpstreamLink used))\<rparr>)"
      by (rule send_follows [OF m1(1) _ _ _ used(2)]) (simp_all add: used busy)
    then have f2: "follows cfg env ?st2 ?m" by (simp add: used)
    from relayViaUpstream_ends [OF a [unfolded Some] rel] obtain bss ln' where e: "ln_id ln' = ln_id ln"
      "relay_ends env ((emits (map EInterim bss) ?st2)\<lparr>cs_proxyConn := Some ln'\<rparr>) ?q ok st'"
      by blast
    have rw: "rewritten cfg v ?q" using used(2) v by (simp add: may_send_def)
    have f3: "follows cfg env ((emits (map EInterim bss) ?st2)\<lparr>cs_proxyConn := Some ln'\<rparr>) ?m"
      using follows_interims [OF f2] by (simp add: is_busy_def busy)
    from relay_ends_follows [OF f3 _ _ v disjI1 [OF rw] meth e(2)] busy e(1)
    show ?thesis by (auto simp: base_links_def)
  qed
qed

section \<open>The direct path\<close>

lemma relayDirect_ends:
  assumes "relayDirect cfg env st ln q = (ok, ln', st')"
  shows "ln_id ln' = ln_id ln \<and>
    (\<exists>bss. relay_ends env (emits (map EInterim bss) (emit (ESend (ln_id ln) OriginForm q) st)) q ok st')"
proof -
  let ?ex = "exchangeRequest q (env_write env (Suc (moment st))) (ln_uploads ln (ln_sent ln)) (ln_stream ln)"
  have "relay_ends env (emits (map EInterim (ex_written ?ex)) (emit (ESend (ln_id ln) OriginForm q) st)) q ok st'"
    using assms
    by (auto simp: relayDirect_def Let_def relay_ends_def split: if_splits option.splits prod.splits)
  moreover have "ln_id ln' = ln_id ln"
    using assms by (auto simp: relayDirect_def Let_def split: if_splits option.splits prod.splits)
  ultimately show ?thesis by blast
qed

lemma relayDirect_follows:
  assumes f: "follows cfg env st m" and busy: "m_phase m = Busy r" "\<not> m_cancelled m"
    and v: "validateRequest cfg r = Forward v" and meth: "req_Method r \<noteq> methodConnect"
    and link: "m_links m (ln_id ln) = Some (DirectLink h ''80'')" and same: "sameHost (env_lower env) (req_Host r) h ''80''"
    and rel: "relayDirect cfg env st ln (withVia cfg v) = (ok, ln', st')"
  shows "\<exists>m'. follows cfg env st' m' \<and> m_links m' = m_links m \<and> cs_proxyConn st' = cs_proxyConn st \<and>
    (ok \<longrightarrow> m_phase m' = Ready \<and> \<not> m_cancelled m')"
proof -
  let ?st1 = "emit (ESend (ln_id ln) OriginForm (withVia cfg v)) st"
  have "may_send cfg env r (DirectLink h ''80'') OriginForm (withVia cfg v)"
    by (simp add: may_send_def v meth same)
  from send_follows [OF f busy link this] have f1: "follows cfg env ?st1 m"
    using link by (simp add: fun_upd_idem)
  from relayDirect_ends [OF rel] obtain bss where
    e: "relay_ends env (emits (map EInterim bss) ?st1) (withVia cfg v) ok st'" by blast
  have f2: "follows cfg env (emits (map EInterim bss) ?st1) m"
    by (rule follows_interims [OF f1]) (simp add: is_busy_def busy)
  from relay_ends_follows [OF f2 busy v disjI2 [OF refl] meth e] show ?thesis
    by (simp add: emits_def emit_def)
qed

lemma readRequest_proxyConn:
  "readRequest env st = (res, st') \<Longrightarrow> cs_proxyConn st' = cs_proxyConn st"
  by (auto simp: readRequest_def pollDone_def emit_def Let_def split: if_splits list.splits sum.splits)

lemma nextDirectRequest_follows:
  assumes f: "follows cfg env st m" and ready: "m_phase m = Ready" "\<not> m_cancelled m"
    and n: "nextDirectRequest cfg env st h = (res, st')"
  shows "\<exists>m'. follows cfg env st' m' \<and> m_links m' = m_links m \<and> cs_proxyConn st' = cs_proxyConn st \<and>
    (case res of
       None \<Rightarrow> True
     | Some (q, True) \<Rightarrow> m' = m\<lparr>m_phase := Busy q\<rparr>
     | Some (q, False) \<Rightarrow>
         (\<exists>r v. m' = m\<lparr>m_phase := Busy r\<rparr> \<and> validateRequest cfg r = Forward v \<and> q = withVia cfg v \<and>
            sameHost (env_lower env) (req_Host r) h ''80'' \<and> req_Method r \<noteq> methodConnect))"
proof -
  obtain rr st1 where rd: "readRequest env st = (rr, st1)" by (cases "readRequest env st")
  from readRequest_follows [OF f ready rd] obtain m1 where m1: "follows cfg env st1 m1"
    "m_links m1 = m_links m"
    "case rr of Inr req \<Rightarrow> m1 = m\<lparr>m_phase := Busy req\<rparr> | Inl _ \<Rightarrow> m_phase m1 = Ready" by blast
  note pc = readRequest_proxyConn [OF rd]
  show ?thesis
  proof (cases rr)
    case (Inl e)
    with n rd m1 pc show ?thesis by (auto simp: nextDirectRequest_def)
  next
    case (Inr req)
    with m1 have m1': "m1 = m\<lparr>m_phase := Busy req\<rparr>" by simp
    have err: "follows cfg env (emit (EError pe) st1) (m\<lparr>m_phase := Over\<rparr>)" for pe
      using follows_error [OF m1(1)] by (simp add: m1' is_busy_def)
    show ?thesis
    proof (cases "sameHost (env_lower env) (req_Host req) h ''80''")
      case False
      with n rd Inr m1 m1' pc show ?thesis by (auto simp: nextDirectRequest_def)
    next
      case same: True
      show ?thesis
      proof (cases "validateRequest cfg req")
        case (Forward v)
        note frame = validateRequest_frame(1) [OF Forward]
        show ?thesis
        proof (cases "req_Method req = methodConnect")
          case True
          with n rd Inr same Forward err pc frame show ?thesis
            by (auto simp: nextDirectRequest_def emit_def intro!: exI [of _ "m\<lparr>m_phase := Over\<rparr>"])
        next
          case False
          with n rd Inr same Forward frame have "res = Some (withVia cfg v, False)" "st' = st1"
            by (auto simp: nextDirectRequest_def)
          moreover have "\<exists>r v'. m1 = m\<lparr>m_phase := Busy r\<rparr> \<and> validateRequest cfg r = Forward v' \<and>
            withVia cfg v = withVia cfg v' \<and> sameHost (env_lower env) (req_Host r) h ''80'' \<and>
            req_Method r \<noteq> methodConnect"
            using m1' Forward same False by blast
          ultimately show ?thesis using m1(1,2) pc by auto
        qed
      next
        case (Answered resp)
        have "follows cfg env (emit (EMaxForwards resp) st1) (m\<lparr>m_phase := Over\<rparr>)"
          by (rule follows_emit [OF m1(1)]) (simp_all add: m1' Answered)
        with n rd Inr same Answered pc show ?thesis
          by (auto simp: nextDirectRequest_def emit_def intro!: exI [of _ "m\<lparr>m_phase := Over\<rparr>"])
      next
        case (Rejected pe)
        with n rd Inr same err pc show ?thesis
          by (auto simp: nextDirectRequest_def emit_def intro!: exI [of _ "m\<lparr>m_phase := Over\<rparr>"])
      qed
    qed
  qed
qed

lemma forwardDirectLoop_follows:
  assumes "follows cfg env st m" "m_phase m = Busy r" "\<not> m_cancelled m"
    "validateRequest cfg r = Forward v" "req_Method r \<noteq> methodConnect"
    "m_links m (ln_id ln) = Some (DirectLink h ''80'')" "sameHost (env_lower env) (req_Host r) h ''80''"
    "forwardDirectLoop cfg env h st ln (withVia cfg v) = (nxt, cont, st')"
  shows "\<exists>m'. follows cfg env st' m' \<and> m_links m' = m_links m \<and> cs_proxyConn st' = cs_proxyConn st \<and>
    (cont \<longrightarrow> (\<exists>q. nxt = Some q \<and> m_phase m' = Busy q \<and> \<not> m_cancelled m'))"
  using assms
proof (induction "length (cs_reqReader st)" arbitrary: st m r v ln rule: less_induct)
  case less
  obtain ok ln1 st1 where rel: "relayDirect cfg env st ln (withVia cfg v) = (ok, ln1, st1)"
    by (cases "relayDirect cfg env st ln (withVia cfg v)") auto
  note unfold = forwardDirectLoop.simps [of cfg env h st ln "withVia cfg v"]
  from relayDirect_follows [OF less.prems(1-7) rel] obtain m1 where m1: "follows cfg env st1 m1"
    "m_links m1 = m_links m" "cs_proxyConn st1 = cs_proxyConn st"
    "ok \<longrightarrow> m_phase m1 = Ready \<and> \<not> m_cancelled m1" by blast
  note id = relayDirect_ends [OF rel]
  show ?case
  proof (cases ok)
    case False
    with less.prems(8) rel m1 show ?thesis by (auto simp: unfold)
  next
    case True
    with m1(4) have ready: "m_phase m1 = Ready" "\<not> m_cancelled m1" by simp_all
    obtain nx st2 where n: "nextDirectRequest cfg env st1 h = (nx, st2)"
      by (cases "nextDirectRequest cfg env st1 h") auto
    from nextDirectRequest_follows [OF m1(1) ready n] obtain m2 where m2: "follows cfg env st2 m2"
      "m_links m2 = m_links m1" "cs_proxyConn st2 = cs_proxyConn st1"
      "case nx of None \<Rightarrow> True | Some (q, True) \<Rightarrow> m2 = m1\<lparr>m_phase := Busy q\<rparr>
       | Some (q, False) \<Rightarrow> (\<exists>r v. m2 = m1\<lparr>m_phase := Busy r\<rparr> \<and> validateRequest cfg r = Forward v \<and>
           q = withVia cfg v \<and> sameHost (env_lower env) (req_Host r) h ''80'' \<and> req_Method r \<noteq> methodConnect)"
      by blast
    consider "nx = None" | q where "nx = Some (q, True)" | q where "nx = Some (q, False)"
      by (metis (full_types) not_None_eq surj_pair)
    then show ?thesis
    proof cases
      case 3
      with m2(4) obtain r' v' where rv: "m2 = m1\<lparr>m_phase := Busy r'\<rparr>" "validateRequest cfg r' = Forward v'"
        "q = withVia cfg v'" "sameHost (env_lower env) (req_Host r') h ''80''" "req_Method r' \<noteq> methodConnect"
        by auto
      have dec: "length (cs_reqReader st2) < length (cs_reqReader st)"
        using nextDirectRequest_consumes [OF n [unfolded 3]] relayDirect_reader [OF rel] by simp
      have fd: "forwardDirectLoop cfg env h st2 ln1 (withVia cfg v') = (nxt, cont, st')"
        using less.prems(8) rel n True 3 rv(3) by (simp add: unfold)
      have "\<exists>m'. follows cfg env st' m' \<and> m_links m' = m_links m2 \<and> cs_proxyConn st' = cs_proxyConn st2 \<and>
         (cont \<longrightarrow> (\<exists>q. nxt = Some q \<and> m_phase m' = Busy q \<and> \<not> m_cancelled m'))"
        by (rule less.hyps [OF dec m2(1) _ _ rv(2,5) _ rv(4) fd])
           (use rv ready m1 m2 id less.prems(6) in auto)
      with m1 m2 show ?thesis by auto
    qed (use less.prems(8) rel n True m1 m2 ready in \<open>auto simp: unfold\<close>)
  qed
qed

lemma forwardDirect_follows:
  assumes f: "follows cfg env st m" and busy: "m_phase m = Busy r" "\<not> m_cancelled m"
    and v: "validateRequest cfg r = Forward v" and meth: "req_Method r \<noteq> methodConnect"
    and np: "bypasses cfg env (req_Host r)"
    and fd: "forwardDirect cfg env st (withVia cfg v) = (nxt, cont, st')"
  shows "\<exists>m'. follows cfg env st' m' \<and> m_links m' = m_links m \<and> cs_proxyConn st' = cs_proxyConn st \<and>
    (cont \<longrightarrow> (\<exists>q. nxt = Some q \<and> m_phase m' = Busy q \<and> \<not> m_cancelled m'))"
proof -
  have host: "req_Host (withVia cfg v) = req_Host r"
    using validateRequest_frame [OF v] by (simp add: withVia_def setHeader_def)
  let ?t = "dialTarget (req_Host r) ''80''"
  let ?d = "env_dial env (moment st) \<lparr>nd_Timeout = cfg_DialTimeout cfg, nd_Deadline = None\<rparr> None ?t"
  show ?thesis
  proof (cases ?d)
    case (Inl e)
    have "is_busy m" by (simp add: is_busy_def busy)
    from handleDialError_follows [OF f this busy(2)] Inl fd host show ?thesis
      by (intro exI [of _ "m\<lparr>m_phase := Over\<rparr>"])
         (auto simp: forwardDirect_def dialDirect_def Let_def handleDialError_def emit_def)
  next
    case (Inr p)
    let ?c = "moment st"
    let ?m = "m\<lparr>m_links := (m_links m)(?c \<mapsto> DirectLink (req_Host r) ''80'')\<rparr>"
    let ?st1 = "keepAliveBoth cfg env ?c TCPSock (emit (EDialDirect ?c ?t) st)"
    define ln where "ln = \<lparr>ln_id = ?c, ln_uploads = peer_uploads p, ln_sent = 0,
      ln_stream = map (directRead cfg) (peer_stream p)\<rparr>"
    have fresh: "m_links m ?c = None" using f by (force simp: follows_def)
    have "follows cfg env (emit (EDialDirect ?c ?t) st) ?m"
      by (rule follows_emit [OF f]) (auto simp: busy fresh forwardable_def v np meth direct_port_def split: if_splits)
    then have f1: "follows cfg env ?st1 ?m" by (rule follows_keepAlive) (simp, simp)
    obtain nx ct st2 where l: "forwardDirectLoop cfg env (req_Host r) ?st1 ln (withVia cfg v) = (nx, ct, st2)"
      by (cases "forwardDirectLoop cfg env (req_Host r) ?st1 ln (withVia cfg v)") auto
    have "\<exists>m'. follows cfg env st2 m' \<and> m_links m' = m_links ?m \<and> cs_proxyConn st2 = cs_proxyConn ?st1 \<and>
      (ct \<longrightarrow> (\<exists>q. nx = Some q \<and> m_phase m' = Busy q \<and> \<not> m_cancelled m'))"
      by (rule forwardDirectLoop_follows [OF f1 _ _ v meth _ _ l])
         (simp_all add: busy ln_def sameHost_def)
    then obtain m' where m': "follows cfg env st2 m'" "m_links m' = m_links ?m"
      "cs_proxyConn st2 = cs_proxyConn st" "ct \<longrightarrow> (\<exists>q. nx = Some q \<and> m_phase m' = Busy q \<and> \<not> m_cancelled m')"
      by (auto simp: keepAliveBoth_def enableKeepAlive_def emit_def split: if_splits sock.splits)
    have "follows cfg env (emit (EClose ?c) st2) (m'\<lparr>m_links := m_links m\<rparr>)"
      by (rule follows_emit [OF m'(1)]) (use m'(2) fresh in \<open>auto simp: fun_upd_idem\<close>)
    moreover have "nxt = nx" "cont = ct" "st' = emit (EClose ?c) st2"
      using fd Inr host l by (auto simp: forwardDirect_def dialDirect_def Let_def ln_def)
    ultimately show ?thesis
      using m' by (intro exI [of _ "m'\<lparr>m_links := m_links m\<rparr>"]) (auto simp: emit_def)
  qed
qed

section \<open>Tunnels\<close>

lemma connectOK_follows:
  assumes f: "follows cfg env st m" and busy: "m_phase m = Busy r"
    and r: "req_Method r = methodConnect" "forwardable cfg r"
    and resp: "200 \<le> resp_StatusCode resp" "resp_StatusCode resp < 300"
  shows "follows cfg env (emit (EConnectOK resp) st) (m\<lparr>m_phase := Opened r\<rparr>)"
  by (rule follows_emit [OF f]) (simp_all add: busy r resp)

lemma tunnel_follows:
  assumes "follows cfg env st m" "m_phase m = Opened r" "\<not> m_cancelled m" "m_links m c = Some k"
    "may_tunnel cfg env r k"
  shows "follows cfg env (emit (ETunnel c t) st) (m\<lparr>m_phase := Over\<rparr>)"
  by (rule follows_emit [OF assms(1)]) (simp_all add: assms)

lemma close_follows:
  assumes "follows cfg env st m" "m_links m = L(c \<mapsto> k)" "L c = None"
  shows "\<exists>m'. follows cfg env (emit (EClose c) st) m' \<and> m_links m' = L"
proof -
  have "follows cfg env (emit (EClose c) st) (m\<lparr>m_links := (m_links m)(c := None)\<rparr>)"
    by (rule follows_emit [OF assms(1)]) (auto simp: assms split: if_splits)
  then show ?thesis
    by (intro exI [of _ "m\<lparr>m_links := (m_links m)(c := None)\<rparr>"]) (simp add: assms fun_upd_idem)
qed

lemma handleConnectTunnel_follows:
  assumes f: "follows cfg env st m" and busy: "m_phase m = Busy r" "\<not> m_cancelled m"
    and r: "req_Method r = methodConnect" "forwardable cfg r" "\<not> bypasses cfg env (req_Host r)"
    and link: "m_links m (ln_id ln) = Some (UpstreamLink True)"
  shows "\<exists>m'. follows cfg env (handleConnectTunnel cfg env st ln q) m' \<and> m_links m' = m_links m"
proof -
  let ?rd = "readThroughInterim q (env_write env (moment st)) (ln_stream ln) []"
  let ?st1 = "emits (map EInterim (rr_written ?rd)) st"
  have b: "is_busy m" by (simp add: is_busy_def busy)
  note f1 = follows_interims [OF f b, of "rr_written ?rd"]
  show ?thesis
  proof (cases "rr_outcome ?rd")
    case (Final resp)
    show ?thesis
    proof (cases "resp_StatusCode resp < 200 \<or> resp_StatusCode resp \<ge> 300")
      case True
      have "follows cfg env (emit (ERespond resp) ?st1) (m\<lparr>m_phase := Over\<rparr>)"
        by (rule follows_emit [OF f1]) (simp_all add: busy r)
      with True Final show ?thesis
        by (intro exI [of _ "m\<lparr>m_phase := Over\<rparr>"]) (auto simp: handleConnectTunnel_def Let_def)
    next
      case False
      then have ok: "follows cfg env (emit (EConnectOK resp) ?st1) (m\<lparr>m_phase := Opened r\<rparr>)"
        by (intro connectOK_follows [OF f1 busy(1) r(1,2)]) simp_all
      have "follows cfg env (emit (ETunnel (ln_id ln) t) (emit (EConnectOK resp) ?st1)) (m\<lparr>m_phase := Over\<rparr>)" for t
        using tunnel_follows [OF ok, where r = r] busy link r by (simp add: may_tunnel_def)
      with ok False Final show ?thesis
        by (intro exI [of _ "m\<lparr>m_phase :=
              if env_write env (Suc (moment ?st1)) 0 = None then Over else Opened r\<rparr>"])
           (auto simp: handleConnectTunnel_def Let_def)
    qed
  next
    case (ClientWriteErr e)
    with f1 show ?thesis by (auto simp: handleConnectTunnel_def Let_def)
  next
    case (ReadErr e)
    with follows_error [OF f1 disjI2 [OF b]] show ?thesis
      by (auto simp: handleConnectTunnel_def Let_def intro!: exI [of _ "m\<lparr>m_phase := Over\<rparr>"])
  qed
qed

lemma tunnelViaUpstream_follows:
  assumes f: "follows cfg env st m" and busy: "m_phase m = Busy r" "\<not> m_cancelled m"
    and v: "validateRequest cfg r = Forward v" and meth: "req_Method r = methodConnect"
    and np: "\<not> bypasses cfg env (req_Host r)"
  shows "\<exists>m'. follows cfg env (tunnelViaUpstream cfg env addr st v) m' \<and> m_links m' = m_links m"
proof -
  let ?w = "withForwarding cfg env addr st v"
  have fw: "forwardable cfg r" by (simp add: forwardable_def v)
  obtain mln req1 st1 where d: "dialAndAuthUpstream cfg env st ?w = (mln, req1, st1)"
    by (cases "dialAndAuthUpstream cfg env st ?w") auto
  from dialAndAuthUpstream_follows [OF f busy fw np d] obtain m1 where m1: "follows cfg env st1 m1"
    "case mln of None \<Rightarrow> m_links m1 = m_links m
     | Some ln \<Rightarrow> m1 = m\<lparr>m_links := (m_links m)(ln_id ln \<mapsto> UpstreamLink False)\<rparr> \<and>
         m_links m (ln_id ln) = None \<and> (\<exists>t token. env_token env t = Inr token \<and> req1 = withToken token ?w)"
    by blast
  show ?thesis
  proof (cases mln)
    case None
    with d m1 show ?thesis by (auto simp: tunnelViaUpstream_def)
  next
    case (Some ln)
    let ?q = "withVia cfg req1"
    let ?st2 = "emit (ESend (ln_id ln) ProxyForm ?q) st1"
    let ?m = "m\<lparr>m_links := (m_links m)(ln_id ln \<mapsto> UpstreamLink True)\<rparr>"
    let ?st3 = "if upload_err (ln_uploads ln 0) \<noteq> None then emit (EError errConnectionTerminated) ?st2
      else handleConnectTunnel cfg env ?st2 ln ?q"
    from m1(2) Some obtain n token where
      t: "m1 = m\<lparr>m_links := (m_links m)(ln_id ln \<mapsto> UpstreamLink False)\<rparr>"
      "m_links m (ln_id ln) = None" "req1 = withToken token ?w" "env_token env n = Inr token" by auto
    have "may_send cfg env r (UpstreamLink False) ProxyForm ?q"
      using upstream_fresh(1) upstream_fresh(2) [OF t(4)] np by (simp add: may_send_def v t(3))
    from send_follows [OF m1(1) _ _ _ this, of "ln_id ln"] have f2: "follows cfg env ?st2 ?m"
      by (simp add: t(1) busy)
    have b: "m_phase ?m = Busy r" "\<not> m_cancelled ?m" "m_links ?m (ln_id ln) = Some (UpstreamLink True)"
      using busy by simp_all
    have err: "follows cfg env (emit (EError pe) ?st2) (?m\<lparr>m_phase := Over\<rparr>)" for pe
      by (rule follows_error [OF f2]) (simp add: is_busy_def busy)
    from handleConnectTunnel_follows [OF f2 b(1,2) meth fw np b(3)] err
    obtain m3 where "follows cfg env ?st3 m3" "m_links m3 = (m_links m)(ln_id ln \<mapsto> UpstreamLink True)"
      by (cases "upload_err (ln_uploads ln 0) = None") fastforce+
    from close_follows [OF this t(2)] show ?thesis
      by (simp add: tunnelViaUpstream_def d Some Let_def)
  qed
qed

lemma tunnelDirect_follows:
  assumes f: "follows cfg env st m" and busy: "m_phase m = Busy r" "\<not> m_cancelled m"
    and v: "validateRequest cfg r = Forward v" and meth: "req_Method r = methodConnect"
    and np: "bypasses cfg env (req_Host r)"
  shows "\<exists>m'. follows cfg env (tunnelDirect cfg env st v) m' \<and> m_links m' = m_links m"
proof -
  note frame = validateRequest_frame(2,3) [OF v]
  have fw: "forwardable cfg r" by (simp add: forwardable_def v)
  let ?t = "dialTarget (req_Host r) ''443''"
  let ?d = "env_dial env (moment st) \<lparr>nd_Timeout = cfg_DialTimeout cfg, nd_Deadline = None\<rparr> None ?t"
  show ?thesis
  proof (cases ?d)
    case (Inl e)
    have "is_busy m" by (simp add: is_busy_def busy)
    from handleDialError_follows [OF f this busy(2)] Inl frame show ?thesis
      by (intro exI [of _ "m\<lparr>m_phase := Over\<rparr>"]) (auto simp: tunnelDirect_def dialDirect_def Let_def)
  next
    case (Inr p)
    let ?c = "moment st"
    let ?m = "m\<lparr>m_links := (m_links m)(?c \<mapsto> DirectLink (req_Host r) ''443'')\<rparr>"
    let ?st1 = "emit (EDialDirect ?c ?t) st"
    have fresh: "m_links m ?c = None" using f by (force simp: follows_def)
    have f1: "follows cfg env ?st1 ?m"
      by (rule follows_emit [OF f]) (auto simp: busy fresh fw np meth direct_port_def split: if_splits)
    define resp where "resp = \<lparr>resp_StatusCode = 200, resp_Status = [], resp_Proto = [], resp_ProtoMajor = 1,
      resp_ProtoMinor = 1, resp_Header = injectVia [] (req_Proto r) (cfg_Pseudonym cfg),
      resp_TransferEncoding = [], resp_ContentLength = 0, resp_Close = False, resp_Body = []\<rparr>"
    let ?st2 = "emit (EConnectOK resp) ?st1"
    let ?st3 = "if env_write env (Suc (Suc (moment st))) 0 \<noteq> None then ?st2
      else emit (ETunnel ?c (cfg_IdleTimeout cfg)) (keepAliveBoth cfg env ?c TCPSock ?st2)"
    have f2: "follows cfg env ?st2 (?m\<lparr>m_phase := Opened r\<rparr>)"
      by (rule connectOK_follows [OF f1 _ meth fw]) (simp_all add: busy resp_def)
    have f3: "follows cfg env (emit (ETunnel ?c t) (keepAliveBoth cfg env ?c TCPSock ?st2)) (?m\<lparr>m_phase := Over\<rparr>)" for t
      using tunnel_follows [OF follows_keepAlive [OF f2, where c = ?c and conn = TCPSock], where r = r] busy
      by (simp add: may_tunnel_def)
    have eq: "tunnelDirect cfg env st v = emit (EClose ?c) ?st3"
      using Inr frame by (simp add: tunnelDirect_def dialDirect_def Let_def resp_def)
    obtain m3 where "follows cfg env ?st3 m3" "m_links m3 = (m_links m)(?c \<mapsto> DirectLink (req_Host r) ''443'')"
      using f2 f3 by (cases "env_write env (Suc (Suc (moment st))) 0 = None") fastforce+
    with close_follows [OF this fresh] eq show ?thesis by simp
  qed
qed

lemma tunnel_proxyConn:
  "cs_proxyConn (emit ev st) = cs_proxyConn st" "cs_proxyConn (emits evs st) = cs_proxyConn st"
  "cs_proxyConn (handleDialError e st) = cs_proxyConn st"
  "cs_proxyConn (keepAliveBoth cfg env c conn st) = cs_proxyConn st"
  "cs_proxyConn (handleConnectTunnel cfg env st ln q) = cs_proxyConn st"
  by (simp_all add: emit_def emits_def handleDialError_def keepAliveBoth_def enableKeepAlive_def
      handleConnectTunnel_def Let_def split: read_outcome.splits sock.splits)

lemma tunnels_proxyConn:
  "cs_proxyConn (tunnelDirect cfg env st v) = cs_proxyConn st"
  "cs_proxyConn (tunnelViaUpstream cfg env addr st v) = cs_proxyConn st"
  by (auto simp: tunnelDirect_def tunnelViaUpstream_def dialAndAuthUpstream_def Let_def tunnel_proxyConn
      split: prod.splits sum.splits option.splits)

section \<open>The session\<close>

lemma routeRequest_follows:
  assumes f: "follows cfg env st m" and busy: "m_phase m = Busy r" "\<not> m_cancelled m"
    and v: "validateRequest cfg r = Forward v" and base: "m_links m = base_links st"
    and rt: "routeRequest cfg env addr st v = (nxt, cont, st')"
  shows "\<exists>m'. follows cfg env st' m' \<and> m_links m' = base_links st' \<and>
    (cont \<longrightarrow> \<not> m_cancelled m' \<and> m_phase m' = (case nxt of None \<Rightarrow> Ready | Some q \<Rightarrow> Busy q))"
proof -
  note frame = validateRequest_frame(1,2) [OF v]
  consider (td) "bypasses cfg env (req_Host r)" "req_Method r = methodConnect"
    | (fd) "bypasses cfg env (req_Host r)" "req_Method r \<noteq> methodConnect"
    | (tu) "\<not> bypasses cfg env (req_Host r)" "req_Method r = methodConnect"
    | (ru) "\<not> bypasses cfg env (req_Host r)" "req_Method r \<noteq> methodConnect" by blast
  then show ?thesis
  proof cases
    case td
    with tunnelDirect_follows [OF f busy v td(2,1)] rt frame base show ?thesis
      by (auto simp: routeRequest_def base_links_def tunnels_proxyConn)
  next
    case fd
    with rt frame have "forwardDirect cfg env st (withVia cfg v) = (nxt, cont, st')"
      by (simp add: routeRequest_def)
    from forwardDirect_follows [OF f busy v fd(2,1) this] base show ?thesis
      by (auto simp: base_links_def)
  next
    case tu
    with tunnelViaUpstream_follows [OF f busy v tu(2,1)] rt frame base show ?thesis
      by (auto simp: routeRequest_def base_links_def tunnels_proxyConn)
  next
    case ru
    with rt frame have "relayViaUpstream cfg env addr st v = (cont, st')" "nxt = None"
      by (auto simp: routeRequest_def split: prod.splits)
    with relayViaUpstream_follows [OF f busy v ru(1,2) base this(1)] show ?thesis by auto
  qed
qed

lemma nextPending_follows:
  assumes f: "follows cfg env st m" and m: "\<not> m_cancelled m"
    "m_phase m = (case pending of None \<Rightarrow> Ready | Some q \<Rightarrow> Busy q)"
    and n: "nextPending env st pending iter = (res, st')"
  shows "\<exists>m'. follows cfg env st' m' \<and> m_links m' = m_links m \<and> cs_proxyConn st' = cs_proxyConn st \<and>
    (case res of None \<Rightarrow> True | Some r \<Rightarrow> m_phase m' = Busy r \<and> \<not> m_cancelled m')"
proof (cases pending)
  case (Some q)
  with f m n show ?thesis by (auto simp: nextPending_def)
next
  case None
  obtain rr st1 where rd: "readRequest env st = (rr, st1)" by (cases "readRequest env st")
  note pc = readRequest_proxyConn [OF rd]
  from m None have ready: "m_phase m = Ready" by simp
  from readRequest_follows [OF f ready m(1) rd] obtain m1 where m1: "follows cfg env st1 m1"
    "m_links m1 = m_links m"
    "case rr of Inr req \<Rightarrow> m1 = m\<lparr>m_phase := Busy req\<rparr> | Inl _ \<Rightarrow> m_phase m1 = Ready" by blast
  show ?thesis
  proof (cases rr)
    case (Inr req)
    with None n rd m1 pc m show ?thesis by (auto simp: nextPending_def readNextRequest_def)
  next
    case (Inl e)
    with m1 have "m_phase m1 = Ready" by simp
    from follows_error [OF m1(1) disjI1 [OF this]]
    have "follows cfg env (emit (EError errHTTPRequestError) st1) (m1\<lparr>m_phase := Over\<rparr>)" .
    moreover have "res = None \<and> (st' = st1 \<or> st' = emit (EError errHTTPRequestError) st1)"
      using None n rd Inl by (auto simp: nextPending_def readNextRequest_def split: if_splits)
    ultimately show ?thesis
      using m1 pc by (elim conjE disjE) (auto simp: emit_def)
  qed
qed

lemma run_follows:
  assumes "follows cfg env st m" "\<not> m_cancelled m" "m_links m = base_links st"
    "m_phase m = (case pending of None \<Rightarrow> Ready | Some q \<Rightarrow> Busy q)"
  shows "\<exists>m'. follows cfg env (run cfg env addr st pending iter) m' \<and>
    m_links m' = base_links (run cfg env addr st pending iter)"
  using assms
proof (induction cfg env addr st pending iter arbitrary: m rule: run.induct)
  case (1 cfg env addr st pending iter)
  obtain res st1 where n: "nextPending env st pending iter = (res, st1)"
    by (cases "nextPending env st pending iter")
  note unfold = run.simps [of cfg env addr st pending iter]
  from nextPending_follows [OF "1.prems"(1,2,4) n] obtain m1 where m1: "follows cfg env st1 m1"
    "m_links m1 = m_links m" "cs_proxyConn st1 = cs_proxyConn st"
    "case res of None \<Rightarrow> True | Some r \<Rightarrow> m_phase m1 = Busy r \<and> \<not> m_cancelled m1" by blast
  have base: "m_links m1 = base_links st1"
    using m1(2,3) "1.prems"(3) by (simp add: base_links_def)
  show ?case
  proof (cases res)
    case None
    with n m1 base show ?thesis by (auto simp: unfold)
  next
    case (Some r)
    with m1(4) have busy: "m_phase m1 = Busy r" "\<not> m_cancelled m1" by simp_all
    show ?thesis
    proof (cases "validateRequest cfg r")
      case (Forward v)
      obtain nxt cont st2 where rt: "routeRequest cfg env addr st1 v = (nxt, cont, st2)"
        by (cases "routeRequest cfg env addr st1 v") auto
      from routeRequest_follows [OF m1(1) busy Forward base rt] obtain m2 where m2:
        "follows cfg env st2 m2" "m_links m2 = base_links st2"
        "cont \<longrightarrow> \<not> m_cancelled m2 \<and> m_phase m2 = (case nxt of None \<Rightarrow> Ready | Some q \<Rightarrow> Busy q)" by blast
      show ?thesis
      proof (cases cont)
        case True
        with "1.IH" [OF n [symmetric] Some Forward rt [symmetric] refl _ m2(1)] m2 n Some Forward rt
        show ?thesis by (simp add: unfold)
      next
        case False
        with m2 n Some Forward rt show ?thesis by (auto simp: unfold)
      qed
    next
      case (Answered resp)
      have "follows cfg env (emit (EMaxForwards resp) st1) (m1\<lparr>m_phase := Over\<rparr>)"
        by (rule follows_emit [OF m1(1)]) (simp_all add: busy Answered)
      with n Some Answered base show ?thesis
        by (intro exI [of _ "m1\<lparr>m_phase := Over\<rparr>"]) (simp add: unfold base_links_def emit_def)
    next
      case (Rejected pe)
      have "follows cfg env (emit (EError pe) st1) (m1\<lparr>m_phase := Over\<rparr>)"
        by (rule follows_error [OF m1(1)]) (simp add: is_busy_def busy)
      with n Some Rejected base show ?thesis
        by (intro exI [of _ "m1\<lparr>m_phase := Over\<rparr>"]) (simp add: unfold base_links_def emit_def)
    qed
  qed
qed

lemma handleClientCtx_follows:
  "\<exists>m. mon_run cfg env m_init (handleClientCtx cfg env addr reqs) = Some m \<and> m_links m = Map.empty"
proof (cases "cfg_Pseudonym cfg = [] \<or>
    cfg_AllowedIPs cfg \<noteq> [] \<and> \<not> ipAllowed (parseIP (extractHost addr)) (cfg_AllowedIPs cfg)")
  case True
  then show ?thesis by (auto simp: handleClientCtx_def closeClient_def m_init_def)
next
  case False
  let ?start = "\<lparr>cs_reqReader = reqs, cs_proxyConn = None, cs_trace = []\<rparr>"
  let ?st = "run cfg env addr ?start None 0"
  let ?st1 = "case cs_proxyConn ?st of None \<Rightarrow> ?st | Some ln \<Rightarrow> emit (EClose (ln_id ln)) ?st"
  have "follows cfg env ?start m_init" by (simp add: follows_def m_init_def)
  then have "\<exists>m. follows cfg env ?st m \<and> m_links m = base_links ?st"
    by (rule run_follows) (simp_all add: base_links_def m_init_def)
  then obtain m where m: "follows cfg env ?st m" "m_links m = base_links ?st" by blast
  have "\<exists>m'. follows cfg env ?st1 m' \<and> m_links m' = Map.empty"
  proof (cases "cs_proxyConn ?st")
    case (Some ln)
    with close_follows [OF m(1), of Map.empty "ln_id ln" "UpstreamLink True"] m(2) show ?thesis
      by (simp add: base_links_def)
  qed (use m in \<open>auto simp: base_links_def\<close>)
  then obtain m' where m': "mon_run cfg env m_init (cs_trace ?st1) = Some m'" "m_links m' = Map.empty"
    by (auto simp: follows_def)
  have "handleClientCtx cfg env addr reqs = cs_trace ?st1 @ closeClient env"
    using False by (auto simp: handleClientCtx_def Let_def)
  with m' show ?thesis by (simp add: mon_run_append closeClient_def)
qed

end
