(* ===== verification/Session_Safety.thy ===== *)
theory Session_Safety
  imports Session_Protocol
begin

text \<open>
  Properties of whole client sessions, read off the protocol machine of \<open>Session_Protocol\<close>: what is
  sent where and with which credentials, how requests and answers alternate, when a tunnel may start,
  what shutdown stops, and that every dialled connection is closed.
\<close>

section \<open>What the past of a trace says\<close>

definition last_read :: "event list \<Rightarrow> request option" where
  "last_read evs = fold (\<lambda>ev acc. case ev of ERead r \<Rightarrow> Some r | _ \<Rightarrow> acc) evs None"

text \<open>Whether a request was sent on \<open>c\<close> since it was last dialled.\<close>

definition sent_since_dial :: "nat \<Rightarrow> event list \<Rightarrow> bool" where
  "sent_since_dial c evs =
     fold (\<lambda>ev acc. case ev of
        EDialUpstream c' \<Rightarrow> (if c' = c then False else acc)
      | ESend c' _ _ \<Rightarrow> (if c' = c then True else acc)
      | _ \<Rightarrow> acc) evs False"

lemma last_read_snoc: "last_read (xs @ [ev]) = (case ev of ERead r \<Rightarrow> Some r | _ \<Rightarrow> last_read xs)"
  by (simp add: last_read_def split: event.splits)

lemma sent_since_dial_snoc:
  "sent_since_dial c (xs @ [ev]) =
     (case ev of
        EDialUpstream c' \<Rightarrow> (if c' = c then False else sent_since_dial c xs)
      | ESend c' _ _ \<Rightarrow> (if c' = c then True else sent_since_dial c xs)
      | _ \<Rightarrow> sent_since_dial c xs)"
  by (simp add: sent_since_dial_def split: event.splits)

lemma mon_run_snoc:
  "mon_run cfg env m (xs @ [ev]) = Some m' \<longleftrightarrow>
     (\<exists>m1. mon_run cfg env m xs = Some m1 \<and> mon_step cfg env m1 ev = Some m')"
  by (simp add: mon_run_append split: option.splits)

lemma busy_last_read:
  "mon_run cfg env m_init xs = Some m \<Longrightarrow> m_phase m = Busy r \<Longrightarrow> last_read xs = Some r"
proof (induction xs arbitrary: m rule: rev_induct)
  case Nil
  then show ?case by (auto simp: m_init_def)
next
  case (snoc ev xs)
  then obtain m1 where m1: "mon_run cfg env m_init xs = Some m1" "mon_step cfg env m1 ev = Some m"
    by (auto simp: mon_run_snoc)
  with snoc.IH [OF m1(1)] snoc.prems(2) show ?case
    by (cases ev) (auto simp: last_read_snoc split: if_splits phase.splits option.splits)
qed

definition touches_links :: "event \<Rightarrow> bool" where
  "touches_links ev =
     (case ev of ESend _ _ _ \<Rightarrow> True | EDialUpstream _ \<Rightarrow> True | EDialDirect _ _ \<Rightarrow> True | _ \<Rightarrow> False)"

lemma mon_step_links:
  assumes "mon_step cfg env m ev = Some m'" "\<not> touches_links ev" "m_links m' c = Some k"
  shows "m_links m c = Some k"
  using assms by (cases ev) (auto simp: touches_links_def split: phase.splits if_splits option.splits)

text \<open>What a connection's entry in the machine records of the past.\<close>

lemma links_history:
  "mon_run cfg env m_init xs = Some m \<Longrightarrow> m_links m c = Some k \<Longrightarrow>
     (case k of
        UpstreamLink used \<Rightarrow> EDialUpstream c \<in> set xs \<and> used = sent_since_dial c xs
      | DirectLink h p \<Rightarrow> EDialDirect c (dialTarget h p) \<in> set xs)"
proof (induction xs arbitrary: m k rule: rev_induct)
  case Nil
  then show ?case by (auto simp: m_init_def)
next
  case (snoc ev xs)
  then obtain m1 where m1: "mon_run cfg env m_init xs = Some m1" "mon_step cfg env m1 ev = Some m"
    by (auto simp: mon_run_snoc)
  note IH = snoc.IH [OF m1(1)]
  consider (send) c' form q where "ev = ESend c' form q" | (up) c' where "ev = EDialUpstream c'"
    | (dir) c' t where "ev = EDialDirect c' t" | (other) "\<not> touches_links ev"
    by (cases ev) (auto simp: touches_links_def)
  then show ?case
  proof cases
    case send
    with m1(2) obtain k' where k': "m_links m1 c' = Some k'" "m_links m = (m_links m1)(c' \<mapsto> sent_on k')"
      by (auto split: phase.splits option.splits if_splits)
    show ?thesis
    proof (cases "c' = c")
      case True
      with k' snoc.prems(2) IH [of k'] send show ?thesis
        by (cases k') (auto simp: sent_since_dial_snoc)
    next
      case False
      with k' snoc.prems(2) IH [of k] send show ?thesis
        by (auto simp: sent_since_dial_snoc split: link_kind.splits)
    qed
  next
    case up
    with m1(2) snoc.prems(2) IH show ?thesis
      by (cases "c' = c") (auto simp: sent_since_dial_snoc split: phase.splits if_splits link_kind.splits)
  next
    case dir
    with m1(2) snoc.prems(2) IH show ?thesis
      by (cases "c' = c") (auto simp: sent_since_dial_snoc split: phase.splits if_splits link_kind.splits)
  next
    case other
    from IH [OF mon_step_links [OF m1(2) other snoc.prems(2)]] other show ?thesis
      by (cases ev) (auto simp: sent_since_dial_snoc touches_links_def split: link_kind.splits)
  qed
qed

lemma session_split:
  assumes "handleClientCtx cfg env addr reqs = xs @ ev # ys"
  shows "\<exists>m m'. mon_run cfg env m_init xs = Some m \<and> mon_step cfg env m ev = Some m' \<and>
    (\<exists>m''. mon_run cfg env m' ys = Some m'' \<and> m_links m'' = Map.empty)"
  using handleClientCtx_follows [of cfg env addr reqs] assms
  by (auto simp: mon_run_append split: option.splits)

section \<open>Refinement\<close>

text \<open>C1: Every client session, in every environment, follows the protocol machine: a request is read
  only when the previous one was answered, sent only after validation and only on a connection it may
  use, answered once, a tunnel starts only after a successful CONNECT answer, nothing is started after
  shutdown was observed, and in the end no dialled connection is left open.\<close>

theorem session_refines_protocol:
  "\<exists>m. mon_run cfg env m_init (handleClientCtx cfg env addr reqs) = Some m \<and> m_links m = Map.empty"
  by (rule handleClientCtx_follows)

section \<open>Credentials and routing\<close>

lemma withVia_credentials: "credentials (withVia cfg v) = credentials v"
  by (simp add: credentials_def withVia_def setHeader_def hvalues_injectVia_other name_neqs)

lemma session_credentials:
  assumes "handleClientCtx cfg env addr reqs = xs @ ESend c form q # ys" "v \<in> set (credentials q)"
  shows "\<exists>t token. env_token env t = Inr token \<and> v = negotiateScheme @ token"
proof -
  from session_split [OF assms(1)] obtain m m' where "mon_step cfg env m (ESend c form q) = Some m'" by blast
  then obtain r k where "may_send cfg env r k form q" by (auto split: phase.splits option.splits if_splits)
  with assms(2) show ?thesis
    by (auto simp: may_send_def authenticated_def withVia_credentials validated_credentials
        split: verdict.splits link_kind.splits if_splits)
qed


section \<open>The shape of what is sent\<close>

lemma validateRequest_wf:
  assumes "validateRequest cfg r = Forward v" "wf_header (req_Header r)"
  shows "wf_header (req_Header v)"
proof -
  from sanitize_Forward [OF assms(1)] obtain r' where r': "applyMaxForwards r = Inr r'" "v = sanitizeHopByHop r'" by blast
  from r'(1) assms(2) have "wf_header (req_Header r')"
    by (auto simp: applyMaxForwards_def Let_def hs.invar_put split: if_splits option.splits)
  with r'(2) show ?thesis by (simp add: wf_sanitize)
qed

lemma validateRequest_hop:
  assumes "validateRequest cfg r = Forward v" "k \<in> canonicalKey ` set hopByHopNames"
  shows "map_of (req_Header v) k = None"
  using sanitize_Forward [OF assms(1)] by (auto simp: lookup_sanitize hopByHop_stripped [OF assms(2)])

lemma last_read_in: "last_read xs = Some r \<Longrightarrow> ERead r \<in> set xs"
proof (induction xs rule: rev_induct)
  case (snoc ev xs)
  then show ?case by (cases ev) (auto simp: last_read_snoc)
qed (simp add: last_read_def)

lemma hop_not_added: "list_all (\<lambda>n. n = headerProxyAuthorization \<or> canonicalKey n \<notin> addedKeys) hopByHopNames"
  by code_simp

text \<open>C19: What leaves the proxy is well typed. If the requests that were read have headers as the wire
  format gives them (distinct canonical names, each with a value), then so has every request that is
  sent, on any path; and none of the hop-by-hop fields Connection, Keep-Alive, Proxy-Connection, Te,
  Trailer and Upgrade is left in it.\<close>

theorem session_sends_typed:
  assumes "handleClientCtx cfg env addr reqs = xs @ ESend c form q # ys"
    and "\<And>r. ERead r \<in> set xs \<Longrightarrow> wf_header (req_Header r)"
  shows "wf_header (req_Header q) \<and>
    (\<forall>name. name \<in> set hopByHopNames - {headerProxyAuthorization} \<longrightarrow>
       map_of (req_Header q) (canonicalKey name) = None)"
proof -
  from session_split [OF assms(1)] obtain m m' where m: "mon_run cfg env m_init xs = Some m"
    "mon_step cfg env m (ESend c form q) = Some m'" by blast
  then obtain r k where rk: "m_phase m = Busy r" "may_send cfg env r k form q"
    by (auto split: phase.splits option.splits if_splits)
  from rk(2) obtain v where v: "validateRequest cfg r = Forward v"
    by (auto simp: may_send_def split: verdict.splits)
  from assms(2) [OF last_read_in [OF busy_last_read [OF m(1) rk(1)]]] have "wf_header (req_Header v)"
    by (rule validateRequest_wf [OF v])
  moreover from rk(2) v have rw: "rewritten cfg v q \<or> q = withVia cfg v"
    by (auto simp: may_send_def split: link_kind.splits)
  ultimately have "wf_header (req_Header q)"
    by (auto simp: rewritten_def withVia_def setHeader_def wf_injectVia)
  moreover have "map_of (req_Header q) (canonicalKey name) = None"
    if n: "name \<in> set hopByHopNames" "name \<noteq> headerProxyAuthorization" for name
  proof -
    have "canonicalKey name \<notin> addedKeys" using n hop_not_added by (auto simp: list_all_iff)
    with rw have "map_of (req_Header q) (canonicalKey name) = map_of (req_Header v) (canonicalKey name)"
      by (auto simp: rewritten_def withVia_def setHeader_def lookup_injectVia addedKeys_def)
    with validateRequest_hop [OF v, of "canonicalKey name"] n(1) show ?thesis by simp
  qed
  ultimately show ?thesis by blast
qed

section \<open>A concrete session\<close>

definition sample_cfg :: Config where
  "sample_cfg = \<lparr>cfg_Upstream = ''proxy:8080'', cfg_Pseudonym = ''p1'', cfg_DialTimeout = 5, cfg_ReadTimeout = 5,
     cfg_KeepAlive = 0, cfg_IdleTimeout = 60, cfg_ConnectPorts = [''443''], cfg_AllowedIPs = [],
     cfg_NoProxy = None, cfg_Forwarding = \<lparr>ForwardedEnabled = False, XForwardedForEnabled = False\<rparr>,
     cfg_UpstreamTLS = \<lparr>Enabled = False, CAFile = [], InsecureSkipVerify = False, TLSConfig = None,
       Dialer = None\<rparr>\<rparr>"

definition sample_env :: "nat option \<Rightarrow> env" where
  "sample_env cancel = \<lparr>env_cancel = cancel, env_token = (\<lambda>t. Inr ''dG9r''),
     env_dial = (\<lambda>t d c a. Inr \<lparr>peer_uploads = (\<lambda>i. Upload False None),
       peer_stream = [Inr (sample_response 200), Inr (sample_response 200)]\<rparr>),
     env_handshake = (\<lambda>t c d p. None), env_clock = (\<lambda>t. 0), env_write = (\<lambda>t i. None),
     env_rand = (\<lambda>t n. replicate n CHR ''a''), env_lower = id, env_client = TCPSock\<rparr>"

definition sample_get :: request where
  "sample_get = \<lparr>req_Method = ''GET'', req_Host = ''a.b'', req_RequestURI = ''http://a.b/'',
     req_Proto = ''HTTP/1.1'', req_ProtoMajor = 1, req_ProtoMinor = 1, req_Header = [],
     req_TransferEncoding = [], req_Trailer = None, req_Close = False, req_Body = NoBody\<rparr>"

text \<open>Two GET requests and a CONNECT on one client connection.\<close>

definition sample_requests :: "(go_error + request) list" where
  "sample_requests = [Inr sample_get, Inr sample_get, Inr (sample_get\<lparr>req_Method := methodConnect\<rparr>)]"

abbreviation sample_trace :: "nat option \<Rightarrow> event list" where
  "sample_trace cancel \<equiv> handleClientCtx sample_cfg (sample_env cancel) ''1.2.3.4:5'' sample_requests"

fun is_read :: "event \<Rightarrow> bool" where
  "is_read (ERead _) = True"
| "is_read _ = False"

text \<open>The shape of two concrete runs, each evaluated once.\<close>

definition sample_run_shape :: "event list \<Rightarrow> bool" where
  "sample_run_shape t \<longleftrightarrow>
     21 < length t \<and> t ! 2 = ERead sample_get \<and>
     t ! 5 = ESend 4 ProxyForm (withVia sample_cfg (withToken ''dG9r'' sample_get)) \<and>
     \<not> sent_since_dial 4 (take 5 t) \<and> list_all (\<lambda>ev. \<not> is_read ev) (take 7 (drop 3 t)) \<and>
     t ! 10 = ERead sample_get \<and> t ! 21 = ETunnel 18 60"

lemma sample_run: "sample_run_shape (sample_trace None)"
  by code_simp

definition sample_stop_shape :: "event list \<Rightarrow> bool" where
  "sample_stop_shape t \<longleftrightarrow>
     7 < length t \<and> t ! 6 = EPoll True \<and>
     t ! 7 = ERespond ((sample_response 200)\<lparr>resp_Header := [(''Link'', [''</a>'']), (''Via'', [''HTTP/1.1 p1''])],
       resp_Close := True\<rparr>)"

lemma sample_stop: "sample_stop_shape (sample_trace (Some 6))"
  by code_simp

lemma sample_nth:
  assumes "i < length (sample_trace c)" "sample_trace c ! i = ev"
  shows "sample_trace c = take i (sample_trace c) @ ev # drop (Suc i) (sample_trace c)"
  using id_take_nth_drop [OF assms(1)] assms(2) by simp


text \<open>A request with hop-by-hop fields.\<close>

definition hop_trace :: "event list" where
  "hop_trace = handleClientCtx sample_cfg (sample_env None) ''1.2.3.4:5''
     [Inr (sample_get\<lparr>req_Header := [(''Connection'', [''X-A'']), (''X-A'', [''1'']), (''Te'', [''trailers''])]\<rparr>)]"

definition hop_trace_shape :: "event list \<Rightarrow> bool" where
  "hop_trace_shape t \<longleftrightarrow>
     5 < length t \<and> (case t ! 5 of ESend _ _ _ \<Rightarrow> True | _ \<Rightarrow> False) \<and>
     list_all (\<lambda>ev. case ev of ERead r \<Rightarrow> wf_header (req_Header r) | _ \<Rightarrow> True) (take 5 t)"

theorem session_sends_typed_witness:
  "\<exists>xs c form q ys. hop_trace = xs @ ESend c form q # ys \<and> wf_header (req_Header q) \<and>
     map_of (req_Header q) (canonicalKey headerTE) = None"
proof -
  have h: "hop_trace_shape hop_trace" by code_simp
  then obtain c form q where q: "hop_trace ! 5 = ESend c form q" by (auto simp: hop_trace_shape_def split: event.splits)
  from h id_take_nth_drop [of 5 hop_trace] q have
    t: "hop_trace = take 5 hop_trace @ ESend c form q # drop (Suc 5) hop_trace" by (simp add: hop_trace_shape_def)
  have w: "wf_header (req_Header r)" if "ERead r \<in> set (take 5 hop_trace)" for r
    using h that by (force simp: hop_trace_shape_def list_all_iff)
  have "headerTE \<in> set hopByHopNames - {headerProxyAuthorization}" by code_simp
  with session_sends_typed [OF t [unfolded hop_trace_def] w [unfolded hop_trace_def]] t show ?thesis by blast
qed

section \<open>Tunnels\<close>

lemma opened_last_read:
  "mon_run cfg env m_init xs = Some m \<Longrightarrow> m_phase m = Opened r \<Longrightarrow>
     last_read xs = Some r \<and> req_Method r = methodConnect \<and> forwardable cfg r \<and>
     (\<exists>resp. EConnectOK resp \<in> set xs \<and> 200 \<le> resp_StatusCode resp \<and> resp_StatusCode resp < 300)"
proof (induction xs arbitrary: m rule: rev_induct)
  case Nil
  then show ?case by (auto simp: m_init_def)
next
  case (snoc ev xs)
  then obtain m1 where m1: "mon_run cfg env m_init xs = Some m1" "mon_step cfg env m1 ev = Some m"
    by (auto simp: mon_run_snoc)
  show ?case
  proof (cases "\<exists>resp. ev = EConnectOK resp")
    case True
    with m1(2) snoc.prems(2) busy_last_read [OF m1(1)] show ?thesis
      by (auto simp: last_read_snoc split: phase.splits if_splits)
  next
    case False
    with m1(2) snoc.prems(2) have "m_phase m1 = Opened r" "\<forall>r. ev \<noteq> ERead r"
      by (cases ev; auto split: phase.splits if_splits option.splits)+
    with snoc.IH [OF m1(1)] show ?thesis
      by (cases ev) (auto simp: last_read_snoc)
  qed
qed

lemma forwardable_port:
  "forwardable cfg r \<Longrightarrow> req_Method r = methodConnect \<Longrightarrow>
     connectPortAllowed (connectPort (req_Host r)) (cfg_ConnectPorts cfg)"
  by (auto simp: forwardable_def validateRequest_def Let_def connectPortAllowed_def
      split: if_splits sum.splits)

fun teardown :: "event \<Rightarrow> bool" where
  "teardown (EPoll _) = True"
| "teardown (EKeepAlive _ _) = True"
| "teardown (EClose _) = True"
| "teardown EDrain = True"
| "teardown EClientCloseWrite = True"
| "teardown EClientClose = True"
| "teardown _ = False"

lemma over_teardown:
  "mon_run cfg env m ys = Some m' \<Longrightarrow> m_phase m = Over \<Longrightarrow> list_all teardown ys"
proof (induction ys arbitrary: m)
  case (Cons ev ys)
  then obtain m1 where m1: "mon_step cfg env m ev = Some m1" "mon_run cfg env m1 ys = Some m'"
    by (auto split: option.splits)
  with Cons.prems(2) have "m_phase m1 = Over" "teardown ev"
    by (cases ev; auto simp: is_busy_def split: if_splits)+
  with Cons.IH [OF m1(2)] show ?case by simp
qed simp



section \<open>Shutdown\<close>

text \<open>What may still happen once the session has seen the context done.\<close>

fun winding_down :: "event \<Rightarrow> bool" where
  "winding_down (ERead _) = False"
| "winding_down (EToken _) = False"
| "winding_down (EDialUpstream _) = False"
| "winding_down (EDialDirect _ _) = False"
| "winding_down (EDialFailed _) = False"
| "winding_down (ESend _ _ _) = False"
| "winding_down (ETunnel _ _) = False"
| "winding_down (ERespond resp) = resp_Close resp"
| "winding_down _ = True"

lemma cancelled_winding_down:
  "mon_run cfg env m ys = Some m' \<Longrightarrow> m_cancelled m \<Longrightarrow> list_all winding_down ys"
proof (induction ys arbitrary: m)
  case (Cons ev ys)
  then obtain m1 where m1: "mon_step cfg env m ev = Some m1" "mon_run cfg env m1 ys = Some m'"
    by (auto split: option.splits)
  with Cons.prems(2) have "m_cancelled m1" "winding_down ev"
    by (cases ev; auto split: if_splits phase.splits option.splits)+
  with Cons.IH [OF m1(2)] show ?case by simp
qed simp

text \<open>C16: Once a session has observed shutdown it starts nothing new: no request is read, sent or
  routed, no connection is dialled, no token acquired and no tunnel opened, and a response that is
  still written tells the client that the connection closes.\<close>

theorem session_shutdown:
  assumes "handleClientCtx cfg env addr reqs = xs @ EPoll True # ys"
  shows "list_all winding_down ys"
proof -
  from session_split [OF assms] obtain m m' m'' where m: "mon_step cfg env m (EPoll True) = Some m'"
    "mon_run cfg env m' ys = Some m''" by blast
  then show ?thesis by (intro cancelled_winding_down [OF m(2)]) auto
qed

theorem session_shutdown_witness:
  "\<exists>xs ys resp. sample_trace (Some 6) = xs @ EPoll True # ERespond resp # ys \<and> resp_Close resp \<and>
     list_all winding_down ys"
proof -
  obtain resp where q: "sample_trace (Some 6) ! 6 = EPoll True" "7 < length (sample_trace (Some 6))"
    "sample_trace (Some 6) ! 7 = ERespond resp"
    using sample_stop unfolding sample_stop_shape_def by blast
  then have "6 < length (sample_trace (Some 6))" by simp
  note split = sample_nth [OF this q(1)]
  have resp: "drop (Suc 6) (sample_trace (Some 6)) = ERespond resp # drop (Suc 7) (sample_trace (Some 6))"
    using Cons_nth_drop_Suc [OF q(2)] q(3) by simp
  from session_shutdown [OF split] have
    "list_all winding_down (ERespond resp # drop (Suc 7) (sample_trace (Some 6)))" unfolding resp .
  with split [unfolded resp] show ?thesis by auto
qed

section \<open>One answer per request\<close>

text \<open>Everything written to the client as a final answer.\<close>

fun is_answer :: "event \<Rightarrow> bool" where
  "is_answer (ERespond _) = True"
| "is_answer (EError _) = True"
| "is_answer (EMaxForwards _) = True"
| "is_answer (EConnectOK _) = True"
| "is_answer _ = False"

text \<open>Between two moments at which the connection is ready, without a read, nothing is answered;
  from busy to ready there is exactly one answer, a response that keeps the connection open.\<close>

lemma until_ready:
  "mon_run cfg env m ys = Some m' \<Longrightarrow> list_all (\<lambda>ev. \<not> is_read ev) ys \<Longrightarrow> m_phase m' = Ready \<Longrightarrow>
     (m_phase m = Ready \<and> filter is_answer ys = []) \<or>
     (\<exists>r resp. m_phase m = Busy r \<and> filter is_answer ys = [ERespond resp] \<and> \<not> connectionWillClose r resp)"
proof (induction ys arbitrary: m)
  case (Cons ev ys)
  then obtain m1 where m1: "mon_step cfg env m ev = Some m1" "mon_run cfg env m1 ys = Some m'"
    by (auto split: option.splits)
  with Cons.IH [OF m1(2)] Cons.prems have
    IH: "(m_phase m1 = Ready \<and> filter is_answer ys = []) \<or>
     (\<exists>r resp. m_phase m1 = Busy r \<and> filter is_answer ys = [ERespond resp] \<and> \<not> connectionWillClose r resp)"
    by simp
  show ?case
  proof (cases "\<exists>resp. ev = ERespond resp")
    case True
    with m1(1) IH show ?thesis
      by (auto split: phase.splits if_splits)
  next
    case False
    with m1(1) IH Cons.prems(2) have "m_phase m1 = m_phase m" "\<not> is_answer ev"
      by (cases ev; auto split: phase.splits if_splits option.splits)+
    with IH show ?thesis by auto
  qed
qed simp

text \<open>C17: Requests and answers alternate: between reading one request and reading the next, exactly
  one answer was written to the client, the response to the former, and neither side had asked for
  the connection to close.\<close>

theorem session_alternates:
  assumes "handleClientCtx cfg env addr reqs = xs @ ERead r # ys @ ERead r' # zs"
    and "list_all (\<lambda>ev. \<not> is_read ev) ys"
  shows "\<exists>resp. filter is_answer ys = [ERespond resp] \<and> \<not> connectionWillClose r resp"
proof -
  from session_split [OF assms(1)] obtain m m' m'' where m: "mon_step cfg env m (ERead r) = Some m'"
    "mon_run cfg env m' (ys @ ERead r' # zs) = Some m''" by blast
  then obtain m1 m2 where m1: "mon_run cfg env m' ys = Some m1" "mon_step cfg env m1 (ERead r') = Some m2"
    by (auto simp: mon_run_append split: option.splits)
  from m1(2) have ready: "m_phase m1 = Ready" by (auto split: if_splits)
  from m(1) have "m_phase m' = Busy r" by (auto split: if_splits)
  with until_ready [OF m1(1) assms(2) ready] show ?thesis by auto
qed

theorem session_alternates_witness:
  "\<exists>xs ys zs. sample_trace None = xs @ ERead sample_get # ys @ ERead sample_get # zs \<and>
     (\<exists>resp. filter is_answer ys = [ERespond resp] \<and> \<not> connectionWillClose sample_get resp)"
proof -
  let ?t = "sample_trace None"
  let ?ys = "take 7 (drop 3 ?t)"
  have shape: "?t ! 2 = ERead sample_get" "?t ! 10 = ERead sample_get" "21 < length ?t"
    "list_all (\<lambda>ev. \<not> is_read ev) ?ys"
    using sample_run unfolding sample_run_shape_def by blast+
  then have q: "?t ! 2 = ERead sample_get" "drop 3 ?t ! 7 = ERead sample_get"
    and len: "2 < length ?t" "7 < length (drop 3 ?t)" by simp_all
  have "drop 3 ?t = ?ys @ ERead sample_get # drop (Suc 7) (drop 3 ?t)"
    using id_take_nth_drop [OF len(2)] q(2) by simp
  with sample_nth [OF len(1) q(1)] have
    split: "?t = take 2 ?t @ ERead sample_get # ?ys @ ERead sample_get # drop (Suc 7) (drop 3 ?t)"
    by (simp add: numeral_3_eq_3)
  from session_alternates [OF split shape(4)] split show ?thesis by blast
qed

section \<open>Connections are closed\<close>

definition dials :: "nat \<Rightarrow> event list \<Rightarrow> nat" where
  "dials c evs = length (filter (\<lambda>ev. case ev of
     EDialUpstream c' \<Rightarrow> c' = c | EDialDirect c' _ \<Rightarrow> c' = c | _ \<Rightarrow> False) evs)"

definition closes :: "nat \<Rightarrow> event list \<Rightarrow> nat" where
  "closes c evs = length (filter (\<lambda>ev. ev = EClose c) evs)"

lemma dials_closes:
  "mon_run cfg env m_init xs = Some m \<Longrightarrow> dials c xs = closes c xs + (if m_links m c = None then 0 else 1)"
proof (induction xs arbitrary: m rule: rev_induct)
  case Nil
  then show ?case by (auto simp: m_init_def dials_def closes_def)
next
  case (snoc ev xs)
  then obtain m1 where m1: "mon_run cfg env m_init xs = Some m1" "mon_step cfg env m1 ev = Some m"
    by (auto simp: mon_run_snoc)
  from snoc.IH [OF m1(1)] m1(2) show ?case
    by (cases ev) (auto simp: dials_def closes_def split: phase.splits if_splits option.splits)
qed


text \<open>What the type of a connection costs: a client connection that is neither a \<^verbatim>\<open>*net.TCPConn\<close> nor has
  \<^verbatim>\<open>CloseWrite\<close> is never half-closed and never gets keep-alive, and with upstream TLS no connection to the
  upstream gets it, whatever -keepalive says.\<close>

lemma opaque_client_untouched:
  assumes "env_client env = OtherSock False"
  shows "EClientCloseWrite \<notin> set (handleClientCtx cfg env addr reqs)"
    "EKeepAlive None p \<notin> set (handleClientCtx cfg env addr reqs)"
proof -
  have "\<not> (\<exists>xs ys. handleClientCtx cfg env addr reqs = xs @ ev # ys)"
    if "\<And>m. mon_step cfg env m ev = None" for ev
    using session_split that by (metis option.distinct(1))
  then have "ev \<notin> set (handleClientCtx cfg env addr reqs)" if "\<And>m. mon_step cfg env m ev = None" for ev
    using that split_list by metis
  then show "EClientCloseWrite \<notin> set (handleClientCtx cfg env addr reqs)"
    "EKeepAlive None p \<notin> set (handleClientCtx cfg env addr reqs)"
    by (simp_all add: may_keepalive_def assms)
qed

lemma tls_upstream_no_keepalive:
  assumes "handleClientCtx cfg env addr reqs = xs @ EKeepAlive (Some c) p # ys" "Enabled (cfg_UpstreamTLS cfg)"
  shows "\<exists>target. EDialDirect c target \<in> set xs"
proof -
  from session_split [OF assms(1)] obtain m m' where m: "mon_run cfg env m_init xs = Some m"
    "mon_step cfg env m (EKeepAlive (Some c) p) = Some m'" by blast
  from m(2) assms(2) obtain h q where "m_links m c = Some (DirectLink h q)"
    by (auto simp: may_keepalive_def split: if_splits option.splits elim!: link_sock.elims)
  from links_history [OF m(1) this] show ?thesis by auto
qed

end
