(* ===== verification/Session_Service.thy ===== *)
theory Session_Service
  imports Session_Safety
begin

text \<open>
  What a client session does, beyond what it refrains from: the guards of the validation pipeline,
  loop detection end to end, refusal of clients outside the allowlist, and that in a cooperating
  environment every pipelined request gets its own response, in order, over one authenticated
  upstream connection.
\<close>

section \<open>Validation\<close>

lemma applyMaxForwards_numeric:
  assumes "req_Method r \<in> {methodTrace, methodOptions}" "applyMaxForwards r = Inr r'"
    and n: "atoi (hget (req_Header r) headerMaxForwards) = Some n"
  shows "n > 0 \<and> hget (req_Header r') headerMaxForwards = itoa (n - 1)"
proof -
  have "atoi [] = None" by code_simp
  with n have "hget (req_Header r) headerMaxForwards \<noteq> []" by auto
  with assms show ?thesis
    by (auto simp: applyMaxForwards_def Let_def hget_hset split: if_splits)
qed

lemma applyMaxForwards_connection:
  assumes "applyMaxForwards r = Inr r'"
  shows "connectionTokens (req_Header r') = connectionTokens (req_Header r)"
proof -
  have "headerConnection \<noteq> headerMaxForwards" by (simp add: header_names)
  moreover from assms obtain s where "r' = r \<or> r' = r\<lparr>req_Header := hset (req_Header r) headerMaxForwards s\<rparr>"
    by (auto simp: applyMaxForwards_def Let_def split: if_splits option.splits)
  ultimately show ?thesis by (auto simp: connectionTokens_def hraw_def hs.lookup_put)
qed

lemma forward_no_loop:
  "validateRequest cfg r = Forward v \<Longrightarrow>
     hget (req_Header r) headerVia = [] \<or> \<not> sublist (cfg_Pseudonym cfg) (hget (req_Header r) headerVia)"
  by (auto simp: validateRequest_def Let_def split: if_splits)

lemma answered_spent:
  assumes "validateRequest cfg r = Answered resp"
  shows "req_Method r \<in> {methodTrace, methodOptions} \<and> resp_StatusCode resp = 200 \<and>
    (\<exists>n \<le> 0. atoi (hget (req_Header r) headerMaxForwards) = Some n)"
proof -
  from assms have "applyMaxForwards r = Inl resp"
    by (auto simp: validateRequest_def Let_def split: if_splits sum.splits)
  then show ?thesis
    by (auto simp: applyMaxForwards_def Let_def writeMaxForwardsResponse_def split: if_splits option.splits)
qed

lemma rejected_why:
  assumes "validateRequest cfg r = Rejected pe"
  shows "pe = errProxyLoopDetected \<and> sublist (cfg_Pseudonym cfg) (hget (req_Header r) headerVia) \<or>
    pe = errForbiddenPort \<and> req_Method r = methodConnect \<and>
      \<not> connectPortAllowed (connectPort (req_Host r)) (cfg_ConnectPorts cfg)"
  using assms by (auto simp: validateRequest_def Let_def split: if_splits sum.splits)



text \<open>C35: A request that this proxy forwarded and that comes back, however far it travelled, as long as
  the proxies on the way only append to its Via field, is recognised as a loop and refused.\<close>

theorem loop_detected:
  assumes "hget (req_Header r) headerVia = hget (req_Header (withVia cfg v)) headerVia @ added"
  shows "validateRequest cfg r = Rejected errProxyLoopDetected"
proof -
  let ?via = "hget (req_Header (withVia cfg v)) headerVia"
  have "sublist (cfg_Pseudonym cfg) ?via"
    by (simp add: withVia_def setHeader_def sublist_injectVia)
  moreover have "sublist ?via (hget (req_Header r) headerVia)"
    using assms by (simp add: sublist_append_rightI)
  ultimately have "sublist (cfg_Pseudonym cfg) (hget (req_Header r) headerVia)"
    by (rule sublist_order.order_trans)
  moreover have "hget (req_Header r) headerVia \<noteq> []"
    using assms by (auto simp: withVia_def setHeader_def hget_injectVia)
  ultimately show ?thesis by (simp add: validateRequest_def)
qed

theorem loop_detected_witness:
  "validateRequest sample_cfg (sample_get\<lparr>req_Header := [(headerVia, [''HTTP/1.1 p1, 1.1 other''])]\<rparr>) =
     Rejected errProxyLoopDetected"
  by (rule loop_detected [where v = sample_get and added = "'', 1.1 other''"]) code_simp

section \<open>In-order service\<close>

definition responses :: "event list \<Rightarrow> response list" where
  "responses evs = List.map_filter (\<lambda>ev. case ev of ERespond r \<Rightarrow> Some r | _ \<Rightarrow> None) evs"

definition sends :: "event list \<Rightarrow> nat" where
  "sends evs = length (filter (\<lambda>ev. case ev of ESend _ _ _ \<Rightarrow> True | _ \<Rightarrow> False) evs)"

definition tokens :: "event list \<Rightarrow> nat" where
  "tokens evs = length (filter (\<lambda>ev. case ev of EToken _ \<Rightarrow> True | _ \<Rightarrow> False) evs)"

lemma trace_append:
  "responses (xs @ ys) = responses xs @ responses ys" "sends (xs @ ys) = sends xs + sends ys"
  "tokens (xs @ ys) = tokens xs + tokens ys"
  by (simp_all add: responses_def sends_def tokens_def List.map_filter_def)

lemma trace_Cons:
  "responses (ev # evs) = (case ev of ERespond r \<Rightarrow> [r] | _ \<Rightarrow> []) @ responses evs"
  "sends (ev # evs) = (case ev of ESend _ _ _ \<Rightarrow> 1 | _ \<Rightarrow> 0) + sends evs"
  "tokens (ev # evs) = (case ev of EToken _ \<Rightarrow> 1 | _ \<Rightarrow> 0) + tokens evs"
  by (simp_all add: responses_def sends_def tokens_def List.map_filter_def split: event.splits)

lemma trace_Nil: "responses [] = []" "sends [] = 0" "tokens [] = 0"
  by (simp_all add: responses_def sends_def tokens_def List.map_filter_def)

lemmas trace_counts = trace_append trace_Cons trace_Nil

text \<open>An environment in which nothing fails: no shutdown, tokens are granted, writes succeed, and the
  upstream is peer \<open>p\<close>, whose uploads complete.\<close>

definition cooperative :: "env \<Rightarrow> peer \<Rightarrow> bool" where
  "cooperative env p \<longleftrightarrow>
     env_cancel env = None \<and> (\<forall>t. \<exists>token. env_token env t = Inr token) \<and>
     (\<forall>t i. env_write env t i = None) \<and> (\<forall>t d c a. env_dial env t d c a = Inr p) \<and>
     (\<forall>t tc d c. env_handshake env t tc d c = None) \<and> (\<forall>i. peer_uploads p i = Upload False None)"

text \<open>A plain request that the upstream serves on a connection that stays open.\<close>

definition plain_request :: "Config \<Rightarrow> env \<Rightarrow> request \<Rightarrow> bool" where
  "plain_request cfg env r \<longleftrightarrow>
     forwardable cfg r \<and> \<not> bypasses cfg env (req_Host r) \<and> req_Method r \<noteq> methodConnect \<and>
     \<not> (req_ProtoMajor r = 1 \<and> req_ProtoMinor r = 0) \<and> \<not> req_Close r"

definition keeps_open :: "response \<Rightarrow> bool" where
  "keeps_open resp \<longleftrightarrow> \<not> isInterimResponse resp \<and> \<not> resp_Close resp"

text \<open>The upstream connection, dialled or yet to be, will deliver \<open>resps\<close> next.\<close>

definition delivers :: "Config \<Rightarrow> peer \<Rightarrow> ClientSession \<Rightarrow> response list \<Rightarrow> bool" where
  "delivers cfg p st resps \<longleftrightarrow>
     (case cs_proxyConn st of
        None \<Rightarrow> map (\<lambda>rr. readUpstreamResponse rr (cfg_Pseudonym cfg)) (peer_stream p) = map Inr resps
      | Some ln \<Rightarrow> (\<forall>i. ln_uploads ln i = Upload False None) \<and> ln_stream ln = map Inr resps)"

lemma exchange_ok:
  assumes "\<not> isInterimResponse resp"
  shows "exchangeRequest q wr (Upload False None) (Inr resp # rest) =
    \<lparr>ex_resp = Some resp, ex_requestErr = None, ex_clientErr = None, ex_err = None,
     ex_written = [], ex_rest = rest, ex_deadlines = no_deadlines\<rparr>"
  using assms by (simp add: exchangeRequest_def exchangeSync_def exchangeAsync_def no_deadlines_def)

text \<open>Dialling costs one token when no connection is open, nothing otherwise.\<close>

lemma acquire_ok:
  assumes c: "cooperative env p" and d: "delivers cfg p st resps" and v: "validateRequest cfg r = Forward v"
  shows "\<exists>ln req1 st1. acquireUpstream cfg env st (withForwarding cfg env addr st v) = (Some ln, req1, st1) \<and>
    (\<forall>i. ln_uploads ln i = Upload False None) \<and> ln_stream ln = map Inr resps \<and>
    rewritten cfg v (withVia cfg req1) \<and> cs_reqReader st1 = cs_reqReader st \<and>
    responses (cs_trace st1) = responses (cs_trace st) \<and> sends (cs_trace st1) = sends (cs_trace st) \<and>
    tokens (cs_trace st1) = tokens (cs_trace st) + (if cs_proxyConn st = None then 1 else 0)"
proof (cases "cs_proxyConn st")
  case (Some ln)
  with d upstream_reused(1) [OF v] show ?thesis
    by (simp add: acquireUpstream_def delivers_def)
next
  case None
  from c obtain token where token: "env_token env (moment st) = Inr token"
    unfolding cooperative_def by blast
  let ?t = "Suc (moment st)"
  obtain conn where conn: "do_result (dialUpstream (env_dial env ?t) (env_handshake env ?t) (env_clock env ?t)
      (cfg_Upstream cfg) (cfg_UpstreamTLS cfg)) = Inr conn" "peerOf conn = p"
    using c by (cases "Enabled (cfg_UpstreamTLS cfg)") (auto simp: dialUpstream_def cooperative_def Let_def)
  let ?ln = "upstreamLink cfg ?t p"
  let ?st1 = "(keepAliveBoth cfg env ?t (sockOf conn) (emit (EDialUpstream ?t) (emit (EToken True) st)))\<lparr>cs_proxyConn := Some ?ln\<rparr>"
  have eq: "acquireUpstream cfg env st (withForwarding cfg env addr st v) =
      (Some ?ln, withToken token (withForwarding cfg env addr st v), ?st1)"
    using None token conn by (simp add: acquireUpstream_def dialAndAuthUpstream_def Let_def)
  have "responses (cs_trace ?st1) = responses (cs_trace st) \<and> sends (cs_trace ?st1) = sends (cs_trace st) \<and>
      tokens (cs_trace ?st1) = tokens (cs_trace st) + 1"
    by (simp add: keepAliveBoth_def enableKeepAlive_def emit_def trace_counts split: sock.splits)
  moreover have "\<forall>i. peer_uploads p i = Upload False None" using c by (simp add: cooperative_def)
  ultimately show ?thesis
    using None d eq upstream_fresh(1) [of cfg v token env addr st]
    by (simp add: delivers_def upstreamLink_def)
qed

lemma relay_ok:
  assumes c: "cooperative env p" and d: "delivers cfg p st (resp # resps)" and k: "keeps_open resp"
    and r: "plain_request cfg env r" and v: "validateRequest cfg r = Forward v"
  shows "\<exists>st'. relayViaUpstream cfg env addr st v = (True, st') \<and> delivers cfg p st' resps \<and>
    cs_proxyConn st' \<noteq> None \<and> cs_reqReader st' = cs_reqReader st \<and>
    responses (cs_trace st') = responses (cs_trace st) @ [resp] \<and>
    sends (cs_trace st') = Suc (sends (cs_trace st)) \<and>
    tokens (cs_trace st') = tokens (cs_trace st) + (if cs_proxyConn st = None then 1 else 0)"
proof -
  from acquire_ok [OF c d v] obtain ln req1 st1 where a:
    "acquireUpstream cfg env st (withForwarding cfg env addr st v) = (Some ln, req1, st1)"
    "\<forall>i. ln_uploads ln i = Upload False None" "ln_stream ln = map Inr (resp # resps)"
    "rewritten cfg v (withVia cfg req1)" "cs_reqReader st1 = cs_reqReader st"
    "responses (cs_trace st1) = responses (cs_trace st)" "sends (cs_trace st1) = sends (cs_trace st)"
    "tokens (cs_trace st1) = tokens (cs_trace st) + (if cs_proxyConn st = None then 1 else 0)"
    by blast
  have opn: "\<not> connectionWillClose (withVia cfg req1) resp"
    using connectionWillClose_cong [OF v disjI1 [OF a(4)]] r k
    by (simp add: connectionWillClose_def plain_request_def keeps_open_def)
  have io: "env_cancel env = None" "env_write env t i = None" for t i
    using c by (simp_all add: cooperative_def)
  have "\<not> isInterimResponse resp" using k by (simp add: keeps_open_def)
  note ex = exchange_ok [OF this]
  show ?thesis
    using a(2,3,5-8) opn
    by (simp add: relayViaUpstream_def a(1) ex Let_def writeResponse_def pollDone_def ctxDone_def io
        delivers_def) (simp add: emit_def trace_counts)
qed

lemma next_ok:
  assumes "env_cancel env = None" "cs_reqReader st = Inr r # rest"
  shows "\<exists>st1. nextPending env st None iter = (Some r, st1) \<and> cs_reqReader st1 = rest \<and>
    cs_proxyConn st1 = cs_proxyConn st \<and> responses (cs_trace st1) = responses (cs_trace st) \<and>
    sends (cs_trace st1) = sends (cs_trace st) \<and> tokens (cs_trace st1) = tokens (cs_trace st)"
  using assms
  by (simp add: nextPending_def readNextRequest_def readRequest_def pollDone_def ctxDone_def Let_def)
     (simp add: emit_def trace_counts)

lemma next_eof:
  assumes "env_cancel env = None" "cs_reqReader st = []"
  shows "\<exists>st1. nextPending env st None iter = (None, st1) \<and>
    responses (cs_trace st1) = responses (cs_trace st) \<and> sends (cs_trace st1) = sends (cs_trace st) \<and>
    tokens (cs_trace st1) = tokens (cs_trace st)"
  using assms
  by (simp add: nextPending_def readNextRequest_def readRequest_def pollDone_def ctxDone_def Let_def
      isExpectedCloseError_def) (simp add: emit_def trace_counts)

lemma run_serves:
  assumes c: "cooperative env p"
  shows "delivers cfg p st resps \<Longrightarrow> list_all keeps_open resps \<Longrightarrow> list_all (plain_request cfg env) rs \<Longrightarrow>
    length rs \<le> length resps \<Longrightarrow> cs_reqReader st = map Inr rs \<Longrightarrow>
    responses (cs_trace (run cfg env addr st None iter)) = responses (cs_trace st) @ take (length rs) resps \<and>
    sends (cs_trace (run cfg env addr st None iter)) = sends (cs_trace st) + length rs \<and>
    tokens (cs_trace (run cfg env addr st None iter)) =
      tokens (cs_trace st) + (if cs_proxyConn st = None \<and> rs \<noteq> [] then 1 else 0)"
proof (induction rs arbitrary: st resps iter)
  case Nil
  have "env_cancel env = None" using c by (simp add: cooperative_def)
  from next_eof [OF this, of st iter] Nil.prems show ?case
    by (auto simp: run.simps [of cfg env addr st None iter])
next
  case (Cons r rs)
  have "env_cancel env = None" using c by (simp add: cooperative_def)
  from next_ok [OF this, of st r "map Inr rs" iter] Cons.prems(5) obtain st1 where st1:
    "nextPending env st None iter = (Some r, st1)" "cs_reqReader st1 = map Inr rs"
    "cs_proxyConn st1 = cs_proxyConn st" "responses (cs_trace st1) = responses (cs_trace st)"
    "sends (cs_trace st1) = sends (cs_trace st)" "tokens (cs_trace st1) = tokens (cs_trace st)"
    by auto
  from Cons.prems(4) obtain resp resps' where resps: "resps = resp # resps'" by (cases resps) auto
  have plain: "plain_request cfg env r" using Cons.prems(3) by simp
  then obtain v where v: "validateRequest cfg r = Forward v"
    by (auto simp: plain_request_def forwardable_def split: verdict.splits)
  have d1: "delivers cfg p st1 (resp # resps')"
    using Cons.prems(1) st1(3) by (simp add: delivers_def resps)
  have "keeps_open resp" using Cons.prems(2) by (simp add: resps)
  from relay_ok [OF c d1 this plain v, of addr] obtain st2 where st2:
    "relayViaUpstream cfg env addr st1 v = (True, st2)" "delivers cfg p st2 resps'"
    "cs_proxyConn st2 \<noteq> None" "cs_reqReader st2 = cs_reqReader st1"
    "responses (cs_trace st2) = responses (cs_trace st1) @ [resp]"
    "sends (cs_trace st2) = Suc (sends (cs_trace st1))"
    "tokens (cs_trace st2) = tokens (cs_trace st1) + (if cs_proxyConn st1 = None then 1 else 0)" by blast
  have "routeRequest cfg env addr st1 v = (None, True, st2)"
    using plain st2(1) validateRequest_frame(1,2) [OF v] by (simp add: routeRequest_def plain_request_def)
  then have "run cfg env addr st None iter = run cfg env addr st2 None (Suc iter)"
    by (simp add: run.simps [of cfg env addr st None iter] st1(1) v)
  moreover have "cs_reqReader st2 = map Inr rs" "list_all keeps_open resps'"
    "list_all (plain_request cfg env) rs" "length rs \<le> length resps'"
    using Cons.prems st1(2) st2(4) resps by simp_all
  ultimately show ?case
    using Cons.IH [OF st2(2), of "Suc iter"] st1 st2 resps by simp
qed

lemma closing_counts:
  "responses (xs @ closeClient env) = responses xs"
  "sends (xs @ closeClient env) = sends xs"
  "tokens (xs @ closeClient env) = tokens xs"
  by (simp_all add: trace_counts closeClient_def)

text \<open>C9: In a cooperating environment every request is served: when the client pipelines plain
  requests and the upstream answers each with a response that keeps the connection open, the client
  receives exactly one response per request, the \<open>i\<close>-th response of the upstream for the \<open>i\<close>-th
  request, each request was sent once, and one token was acquired for all of them.\<close>

theorem session_serves_in_order:
  assumes "cfg_Pseudonym cfg \<noteq> []"
    and "ipAllowed (parseIP (extractHost addr)) (cfg_AllowedIPs cfg)"
    and "cooperative env p"
    and "map (\<lambda>rr. readUpstreamResponse rr (cfg_Pseudonym cfg)) (peer_stream p) = map Inr resps"
    and "list_all keeps_open resps" and "list_all (plain_request cfg env) rs"
    and "length rs \<le> length resps"
  shows "responses (handleClientCtx cfg env addr (map Inr rs)) = take (length rs) resps \<and>
    sends (handleClientCtx cfg env addr (map Inr rs)) = length rs \<and>
    tokens (handleClientCtx cfg env addr (map Inr rs)) = (if rs = [] then 0 else 1)"
proof -
  let ?s = "\<lparr>cs_reqReader = map Inr rs, cs_proxyConn = None, cs_trace = []\<rparr>"
  let ?st = "run cfg env addr ?s None 0"
  let ?e = "case cs_proxyConn ?st of None \<Rightarrow> ?st | Some ln \<Rightarrow> emit (EClose (ln_id ln)) ?st"
  have d: "delivers cfg p ?s resps" using assms(4) by (simp add: delivers_def)
  note r = run_serves [OF assms(3) d assms(5-7), of addr 0]
  have e: "responses (cs_trace ?e) = responses (cs_trace ?st)" "sends (cs_trace ?e) = sends (cs_trace ?st)"
    "tokens (cs_trace ?e) = tokens (cs_trace ?st)"
    by (simp_all add: emit_def trace_counts split: option.splits)
  have t: "handleClientCtx cfg env addr (map Inr rs) = cs_trace ?e @ closeClient env"
    using assms(1,2) by (simp add: handleClientCtx_def Let_def)
  from r show ?thesis unfolding t closing_counts e by (auto simp: trace_Nil)
qed

theorem session_serves_in_order_witness:
  "responses (handleClientCtx sample_cfg (sample_env None) ''1.2.3.4:5'' [Inr sample_get, Inr sample_get]) =
     replicate 2 ((sample_response 200)\<lparr>resp_Header := [(''Link'', [''</a>'']), (''Via'', [''HTTP/1.1 p1''])]\<rparr>) \<and>
   tokens (handleClientCtx sample_cfg (sample_env None) ''1.2.3.4:5'' [Inr sample_get, Inr sample_get]) = 1"
proof -
  let ?p = "\<lparr>peer_uploads = (\<lambda>i. Upload False None),
       peer_stream = [Inr (sample_response 200), Inr (sample_response 200)]\<rparr>"
  let ?r = "(sample_response 200)\<lparr>resp_Header := [(''Link'', [''</a>'']), (''Via'', [''HTTP/1.1 p1''])]\<rparr>"
  have c: "cooperative (sample_env None) ?p" by (simp add: cooperative_def sample_env_def)
  have s: "map (\<lambda>rr. readUpstreamResponse rr (cfg_Pseudonym sample_cfg)) (peer_stream ?p) = map Inr [?r, ?r]"
    "list_all keeps_open [?r, ?r]" "list_all (plain_request sample_cfg (sample_env None)) [sample_get, sample_get]"
    "cfg_Pseudonym sample_cfg \<noteq> []" "ipAllowed (parseIP (extractHost ''1.2.3.4:5'')) (cfg_AllowedIPs sample_cfg)"
    by code_simp+
  from session_serves_in_order [OF s(4,5) c s(1-3)] show ?thesis
    by (simp add: numeral_2_eq_2)
qed

section \<open>Clients outside the allowlist\<close>

text \<open>A client whose address no entry of the -allowed-ips list covers is refused: the whole
  session is the 403 answer, the discarding of its input and the close; no request is read, no token acquired
  and no connection dialled, whatever the client sends.\<close>

lemma unlisted_client_denied:
  assumes "cfg_Pseudonym cfg \<noteq> []" and "ParseAllowList s = Inr (cfg_AllowedIPs cfg)"
    and "SplitCSV s \<noteq> []"
    and "\<not> (\<exists>e\<in>set (SplitCSV s). \<exists>a n. entry_prefix e = Some (a, n) \<and>
      covers (net_meaning a n) (parseIP (extractHost addr)))"
  shows "handleClientCtx cfg env addr reqs = EError errClientDenied # EDrain # closeClient env"
proof -
  have "\<not> ipAllowed (parseIP (extractHost addr)) (cfg_AllowedIPs cfg)"
    using ipAllowed_meaning [OF assms(2)] assms(3,4) by blast
  then show ?thesis
    using assms(1) by (auto simp: handleClientCtx_def ipAllowed_def)
qed

end
