(* ===== verification/Token_Provider.thy ===== *)
theory Token_Provider
  imports Response_Check Access_Config "HOL-Library.Word"
begin

text \<open>
  The TokenProvider interface of src/internal/proxy/config.go as a locale, the base64 encoding that every
  provider ends with, the macOS GSS-API provider of src/internal/proxy/auth_gss_darwin.go (with the
  constructors that refuse on other builds) and the circuit breaker wrapper of
  src/internal/proxy/circuit_breaker.go. The GSS-API framework and the gobreaker library are not part of
  the repository: the former is an argument, the latter is a pair of arguments (its admission test and its
  result report, the two halves of Execute) with the documented breaker behaviour as a named hypothesis.
\<close>

section \<open>Base64\<close>

definition b64_char :: "nat \<Rightarrow> char" where
  "b64_char n =
     (if n < 26 then char_of (65 + n) else if n < 52 then char_of (71 + n)
      else if n < 62 then char_of (n - 4) else if n = 62 then CHR ''+'' else CHR ''/'')"

text \<open>\<^verbatim>\<open>base64.StdEncoding.EncodeToString\<close>.\<close>

fun base64 :: "bytes \<Rightarrow> string" where
  "base64 [] = []"
| "base64 [a] =
     [b64_char (byte a div 4), b64_char (byte a mod 4 * 16), CHR ''='', CHR ''='']"
| "base64 [a, b] =
     [b64_char (byte a div 4), b64_char (byte a mod 4 * 16 + byte b div 16),
      b64_char (byte b mod 16 * 4), CHR ''='']"
| "base64 (a # b # c # bs) =
     b64_char (byte a div 4) # b64_char (byte a mod 4 * 16 + byte b div 16) #
     b64_char (byte b mod 16 * 4 + byte c div 64) # b64_char (byte c mod 64) # base64 bs"

definition b64_alphabet :: "char \<Rightarrow> bool" where
  "b64_alphabet c \<longleftrightarrow> is_upper c \<or> is_lower c \<or> is_digit c \<or> c = CHR ''+'' \<or> c = CHR ''/'' \<or> c = CHR ''=''"

lemma b64_char_alphabet: "n < 64 \<Longrightarrow> b64_alphabet (b64_char n)"
  by (auto simp: b64_char_def b64_alphabet_def char_class_defs)

lemma byte_bound: "byte c < 256"
  by (rule nat_of_char_less_256)

lemma b64_indices:
  "byte a div 4 < 64" "byte a mod 4 * 16 + byte b div 16 < 64"
  "byte b mod 16 * 4 + byte c div 64 < 64" "byte c mod 64 < 64"
  "byte a mod 4 * 16 < 64" "byte b mod 16 * 4 < 64"
proof -
  have "byte b div 16 < 16" "byte c div 64 < 4"
    using byte_bound [of b] byte_bound [of c] by (auto intro: less_mult_imp_div_less)
  moreover have "byte a mod 4 < 4" "byte b mod 16 < 16" by simp_all
  ultimately show "byte a mod 4 * 16 + byte b div 16 < 64" "byte b mod 16 * 4 + byte c div 64 < 64"
    "byte a mod 4 * 16 < 64" "byte b mod 16 * 4 < 64" by linarith+
  show "byte a div 4 < 64" using byte_bound [of a] by (auto intro: less_mult_imp_div_less)
qed simp

lemma base64_alphabet: "list_all b64_alphabet (base64 bs)"
  by (induction bs rule: base64.induct) (simp_all add: b64_char_alphabet b64_indices b64_alphabet_def [of "CHR ''=''"])

lemma b64_clean: "list_all b64_alphabet t \<Longrightarrow> \<not> hasForbiddenFieldValueByte t"
  by (auto simp: list_all_iff hasForbiddenFieldValueByte_def list_ex_iff b64_alphabet_def forbiddenByte_def
      char_class_defs)

lemma credential_text_clean: "list_all b64_alphabet t \<Longrightarrow> \<not> hasForbiddenFieldValueByte (negotiateScheme @ t)"
  using b64_clean [of t] by (auto simp: hasForbiddenFieldValueByte_def literal_defs forbiddenByte_def)

section \<open>The interface\<close>

text \<open>\<open>getToken s i\<close> acquires a token in state \<open>s\<close> with the answers \<open>i\<close> of the outside world;
  a provider promises that a token is base64 text, and keeps its own invariant.\<close>

locale token_provider =
  fixes getToken :: "'s \<Rightarrow> 'i \<Rightarrow> (go_error + string) \<times> 's"
    and close :: "'s \<Rightarrow> 's"
    and invar :: "'s \<Rightarrow> bool"
  assumes token_b64: "invar s \<Longrightarrow> getToken s i = (Inr t, s') \<Longrightarrow> list_all b64_alphabet t"
    and invar_get: "invar s \<Longrightarrow> invar (snd (getToken s i))"
    and invar_close: "invar s \<Longrightarrow> invar (close s)"
begin

lemma credential_clean:
  "invar s \<Longrightarrow> getToken s i = (Inr t, s') \<Longrightarrow> \<not> hasForbiddenFieldValueByte (negotiateScheme @ t)"
  by (rule credential_text_clean [OF token_b64])

fun getTokens :: "'s \<Rightarrow> 'i list \<Rightarrow> (go_error + string) list \<times> 's" where
  "getTokens s [] = ([], s)"
| "getTokens s (i # is) =
     (let (r, s1) = getToken s i; (rs, s2) = getTokens s1 is in (r # rs, s2))"

lemma invar_getTokens: "invar s \<Longrightarrow> invar (snd (getTokens s is))"
proof (induction "is" arbitrary: s)
  case (Cons i "is")
  with invar_get [of s i] show ?case
    by (auto simp: Let_def split: prod.splits) (metis snd_conv)
qed simp

lemma all_credentials_clean:
  "invar s \<Longrightarrow> Inr t \<in> set (fst (getTokens s is)) \<Longrightarrow> \<not> hasForbiddenFieldValueByte (negotiateScheme @ t)"
proof (induction "is" arbitrary: s)
  case (Cons i "is")
  obtain r s1 where g: "getToken s i = (r, s1)" by (cases "getToken s i")
  with invar_get [OF Cons.prems(1), of i] have "invar s1" by simp
  with Cons.IH [of s1] Cons.prems g credential_clean [OF Cons.prems(1), of i t s1] show ?case
    by (auto simp: Let_def split: prod.splits)
qed simp

end

section \<open>The GSS-API provider\<close>

record GSSTokenProvider =
  gss_spn :: string

text \<open>The result structure of \<^verbatim>\<open>acquire_spnego_token\<close>; no data is \<open>None\<close>.\<close>

record gss_result =
  gr_error_code :: int
  gr_error_msg :: string
  gr_data :: "bytes option"

definition NewGSSTokenProvider :: "string \<Rightarrow> string \<Rightarrow> GSSTokenProvider" where
  "NewGSSTokenProvider proxyHost explicitSPN =
     \<lparr>gss_spn = (if explicitSPN = [] then ''HTTP@'' @ extractHost proxyHost
                  else normalizeSPN explicitSPN CHR ''@'' CHR ''/'')\<rparr>"

text \<open>The arguments are \<^verbatim>\<open>acquire_spnego_token\<close> and the environment variable KRB5CCNAME.\<close>

definition gssGetToken ::
    "GSSTokenProvider \<Rightarrow> (string \<Rightarrow> gss_result) \<times> string \<Rightarrow> (go_error + string) \<times> GSSTokenProvider" where
  "gssGetToken g io =
     (case io of (acquire, ccname) \<Rightarrow>
        let result = acquire (gss_spn g)
        in if gr_error_code result \<noteq> 0 then
             let hint = (if ccname \<noteq> []
                         then '' (KRB5CCNAME='' @ ccname @ ''; try ''@ [CHR 0x27] @ ''klist'' @ [CHR 0x27] @
                           '' to check credentials or '' @ [CHR 0x27] @ ''kinit'' @ [CHR 0x27] @ '' to refresh)''
                         else '' (try '' @ [CHR 0x27] @ ''klist'' @ [CHR 0x27] @
                           '' to check credentials or '' @ [CHR 0x27] @ ''kinit'' @ [CHR 0x27] @ '' to refresh)'')
             in (Inl (Auth CredentialError (''GSS-API error: '' @ gr_error_msg result @ hint) None), g)
           else (case gr_data result of
                   None \<Rightarrow> (Inl (Auth NegotiationError ''GSS-API returned empty token'' None), g)
                 | Some data \<Rightarrow>
                     if data = [] then (Inl (Auth NegotiationError ''GSS-API returned empty token'' None), g)
                     else (Inr (base64 data), g)))"

definition gssClose :: "GSSTokenProvider \<Rightarrow> GSSTokenProvider" where
  "gssClose g = g"

interpretation gss: token_provider gssGetToken gssClose "\<lambda>g. True"
  by unfold_locales
     (auto simp: gssGetToken_def gssClose_def Let_def base64_alphabet split: if_splits option.splits)

text \<open>Which build the program is: macOS with cgo, macOS without, or another system.\<close>

datatype platform = DarwinCgo | DarwinNoCgo | NotDarwin

text \<open>\<^verbatim>\<open>NewNativeTokenProvider\<close> of the three builds; the probe of the macOS one only logs.\<close>

definition NewNativeTokenProviderNoCgo :: "go_error + GSSTokenProvider" where
  "NewNativeTokenProviderNoCgo =
     Inl (Plain ''native GSS-API requires CGO; rebuild with CGO_ENABLED=1 on macOS, or use -user for password-based authentication'')"

definition NewNativeTokenProviderNotDarwin :: "go_error + GSSTokenProvider" where
  "NewNativeTokenProviderNotDarwin =
     Inl (Plain ''native GSS-API is only available on macOS; use -user, -realm, -config, and -password-file for password-based authentication'')"

definition NewNativeTokenProvider :: "platform \<Rightarrow> string \<Rightarrow> string \<Rightarrow> go_error + GSSTokenProvider" where
  "NewNativeTokenProvider pf proxy spn =
     (case pf of
        DarwinCgo \<Rightarrow> Inr (NewGSSTokenProvider proxy spn)
      | DarwinNoCgo \<Rightarrow> NewNativeTokenProviderNoCgo
      | NotDarwin \<Rightarrow> NewNativeTokenProviderNotDarwin)"

section \<open>The circuit breaker\<close>

definition CBConsecutiveFailures :: int where "CBConsecutiveFailures = 3"

definition CBTimeout :: int where "CBTimeout = 30 * 1000000000"

text \<open>\<^verbatim>\<open>gobreaker.Settings\<close>: \<^verbatim>\<open>ReadyToTrip\<close> is given the number of consecutive failures.\<close>

record breaker_settings =
  st_MaxRequests :: "32 word"
  st_Timeout :: int
  st_ReadyToTrip :: "32 word \<Rightarrow> bool"

text \<open>The two halves of \<^verbatim>\<open>Execute\<close>: whether a request is admitted at a given time, and the report of
  its result.\<close>

record 'b gobreaker =
  gb_admit :: "'b \<Rightarrow> int \<Rightarrow> go_error option \<times> 'b"
  gb_report :: "'b \<Rightarrow> int \<Rightarrow> bool \<Rightarrow> 'b"

record ('b, 'p) CircuitBreakerTokenProvider =
  cb_inner :: 'p
  cb_cb :: 'b
  cb_threshold :: "32 word"

definition cbSettings :: "32 word \<Rightarrow> int \<Rightarrow> breaker_settings" where
  "cbSettings threshold timeout =
     \<lparr>st_MaxRequests = 1, st_Timeout = timeout,
      st_ReadyToTrip = (\<lambda>consecutiveFailures. consecutiveFailures \<ge> threshold)\<rparr>"

definition newCircuitBreakerTokenProvider ::
    "(breaker_settings \<Rightarrow> 'b) \<Rightarrow> 'p \<Rightarrow> breaker_settings \<Rightarrow> 32 word \<Rightarrow> ('b, 'p) CircuitBreakerTokenProvider" where
  "newCircuitBreakerTokenProvider new inner settings threshold =
     \<lparr>cb_inner = inner, cb_cb = new settings, cb_threshold = threshold\<rparr>"

definition NewCircuitBreakerTokenProvider ::
    "(breaker_settings \<Rightarrow> 'b) \<Rightarrow> 'p \<Rightarrow> 32 word \<Rightarrow> int \<Rightarrow> ('b, 'p) CircuitBreakerTokenProvider" where
  "NewCircuitBreakerTokenProvider new inner threshold timeout =
     newCircuitBreakerTokenProvider new inner (cbSettings threshold timeout) threshold"

lemma NewCircuitBreakerTokenProvider_simps [simp]:
  "cb_inner (NewCircuitBreakerTokenProvider new inner threshold timeout) = inner"
  "cb_cb (NewCircuitBreakerTokenProvider new inner threshold timeout) = new (cbSettings threshold timeout)"
  "cb_threshold (NewCircuitBreakerTokenProvider new inner threshold timeout) = threshold"
  by (simp_all add: NewCircuitBreakerTokenProvider_def newCircuitBreakerTokenProvider_def)

definition cbError :: "32 word \<Rightarrow> go_error \<Rightarrow> go_error" where
  "cbError threshold err =
     (if errors_is err ErrOpenState then
        Auth CircuitBreakerError (''circuit breaker open: token acquisition disabled after '' @
          dec_of_nat (unat threshold) @ '' consecutive failures'') (Some err)
      else if errors_is err ErrTooManyRequests then
        Auth CircuitBreakerError ''circuit breaker half-open: probe in progress, rejecting concurrent request'' (Some err)
      else err)"

text \<open>One call, under the mutex: it starts at \<open>t0\<close>, the wrapped provider answers by \<open>t1\<close>.\<close>

definition cbGetToken ::
    "'b gobreaker \<Rightarrow> ('p \<Rightarrow> 'i \<Rightarrow> (go_error + string) \<times> 'p) \<Rightarrow> ('b, 'p) CircuitBreakerTokenProvider \<Rightarrow>
     int \<times> int \<times> 'i \<Rightarrow> (go_error + string) \<times> ('b, 'p) CircuitBreakerTokenProvider" where
  "cbGetToken gb getInner p call =
     (case call of (t0, t1, io) \<Rightarrow>
        (case gb_admit gb (cb_cb p) t0 of
           (Some err, cb1) \<Rightarrow> (Inl (cbError (cb_threshold p) err), p\<lparr>cb_cb := cb1\<rparr>)
         | (None, cb1) \<Rightarrow>
             (case getInner (cb_inner p) io of (res, inner1) \<Rightarrow>
                let p1 = p\<lparr>cb_inner := inner1, cb_cb := gb_report gb cb1 t1 (\<not> Sum_Type.isl res)\<rparr>
                in (case res of
                      Inl err \<Rightarrow> (Inl (cbError (cb_threshold p) err), p1)
                    | Inr token \<Rightarrow> (Inr token, p1)))))"

definition cbClose :: "('p \<Rightarrow> 'p) \<Rightarrow> ('b, 'p) CircuitBreakerTokenProvider \<Rightarrow> ('b, 'p) CircuitBreakerTokenProvider" where
  "cbClose closeInner p = p\<lparr>cb_inner := closeInner (cb_inner p)\<rparr>"

text \<open>Wrapping a provider gives a provider.\<close>

context token_provider
begin

lemma breaker_wrapped:
  fixes gb :: "'b gobreaker"
  shows "token_provider (cbGetToken gb getToken) (cbClose close) (\<lambda>p. invar (cb_inner p))"
proof unfold_locales
  fix p p' :: "('b, 's) CircuitBreakerTokenProvider" and i t
  assume "invar (cb_inner p)" "cbGetToken gb getToken p i = (Inr t, p')"
  then show "list_all b64_alphabet t"
    by (auto simp: cbGetToken_def Let_def dest: token_b64 split: prod.splits option.splits sum.splits)
next
  fix p :: "('b, 's) CircuitBreakerTokenProvider" and i
  assume "invar (cb_inner p)"
  then show "invar (cb_inner (snd (cbGetToken gb getToken p i)))"
    using invar_get [of "cb_inner p" "snd (snd i)"]
    by (auto simp: cbGetToken_def Let_def split: prod.splits option.splits sum.splits)
next
  fix p :: "('b, 's) CircuitBreakerTokenProvider"
  assume "invar (cb_inner p)"
  then show "invar (cb_inner (cbClose close p))" by (simp add: cbClose_def invar_close)
qed

end

interpretation gss_cb: token_provider "cbGetToken gb gssGetToken" "cbClose gssClose" "\<lambda>p. True" for gb
  by (rule gss.breaker_wrapped)

section \<open>Lockout protection\<close>

text \<open>The documented states of a gobreaker circuit breaker: closed with a count of consecutive
  failures, open until a given time, half-open with or without its one probe in flight.\<close>

datatype breaker_view = Closed nat | OpenUntil int | HalfOpen bool

text \<open>gobreaker replaces a timeout that is not positive by 60 seconds.\<close>

definition effectiveTimeout :: "int \<Rightarrow> int" where
  "effectiveTimeout t = (if t \<le> 0 then 60 * 1000000000 else t)"

definition admit_view :: "breaker_view \<Rightarrow> int \<Rightarrow> sentinel option \<times> breaker_view" where
  "admit_view v t =
     (case v of
        Closed n \<Rightarrow> (None, Closed n)
      | OpenUntil e \<Rightarrow> if t \<le> e then (Some ErrOpenState, OpenUntil e) else (None, HalfOpen True)
      | HalfOpen busy \<Rightarrow> if busy then (Some ErrTooManyRequests, HalfOpen True) else (None, HalfOpen True))"

definition report_view :: "breaker_settings \<Rightarrow> breaker_view \<Rightarrow> int \<Rightarrow> bool \<Rightarrow> breaker_view" where
  "report_view st v t ok =
     (case v of
        Closed n \<Rightarrow>
          if ok then Closed 0
          else if st_ReadyToTrip st (of_nat (Suc n)) then OpenUntil (t + effectiveTimeout (st_Timeout st))
          else Closed (Suc n)
      | HalfOpen busy \<Rightarrow> if ok then Closed 0 else OpenUntil (t + effectiveTimeout (st_Timeout st))
      | OpenUntil e \<Rightarrow> OpenUntil e)"

text \<open>What the proxy relies on of gobreaker, for the settings \<open>st\<close> with one half-open request.\<close>

definition documented_breaker ::
    "'b gobreaker \<Rightarrow> (breaker_settings \<Rightarrow> 'b) \<Rightarrow> ('b \<Rightarrow> breaker_view) \<Rightarrow> breaker_settings \<Rightarrow> bool" where
  "documented_breaker gb new view st \<longleftrightarrow>
     view (new st) = Closed 0 \<and>
     (\<forall>b t. fst (gb_admit gb b t) = map_option Sentinel (fst (admit_view (view b) t)) \<and>
        view (snd (gb_admit gb b t)) = snd (admit_view (view b) t)) \<and>
     (\<forall>b t ok. view (gb_report gb b t ok) = report_view st (view b) t ok)"

text \<open>The breaker's view after \<open>k\<close> failed attempts, the last one ending at \<open>e\<close>.\<close>

definition failed_view :: "32 word \<Rightarrow> int \<Rightarrow> nat \<Rightarrow> int \<Rightarrow> breaker_view" where
  "failed_view threshold timeout k e =
     (if k < unat threshold then Closed k else OpenUntil (e + effectiveTimeout timeout))"

lemma trip_iff:
  assumes "Suc k \<le> unat (threshold :: 32 word)"
  shows "threshold \<le> of_nat (Suc k) \<longleftrightarrow> Suc k = unat threshold"
proof -
  have "unat threshold < 2 ^ LENGTH(32)" by (rule unsigned_less)
  with assms have "Suc k < 2 ^ 32" by simp
  then have "unat (of_nat (Suc k) :: 32 word) = Suc k" by (simp add: unat_of_nat take_bit_nat_eq_self del: of_nat_Suc)
  then show ?thesis using assms by (auto simp add: word_le_nat_alt simp del: of_nat_Suc)
qed

text \<open>One call seen through the breaker's documented states: an admitted call comes before the limit is
  reached or after the cooldown, and counts as a failure or resets the count; a refused one changes
  nothing.\<close>

lemma call_view:
  assumes doc: "documented_breaker gb new view (cbSettings threshold timeout)"
    and th: "1 \<le> unat threshold"
    and v: "view (cb_cb p) = failed_view threshold timeout k e"
    and get: "cbGetToken gb getInner p (t0, t1, io) = (r, p')"
  shows "if fst (gb_admit gb (cb_cb p) t0) = None
    then view (cb_cb p') = failed_view threshold timeout (if Sum_Type.isl r then Suc k else 0) t1 \<and>
      (k < unat threshold \<or> e + effectiveTimeout timeout < t0)
    else view (cb_cb p') = failed_view threshold timeout k e"
proof -
  obtain res inner1 where g: "getInner (cb_inner p) io = (res, inner1)" by (cases "getInner (cb_inner p) io")
  obtain a cb1 where ad: "gb_admit gb (cb_cb p) t0 = (a, cb1)" by (cases "gb_admit gb (cb_cb p) t0")
  from doc have av: "a = map_option Sentinel (fst (admit_view (view (cb_cb p)) t0))"
    "view cb1 = snd (admit_view (view (cb_cb p)) t0)"
    unfolding documented_breaker_def using ad by (metis fst_conv snd_conv)+
  let ?ok = "\<not> Sum_Type.isl res"
  from doc have rep: "view (gb_report gb cb1 t1 ?ok) = report_view (cbSettings threshold timeout) (view cb1) t1 ?ok"
    by (simp add: documented_breaker_def)
  have p': "cb_cb p' = (if a = None then gb_report gb cb1 t1 ?ok else cb1)" "a = None \<Longrightarrow> Sum_Type.isl r = (\<not> ?ok)"
    using get by (cases a; cases res; auto simp: cbGetToken_def ad g Let_def)+
  show ?thesis
  proof (cases "k < unat threshold")
    case True
    with v have "view (cb_cb p) = Closed k" by (simp add: failed_view_def)
    moreover from trip_iff [of k threshold] True
    have "threshold \<le> of_nat (Suc k) \<longleftrightarrow> \<not> Suc k < unat threshold" by auto
    ultimately show ?thesis
      using av rep p' ad True th
      by (auto simp add: admit_view_def report_view_def cbSettings_def failed_view_def simp del: of_nat_Suc)
  next
    case False
    with v have "view (cb_cb p) = OpenUntil (e + effectiveTimeout timeout)" by (simp add: failed_view_def)
    then show ?thesis
      using av rep p' ad False th
      by (auto simp: admit_view_def report_view_def cbSettings_def failed_view_def split: if_splits)
  qed
qed

text \<open>A breaker that behaves as documented: the view itself is its state.\<close>

definition view_breaker :: "breaker_settings \<Rightarrow> breaker_view gobreaker" where
  "view_breaker st =
     \<lparr>gb_admit = (\<lambda>v t. (map_option Sentinel (fst (admit_view v t)), snd (admit_view v t))),
      gb_report = report_view st\<rparr>"

lemma view_breaker_documented: "documented_breaker (view_breaker st) (\<lambda>s. Closed 0) id st"
  by (simp add: documented_breaker_def view_breaker_def)

section \<open>What the client is told\<close>

text \<open>A token failure reaches the client as the right error: a call the breaker rejects is reported
  as an open circuit without touching the wrapped provider, and an authentication error of the
  wrapped provider keeps its kind through the wrapper.\<close>

lemma breaker_error_kinds:
  assumes "documented_breaker gb new view st"
    and "cbGetToken gb getInner p (t0, t1, io) = (Inl err, p')"
  shows "(fst (gb_admit gb (cb_cb p) t0) \<noteq> None \<longrightarrow>
      tokenErrorToProxyError err = errCircuitBreakerOpen \<and> cb_inner p' = cb_inner p) \<and>
    (fst (gb_admit gb (cb_cb p) t0) = None \<longrightarrow>
      (\<exists>e. fst (getInner (cb_inner p) io) = Inl e \<and>
         (errors_is e ErrOpenState \<or> errors_is e ErrTooManyRequests \<or>
          tokenErrorToProxyError err = tokenErrorToProxyError e)))"
proof (cases "fst (gb_admit gb (cb_cb p) t0)")
  case (Some e)
  from assms(1) have "Some e = map_option Sentinel (fst (admit_view (view (cb_cb p)) t0))"
    unfolding documented_breaker_def using Some by metis
  then obtain s where s: "e = Sentinel s" "fst (admit_view (view (cb_cb p)) t0) = Some s"
    by (cases "fst (admit_view (view (cb_cb p)) t0)") auto
  then have "s = ErrOpenState \<or> s = ErrTooManyRequests"
    by (auto simp: admit_view_def split: breaker_view.splits if_splits)
  moreover have "err = cbError (cb_threshold p) e" "cb_inner p' = cb_inner p"
    using assms(2) Some by (auto simp: cbGetToken_def split: prod.splits)
  ultimately show ?thesis
    using Some s by (auto simp: cbError_def tokenErrorToProxyError_def errors_as_auth_Auth)
next
  case None
  with assms(2) obtain e where "fst (getInner (cb_inner p) io) = Inl e" "err = cbError (cb_threshold p) e"
    by (auto simp: cbGetToken_def Let_def split: prod.splits sum.splits)
  with None show ?thesis by (auto simp: cbError_def)
qed

theorem breaker_error_kinds_witness:
  "\<exists>err p'. cbGetToken (view_breaker (cbSettings 1 30)) (\<lambda>s i. (Inr [], s))
      \<lparr>cb_inner = (), cb_cb = OpenUntil 30, cb_threshold = 1\<rparr> (5, 6, ()) = (Inl err, p') \<and>
     tokenErrorToProxyError err = errCircuitBreakerOpen"
proof -
  let ?p = "\<lparr>cb_inner = (), cb_cb = OpenUntil 30, cb_threshold = 1\<rparr>"
  let ?gb = "view_breaker (cbSettings 1 30)"
  have "fst (gb_admit ?gb (cb_cb ?p) 5) \<noteq> None" by (simp add: view_breaker_def admit_view_def)
  moreover have g: "cbGetToken ?gb (\<lambda>s i. (Inr [], s)) ?p (5, 6, ()) =
      (Inl (cbError 1 (Sentinel ErrOpenState)), ?p)"
    by (simp add: cbGetToken_def view_breaker_def admit_view_def)
  ultimately show ?thesis using breaker_error_kinds [OF view_breaker_documented g] by blast
qed

end
