(* ===== verification/Gokrb5_Provider.thy ===== *)
theory Gokrb5_Provider
  imports Token_Provider
begin

unbundle bit_operations_syntax

text \<open>
  The password-based token provider: src/internal/proxy/auth_gokrb5.go. The gokrb5 library (with the
  Kerberos configuration and client settings it is given), the terminal, the file system and the keyed
  hash are arguments. Each method that may dereference the warning ticker or close its channel returns
  \<open>None\<close> where Go would panic; the methods also return the password reads, logins and rejections they
  caused, each named by the password's fingerprint. Instants and durations are nanoseconds.
\<close>

section \<open>Library and environment\<close>

text \<open>The KDC's reply as far as the provider reads it; a zero \<^verbatim>\<open>AuthTime\<close> is \<open>None\<close>.\<close>

record asRep =
  rep_CRealm :: string
  rep_CName :: string
  rep_TicketRealm :: string
  rep_TicketSName :: string
  rep_Ticket :: "go_error + bytes"
  rep_Key :: bytes
  rep_AuthTime :: "int option"
  rep_StartTime :: int
  rep_EndTime :: int
  rep_RenewTill :: int

record ccEntry =
  cc_Key :: bytes
  cc_AuthTime :: "int option"
  cc_StartTime :: int
  cc_EndTime :: int
  cc_RenewTill :: int
  cc_Ticket :: bytes
  cc_Client :: "string \<times> string"
  cc_Server :: "string \<times> string"

record ccache =
  cc_DefaultPrincipal :: "string \<times> string"
  cc_Credentials :: "ccEntry list"

record ('c, 't) krb5 =
  kb_newASReq :: "string \<Rightarrow> string \<Rightarrow> go_error option"
  kb_asExchange :: "string \<Rightarrow> string \<Rightarrow> bytes \<Rightarrow> go_error + asRep"
  kb_newFromCCache :: "ccache \<Rightarrow> go_error + 'c"
  kb_initSecContext :: "'c \<Rightarrow> string \<Rightarrow> go_error + 't"
  kb_marshal :: "'t \<Rightarrow> go_error + bytes"

record pwFile =
  pf_Stat :: "go_error + 32 word"
  pf_Content :: "go_error + bytes"

record osEnv =
  os_isTerminal :: bool
  os_readPassword :: "go_error + bytes"
  os_Open :: "string \<Rightarrow> go_error + pwFile"

section \<open>The provider\<close>

datatype stop_chan = NilChan | OpenChan | ClosedChan

text \<open>The warning ticker is nil, running or stopped.\<close>

record 'c Gokrb5TokenProvider =
  g_user :: string
  g_realm :: string
  g_spn :: string
  g_passwordFile :: string
  g_ticketClient :: "'c option"
  g_ticketRefreshAt :: int
  g_stdinPassword :: bytes
  g_closed :: bool
  g_passwordRejected :: bool
  g_fingerprintKey :: bytes
  g_rejectedFingerprint :: bytes
  g_rejectWarnTicker :: "bool option"
  g_rejectWarnStop :: stop_chan

datatype krb_event = PwRead bytes | Login bytes | LoginRejected bytes

definition isPasswordRejection :: "go_error option \<Rightarrow> bool" where
  "isPasswordRejection err = (case err of None \<Rightarrow> False | Some e \<Rightarrow> sublist ''KDC_ERR_PREAUTH_FAILED'' (error_text e))"

fun oct_of_nat :: "nat \<Rightarrow> string" where
  "oct_of_nat n = (if n < 8 then [char_of (48 + n)] else oct_of_nat (n div 8) @ [char_of (48 + n mod 8)])"

declare oct_of_nat.simps [simp del]

definition maxPasswordFileSize :: nat where "maxPasswordFileSize = 4096"

definition isCRLF :: "char \<Rightarrow> bool" where
  "isCRLF c \<longleftrightarrow> byte c = 0x0D \<or> byte c = 0x0A"

definition trimRightCRLF :: "bytes \<Rightarrow> bytes" where
  "trimRightCRLF s = rev (dropWhile isCRLF (rev s))"

text \<open>The octal masks 0777 and 0077.\<close>

definition permMask :: "32 word" where "permMask = 7 * 8 * 8 + 7 * 8 + 7"

definition groupOtherMask :: "32 word" where "groupOtherMask = 7 * 8 + 7"

definition getPassword :: "osEnv \<Rightarrow> string \<Rightarrow> go_error + bytes" where
  "getPassword os passwordFile =
     (if passwordFile = [] then
        if \<not> os_isTerminal os then Inl (Plain ''no password file specified and stdin is not a terminal'')
        else (case os_readPassword os of
                Inl err \<Rightarrow> Inl (Wrap (''failed to read password: '' @ error_text err) err)
              | Inr password \<Rightarrow> Inr password)
      else
        (case os_Open os passwordFile of
           Inl err \<Rightarrow> Inl (Wrap (''failed to open password file: '' @ error_text err) err)
         | Inr f \<Rightarrow>
             (case pf_Stat f of
                Inl err \<Rightarrow> Inl (Wrap (''failed to stat password file: '' @ error_text err) err)
              | Inr mode0 \<Rightarrow>
                  let mode = mode0 AND permMask
                  in if mode AND groupOtherMask \<noteq> 0 then
                       Inl (Plain (''password file '' @ passwordFile @ '' has insecure permissions '' @
                         (let o8 = oct_of_nat (unat mode) in replicate (4 - length o8) (CHR ''0'') @ o8) @
                         ''; must not be accessible by group or others (e.g. 0600)''))
                     else
                       (case pf_Content f of
                          Inl err \<Rightarrow> Inl (Wrap (''failed to read password file: '' @ error_text err) err)
                        | Inr content \<Rightarrow> Inr (trimRightCRLF (take maxPasswordFileSize content))))))"

text \<open>\<open>loadConfig\<close> is \<^verbatim>\<open>config.Load\<close>: its error, if any. \<open>rand\<close> is the 32 random key bytes.\<close>

definition NewGokrb5TokenProvider ::
    "osEnv \<Rightarrow> (string \<Rightarrow> go_error option) \<Rightarrow> bytes \<Rightarrow> string \<Rightarrow> string \<Rightarrow> string \<Rightarrow> string \<Rightarrow> string \<Rightarrow> string \<Rightarrow>
     go_error + 'c Gokrb5TokenProvider" where
  "NewGokrb5TokenProvider os loadConfig rand user realm cfgFile passwordFile proxy explicitSPN =
     (if cfgFile = [] \<or> realm = [] then
        Inl (Plain ''-config and -realm are required when using password-based authentication'')
      else
        let spnVal = (if explicitSPN = [] then ''HTTP/'' @ extractHost proxy
                      else normalizeSPN explicitSPN CHR ''/'' CHR ''@'')
        in (case loadConfig cfgFile of
              Some err \<Rightarrow> Inl (Wrap (''failed to load kerberos config: '' @ error_text err) err)
            | None \<Rightarrow>
                (case getPassword os passwordFile of
                   Inl err \<Rightarrow> Inl (Wrap (''failed to get password: '' @ error_text err) err)
                 | Inr passwd \<Rightarrow>
                     Inr \<lparr>g_user = user, g_realm = realm, g_spn = spnVal, g_passwordFile = passwordFile,
                          g_ticketClient = None, g_ticketRefreshAt = 0,
                          g_stdinPassword = (if passwordFile = [] then passwd else []),
                          g_closed = False, g_passwordRejected = False, g_fingerprintKey = rand,
                          g_rejectedFingerprint = replicate 32 CHR 0x00, g_rejectWarnTicker = None,
                          g_rejectWarnStop = NilChan\<rparr>)))"

definition readPassword :: "osEnv \<Rightarrow> 'c Gokrb5TokenProvider \<Rightarrow> go_error + bytes" where
  "readPassword os p =
     (if g_passwordFile p = [] then Inr (g_stdinPassword p) else getPassword os (g_passwordFile p))"

text \<open>\<open>mac\<close> is HMAC-SHA256 of a key and a message.\<close>

definition passwordFingerprint :: "(bytes \<Rightarrow> bytes \<Rightarrow> bytes) \<Rightarrow> 'c Gokrb5TokenProvider \<Rightarrow> bytes \<Rightarrow> bytes" where
  "passwordFingerprint mac p passwd = mac (g_fingerprintKey p) passwd"

text \<open>Go's 64-bit durations: \<^verbatim>\<open>Time.Sub\<close> saturates, negation wraps at the least value, and division
  truncates towards zero.\<close>

definition satSub :: "int \<Rightarrow> int \<Rightarrow> int" where
  "satSub a b = max (- (2 ^ 63)) (min (2 ^ 63 - 1) (a - b))"

definition neg64 :: "int \<Rightarrow> int" where
  "neg64 x = (if x = - (2 ^ 63) then x else - x)"

definition quot6 :: "int \<Rightarrow> int" where
  "quot6 x = (if x \<ge> 0 then x div 6 else - ((- x) div 6))"

definition tgtRefreshDeadline :: "int \<Rightarrow> asRep \<Rightarrow> int" where
  "tgtRefreshDeadline now part =
     (let lifetime = (case rep_AuthTime part of
                        None \<Rightarrow> satSub (rep_EndTime part) now
                      | Some auth \<Rightarrow>
                          let l = satSub (rep_EndTime part) auth
                          in if l \<le> 0 then satSub (rep_EndTime part) now else l)
      in rep_EndTime part + quot6 (neg64 lifetime))"

definition acquireCredential ::
    "('c, 't) krb5 \<Rightarrow> int \<Rightarrow> 'c Gokrb5TokenProvider \<Rightarrow> bytes \<Rightarrow> go_error + 'c \<times> int" where
  "acquireCredential lib now p passwd =
     (case kb_newASReq lib (g_realm p) (g_user p) of
        Some err \<Rightarrow> Inl err
      | None \<Rightarrow>
          (case kb_asExchange lib (g_realm p) (g_user p) passwd of
             Inl err \<Rightarrow> Inl err
           | Inr rep \<Rightarrow>
               (case rep_Ticket rep of
                  Inl err \<Rightarrow> Inl err
                | Inr ticket \<Rightarrow>
                    let principal = (rep_CRealm rep, rep_CName rep);
                        entry = \<lparr>cc_Key = rep_Key rep, cc_AuthTime = rep_AuthTime rep,
                                 cc_StartTime = rep_StartTime rep, cc_EndTime = rep_EndTime rep,
                                 cc_RenewTill = rep_RenewTill rep, cc_Ticket = ticket,
                                 cc_Client = principal,
                                 cc_Server = (rep_TicketRealm rep, rep_TicketSName rep)\<rparr>
                    in (case kb_newFromCCache lib \<lparr>cc_DefaultPrincipal = principal, cc_Credentials = [entry]\<rparr> of
                          Inl err \<Rightarrow> Inl err
                        | Inr krbClient \<Rightarrow> Inr (krbClient, tgtRefreshDeadline now rep)))))"

definition rejectPassword :: "bytes \<Rightarrow> 'c Gokrb5TokenProvider \<Rightarrow> 'c Gokrb5TokenProvider" where
  "rejectPassword fingerprint p =
     (let p1 = p\<lparr>g_passwordRejected := True, g_rejectedFingerprint := fingerprint\<rparr>
      in if g_rejectWarnTicker p1 \<noteq> None then p1\<lparr>g_rejectWarnTicker := Some True\<rparr>
         else p1\<lparr>g_rejectWarnTicker := Some True, g_rejectWarnStop := OpenChan\<rparr>)"

definition passwordSource :: "'c Gokrb5TokenProvider \<Rightarrow> string" where
  "passwordSource p = (if g_passwordFile p = [] then ''terminal input at start-up'' else ''password file'')"

definition checkPasswordRejected ::
    "(bytes \<Rightarrow> bytes \<Rightarrow> bytes) \<Rightarrow> osEnv \<Rightarrow> 'c Gokrb5TokenProvider \<Rightarrow>
     (go_error option \<times> 'c Gokrb5TokenProvider \<times> krb_event list) option" where
  "checkPasswordRejected mac os p =
     (if \<not> g_passwordRejected p then Some (None, p, [])
      else (case readPassword os p of
              Inl err \<Rightarrow>
                Some (Some (Auth CredentialError ''KDC rejected the configured password and the password cannot be re-read to check for a correction; check password input and file permissions'' None), p, [])
            | Inr passwd \<Rightarrow>
                let fingerprint = passwordFingerprint mac p passwd
                in if fingerprint \<noteq> g_rejectedFingerprint p then
                     (case g_rejectWarnTicker p of
                        None \<Rightarrow> None
                      | Some _ \<Rightarrow>
                          Some (None, p\<lparr>g_passwordRejected := False, g_rejectWarnTicker := Some False\<rparr>,
                                [PwRead fingerprint]))
                   else
                     Some (Some (Auth CredentialError (''KDC rejected the configured password; refusing Kerberos logins until the password changes (source: '' @ passwordSource p @ '')'') None),
                           p, [PwRead fingerprint])))"

definition ticketGrantingClient ::
    "(bytes \<Rightarrow> bytes \<Rightarrow> bytes) \<Rightarrow> osEnv \<Rightarrow> ('c, 't) krb5 \<Rightarrow> int \<Rightarrow> 'c Gokrb5TokenProvider \<Rightarrow>
     (go_error + 'c) \<times> 'c Gokrb5TokenProvider \<times> krb_event list" where
  "ticketGrantingClient mac os lib now p =
     (case (g_ticketClient p, now < g_ticketRefreshAt p) of
        (Some c, True) \<Rightarrow> (Inr c, p, [])
      | _ \<Rightarrow>
          (case readPassword os p of
             Inl err \<Rightarrow>
               (Inl (Auth CredentialError ''failed to get password: check password input and file permissions'' None), p, [])
           | Inr passwd \<Rightarrow>
               let fingerprint = passwordFingerprint mac p passwd;
                   evs = [PwRead fingerprint, Login fingerprint]
               in (case acquireCredential lib now p passwd of
                     Inl err \<Rightarrow>
                       let e = Auth CredentialError (''could not acquire client credential: '' @ error_text err) (Some err)
                       in if isPasswordRejection (Some err)
                          then (Inl e, rejectPassword fingerprint p, evs @ [LoginRejected fingerprint])
                          else (Inl e, p, evs)
                   | Inr (krbClient, refreshAt) \<Rightarrow>
                       (Inr krbClient, p\<lparr>g_ticketClient := Some krbClient, g_ticketRefreshAt := refreshAt\<rparr>, evs))))"

text \<open>The answers of the outside world during one call: the password source at the rejection check
  and at the login, the library, the clock.\<close>

record ('c, 't) krb_io =
  io_os1 :: osEnv
  io_os2 :: osEnv
  io_lib :: "('c, 't) krb5"
  io_now :: int

definition krbGetToken ::
    "(bytes \<Rightarrow> bytes \<Rightarrow> bytes) \<Rightarrow> 'c Gokrb5TokenProvider \<Rightarrow> ('c, 't) krb_io \<Rightarrow>
     ((go_error + string) \<times> 'c Gokrb5TokenProvider \<times> krb_event list) option" where
  "krbGetToken mac p io =
     (if g_closed p then Some (Inl (Auth CredentialError ''token provider is closed'' None), p, [])
      else (case checkPasswordRejected mac (io_os1 io) p of
              None \<Rightarrow> None
            | Some (Some err, p1, evs) \<Rightarrow> Some (Inl err, p1, evs)
            | Some (None, p1, evs) \<Rightarrow>
                (case ticketGrantingClient mac (io_os2 io) (io_lib io) (io_now io) p1 of
                   (Inl err, p2, evs2) \<Rightarrow> Some (Inl err, p2, evs @ evs2)
                 | (Inr krbClient, p2, evs2) \<Rightarrow>
                     Some (case kb_initSecContext (io_lib io) krbClient (g_spn p2) of
                             Inl err \<Rightarrow>
                               Inl (Auth NegotiationError (''could not initialize context: '' @ error_text err) (Some err))
                           | Inr token \<Rightarrow>
                               (case kb_marshal (io_lib io) token of
                                  Inl err \<Rightarrow>
                                    Inl (Auth NegotiationError (''could not marshal SPNEGO token: '' @ error_text err) (Some err))
                                | Inr b \<Rightarrow> Inr (base64 b)),
                           p2, evs @ evs2))))"

text \<open>One tick of \<^verbatim>\<open>repeatPasswordRejectionWarnings\<close>; the boolean is whether it warns.\<close>

definition warnTick ::
    "(bytes \<Rightarrow> bytes \<Rightarrow> bytes) \<Rightarrow> 'c Gokrb5TokenProvider \<Rightarrow> osEnv \<Rightarrow>
     (bool \<times> 'c Gokrb5TokenProvider \<times> krb_event list) option" where
  "warnTick mac p os =
     (if \<not> g_closed p \<and> g_passwordRejected p then
        (case checkPasswordRejected mac os p of
           None \<Rightarrow> None
         | Some (_, p1, evs) \<Rightarrow> Some (g_passwordRejected p1, p1, evs))
      else Some (False, p, []))"

definition krbClose :: "'c Gokrb5TokenProvider \<Rightarrow> 'c Gokrb5TokenProvider option" where
  "krbClose p =
     (let p1 = p\<lparr>g_closed := True, g_ticketClient := None\<rparr>;
          scrub = (\<lambda>q. q\<lparr>g_stdinPassword := [], g_fingerprintKey := replicate 32 CHR 0x00,
            g_rejectedFingerprint := replicate 32 CHR 0x00\<rparr>)
      in (case g_rejectWarnTicker p1 of
            None \<Rightarrow> Some (scrub p1)
          | Some _ \<Rightarrow>
              if g_rejectWarnStop p1 \<noteq> OpenChan then None
              else Some (scrub (p1\<lparr>g_rejectWarnStop := ClosedChan, g_rejectWarnTicker := None\<rparr>))))"

section \<open>Invariant\<close>

text \<open>A provider that has not been closed and whose password was rejected has a running warning ticker;
  a ticker always comes with an open stop channel; a closed provider holds no secret and no ticket.\<close>

definition krb_inv :: "'c Gokrb5TokenProvider \<Rightarrow> bool" where
  "krb_inv p \<longleftrightarrow>
     (g_passwordRejected p \<and> \<not> g_closed p \<longrightarrow> g_rejectWarnTicker p = Some True) \<and>
     (g_rejectWarnTicker p \<noteq> None \<longrightarrow> g_rejectWarnStop p = OpenChan \<and> \<not> g_closed p) \<and>
     (g_closed p \<longrightarrow> g_ticketClient p = None \<and> g_stdinPassword p = [])"

lemma krb_inv_new: "NewGokrb5TokenProvider os lc rd u r c pf px spn = Inr p \<Longrightarrow> krb_inv p"
  by (auto simp: NewGokrb5TokenProvider_def krb_inv_def Let_def split: if_splits option.splits sum.splits)

lemma krb_inv_check:
  assumes "krb_inv p" "\<not> g_closed p"
  shows "\<exists>r p' evs. checkPasswordRejected mac os p = Some (r, p', evs) \<and> krb_inv p' \<and> \<not> g_closed p' \<and>
    (r = None \<longrightarrow> \<not> g_passwordRejected p')"
  using assms
  by (auto simp: checkPasswordRejected_def krb_inv_def Let_def split: sum.splits)

lemma krb_inv_ticket:
  assumes "krb_inv p" "\<not> g_closed p" "ticketGrantingClient mac os lib now p = (r, p', evs)"
  shows "krb_inv p'"
  using assms
  by (auto simp: ticketGrantingClient_def rejectPassword_def krb_inv_def Let_def
      split: option.splits bool.splits sum.splits if_splits)

lemma krb_inv_get:
  assumes "krb_inv p"
  shows "\<exists>r p' evs. krbGetToken mac p io = Some (r, p', evs) \<and> krb_inv p'"
proof (cases "g_closed p")
  case False
  from krb_inv_check [OF assms False, of mac "io_os1 io"] obtain r p1 evs where c:
    "checkPasswordRejected mac (io_os1 io) p = Some (r, p1, evs)" "krb_inv p1" "\<not> g_closed p1" by blast
  obtain t p2 evs2 where t: "ticketGrantingClient mac (io_os2 io) (io_lib io) (io_now io) p1 = (t, p2, evs2)"
    by (cases "ticketGrantingClient mac (io_os2 io) (io_lib io) (io_now io) p1") auto
  from krb_inv_ticket [OF c(2,3) t] c False t show ?thesis
    by (cases r; cases t) (auto simp: krbGetToken_def)
qed (use assms in \<open>simp add: krbGetToken_def\<close>)

lemma krb_inv_tick:
  "krb_inv p \<Longrightarrow> \<exists>w p' evs. warnTick mac p os = Some (w, p', evs) \<and> krb_inv p'"
  using krb_inv_check [of p mac os] by (cases "\<not> g_closed p \<and> g_passwordRejected p") (auto simp: warnTick_def)

lemma krb_inv_close: "krb_inv p \<Longrightarrow> \<exists>p'. krbClose p = Some p' \<and> krb_inv p' \<and> g_closed p'"
  by (auto simp: krbClose_def krb_inv_def Let_def split: option.splits)

section \<open>Runs\<close>

text \<open>The methods are serialised by the mutex, so a run is a sequence of calls.\<close>

datatype ('c, 't) krb_op = OpGetToken "('c, 't) krb_io" | OpTick osEnv | OpClose

fun krbStep ::
    "(bytes \<Rightarrow> bytes \<Rightarrow> bytes) \<Rightarrow> 'c Gokrb5TokenProvider \<Rightarrow> ('c, 't) krb_op \<Rightarrow>
     ('c Gokrb5TokenProvider \<times> krb_event list) option" where
  "krbStep mac p (OpGetToken io) = map_option snd (krbGetToken mac p io)"
| "krbStep mac p (OpTick os) = map_option snd (warnTick mac p os)"
| "krbStep mac p OpClose = map_option (\<lambda>q. (q, [])) (krbClose p)"

fun krbRun ::
    "(bytes \<Rightarrow> bytes \<Rightarrow> bytes) \<Rightarrow> 'c Gokrb5TokenProvider \<Rightarrow> ('c, 't) krb_op list \<Rightarrow>
     ('c Gokrb5TokenProvider \<times> krb_event list) option" where
  "krbRun mac p [] = Some (p, [])"
| "krbRun mac p (o1 # os) =
     (case krbStep mac p o1 of
        None \<Rightarrow> None
      | Some (p1, evs) \<Rightarrow> map_option (\<lambda>(p2, evs2). (p2, evs @ evs2)) (krbRun mac p1 os))"

lemma krb_inv_step: "krb_inv p \<Longrightarrow> \<exists>p' evs. krbStep mac p o1 = Some (p', evs) \<and> krb_inv p'"
proof (cases o1)
  case (OpGetToken io)
  then show "krb_inv p \<Longrightarrow> ?thesis" using krb_inv_get [of p mac io] by auto
next
  case (OpTick os)
  then show "krb_inv p \<Longrightarrow> ?thesis" using krb_inv_tick [of p mac os] by auto
next
  case OpClose
  then show "krb_inv p \<Longrightarrow> ?thesis" using krb_inv_close [of p] by auto
qed

text \<open>C28: The provider never panics: from any constructed provider, whatever sequence of token requests,
  warning ticks and closes follows (closing twice included) and whatever the KDC, the file system and
  the clock answer, no call dereferences a missing ticker or closes a channel that is not open, and
  the provider's invariant holds afterwards.\<close>

theorem krb_no_panic:
  assumes "NewGokrb5TokenProvider os lc rd u r c pf px spn = Inr p"
  shows "\<exists>p' evs. krbRun mac p ops = Some (p', evs) \<and> krb_inv p'"
proof -
  have "krb_inv p \<Longrightarrow> \<exists>p' evs. krbRun mac p ops = Some (p', evs) \<and> krb_inv p'" for p
  proof (induction ops arbitrary: p)
    case (Cons o1 ops)
    from krb_inv_step [OF Cons.prems, of mac o1] obtain p1 evs where
      "krbStep mac p o1 = Some (p1, evs)" "krb_inv p1" by blast
    with Cons.IH [of p1] show ?case by auto
  qed simp
  with krb_inv_new [OF assms] show ?thesis by blast
qed

definition sample_os :: "bytes \<Rightarrow> osEnv" where
  "sample_os pw = \<lparr>os_isTerminal = False, os_readPassword = Inl (Plain ''no tty''),
     os_Open = (\<lambda>f. Inr \<lparr>pf_Stat = Inr 0x180, pf_Content = Inr pw\<rparr>)\<rparr>"

text \<open>A KDC that accepts the password \<open>good\<close> only, and issues a ticket from 0 to 600.\<close>

definition sample_krb :: "(nat, nat) krb5" where
  "sample_krb = \<lparr>kb_newASReq = (\<lambda>r u. None),
     kb_asExchange = (\<lambda>r u pw. if pw = ''good'' then
        Inr \<lparr>rep_CRealm = r, rep_CName = u, rep_TicketRealm = r, rep_TicketSName = ''krbtgt'', rep_Ticket = Inr ''t'',
             rep_Key = ''k'', rep_AuthTime = Some 0, rep_StartTime = 0, rep_EndTime = 600, rep_RenewTill = 600\<rparr>
        else Inl (Plain ''KRB Error: (24) KDC_ERR_PREAUTH_FAILED'')),
     kb_newFromCCache = (\<lambda>c. Inr 1), kb_initSecContext = (\<lambda>c s. Inr 2), kb_marshal = (\<lambda>t. Inr ''abc'')\<rparr>"

definition sample_io :: "bytes \<Rightarrow> int \<Rightarrow> (nat, nat) krb_io" where
  "sample_io pw now = \<lparr>io_os1 = sample_os pw, io_os2 = sample_os pw, io_lib = sample_krb, io_now = now\<rparr>"

definition sample_new :: "go_error + nat Gokrb5TokenProvider" where
  "sample_new = NewGokrb5TokenProvider (sample_os ''bad'') (\<lambda>f. None) (replicate 32 CHR ''k'')
     ''u'' ''R'' ''krb5.conf'' ''/pw'' ''proxy:8080'' []"

theorem krb_no_panic_witness:
  "\<exists>p p' evs. sample_new = Inr p \<and>
     krbRun (\<lambda>k m. m) p [OpGetToken (sample_io ''bad'' 0), OpTick (sample_os ''bad''), OpClose, OpClose] =
       Some (p', evs) \<and> krb_inv p'"
proof -
  have "\<not> Sum_Type.isl sample_new" by code_simp
  then obtain p where p: "sample_new = Inr p" by (metis sum.collapse(2))
  from krb_no_panic [OF p [unfolded sample_new_def]] p show ?thesis by blast
qed

section \<open>The lockout guard\<close>

text \<open>The fingerprint that is locked after a sequence of events: the last rejected one, until a
  password with another fingerprint has been read.\<close>

fun lock_step :: "bytes option \<Rightarrow> krb_event \<Rightarrow> bytes option" where
  "lock_step l (LoginRejected f) = Some f"
| "lock_step l (PwRead f) = (if l = Some f then l else None)"
| "lock_step l (Login f) = l"

fun lock_ok :: "bytes option \<Rightarrow> krb_event list \<Rightarrow> bool" where
  "lock_ok l [] = True"
| "lock_ok l (ev # evs) =
     ((case ev of PwRead f \<Rightarrow> True | Login f \<Rightarrow> l = None | LoginRejected f \<Rightarrow> l = None) \<and>
      lock_ok (lock_step l ev) evs)"

lemma lock_ok_append: "lock_ok l (xs @ ys) \<longleftrightarrow> lock_ok l xs \<and> lock_ok (foldl lock_step l xs) ys"
  by (induction l xs rule: lock_ok.induct) auto

text \<open>The lock as the provider's fields hold it.\<close>

definition held_lock :: "'c Gokrb5TokenProvider \<Rightarrow> bytes option" where
  "held_lock p = (if g_passwordRejected p then Some (g_rejectedFingerprint p) else None)"

lemma check_lock:
  assumes "checkPasswordRejected mac os p = Some (r, p', evs)"
  shows "lock_ok (held_lock p) evs \<and> foldl lock_step (held_lock p) evs = held_lock p' \<and>
    g_closed p' = g_closed p \<and> (r = None \<longrightarrow> held_lock p' = None)"
  using assms
  by (auto simp: checkPasswordRejected_def held_lock_def Let_def split: if_splits sum.splits option.splits)

lemma ticket_lock:
  assumes "ticketGrantingClient mac os lib now p = (r, p', evs)" "held_lock p = None"
  shows "lock_ok None evs \<and> foldl lock_step None evs = held_lock p' \<and> g_closed p' = g_closed p"
  using assms
  by (auto simp: ticketGrantingClient_def held_lock_def rejectPassword_def Let_def
      split: option.splits bool.splits sum.splits if_splits)

lemma get_lock:
  assumes "krbGetToken mac p io = Some (r, p', evs)"
  shows "lock_ok (held_lock p) evs \<and> foldl lock_step (held_lock p) evs = held_lock p' \<and> g_closed p' = g_closed p"
proof (cases "g_closed p")
  case False
  with assms obtain r1 p1 evs1 where c: "checkPasswordRejected mac (io_os1 io) p = Some (r1, p1, evs1)"
    by (auto simp: krbGetToken_def split: option.splits)
  note cl = check_lock [OF c]
  show ?thesis
  proof (cases r1)
    case None
    obtain t p2 evs2 where t: "ticketGrantingClient mac (io_os2 io) (io_lib io) (io_now io) p1 = (t, p2, evs2)"
      by (cases "ticketGrantingClient mac (io_os2 io) (io_lib io) (io_now io) p1") auto
    have "p' = p2 \<and> evs = evs1 @ evs2"
      using assms False c None t by (cases t) (auto simp: krbGetToken_def)
    with ticket_lock [OF t] cl None show ?thesis by (simp add: lock_ok_append)
  next
    case (Some e)
    with assms False c cl show ?thesis by (auto simp: krbGetToken_def)
  qed
qed (use assms in \<open>auto simp: krbGetToken_def\<close>)

lemma closed_silent:
  assumes "g_closed p" "krbStep mac p o1 = Some (p', evs)"
  shows "evs = [] \<and> g_closed p'"
  using assms
  by (cases o1) (auto simp: krbGetToken_def warnTick_def krbClose_def Let_def split: option.splits if_splits)

lemma step_lock:
  assumes "krbStep mac p o1 = Some (p', evs)" "\<not> g_closed p"
  shows "lock_ok (held_lock p) evs \<and> (g_closed p' \<or> foldl lock_step (held_lock p) evs = held_lock p')"
proof (cases o1)
  case (OpGetToken io)
  with assms get_lock [of mac p io _ p' evs] show ?thesis by auto
next
  case (OpTick os)
  with assms(1) show ?thesis
    by (auto simp: warnTick_def split: if_splits option.splits dest!: check_lock)
next
  case OpClose
  with assms(1) show ?thesis
    by (auto simp: krbClose_def Let_def split: option.splits if_splits)
qed

lemma run_closed_silent:
  "g_closed p \<Longrightarrow> krbRun mac p ops = Some (p', evs) \<Longrightarrow> evs = []"
proof (induction ops arbitrary: p evs)
  case (Cons o1 ops)
  from Cons.prems(2) obtain p1 evs1 evs2 where s: "krbStep mac p o1 = Some (p1, evs1)"
    "krbRun mac p1 ops = Some (p', evs2)" "evs = evs1 @ evs2"
    by (auto split: option.splits)
  from closed_silent [OF Cons.prems(1) s(1)] Cons.IH [OF _ s(2)] s(3) show ?case by simp
qed simp

lemma run_lock:
  "krbRun mac p ops = Some (p', evs) \<Longrightarrow> \<not> g_closed p \<Longrightarrow> lock_ok (held_lock p) evs"
proof (induction ops arbitrary: p evs)
  case (Cons o1 ops)
  from Cons.prems(1) obtain p1 evs1 evs2 where s: "krbStep mac p o1 = Some (p1, evs1)"
    "krbRun mac p1 ops = Some (p', evs2)" "evs = evs1 @ evs2"
    by (auto split: option.splits)
  from step_lock [OF s(1) Cons.prems(2)] Cons.IH [OF s(2)] run_closed_silent [OF _ s(2)] s(3) show ?case
    by (cases "g_closed p1") (auto simp: lock_ok_append)
qed simp

text \<open>While no password with another fingerprint is read, the lock stays and no login passes it.\<close>

lemma lock_stays:
  "lock_ok (Some f) ys \<Longrightarrow> \<forall>f'. PwRead f' \<in> set ys \<longrightarrow> f' = f \<Longrightarrow> foldl lock_step (Some f) ys = Some f"
proof (induction ys)
  case (Cons ev ys)
  then show ?case by (cases ev) auto
qed simp

lemma locked_until_read:
  assumes "lock_ok l (xs @ LoginRejected f # ys @ Login f' # zs)"
  shows "\<exists>g. PwRead g \<in> set ys \<and> g \<noteq> f"
  using assms lock_stays [of f ys] by (auto simp: lock_ok_append)

text \<open>C4: The lockout guard. Once the KDC has rejected a password, no further login is sent before a
  password that differs from it has been read, in any run of token requests, warning ticks and closes;
  after a close no login is sent at all. Passwords are compared by their keyed fingerprint.\<close>

theorem krb_lockout_guard:
  assumes "NewGokrb5TokenProvider os lc rd u r c pf px spn = Inr p"
    and "krbRun mac p ops = Some (p', xs @ LoginRejected f # ys @ Login f' # zs)"
  shows "\<exists>g. PwRead g \<in> set ys \<and> g \<noteq> f"
proof -
  have "\<not> g_closed p" "held_lock p = None"
    using assms(1) by (auto simp: NewGokrb5TokenProvider_def held_lock_def Let_def
        split: if_splits option.splits sum.splits)
  with run_lock [OF assms(2)] locked_until_read show ?thesis by auto
qed

text \<open>Two rejected attempts with the same file are one login; a corrected file gives another.\<close>

theorem krb_lockout_guard_witness:
  "\<exists>p p'. sample_new = Inr p \<and>
     krbRun (\<lambda>k m. m) p [OpGetToken (sample_io ''bad'' 0), OpGetToken (sample_io ''bad'' 1),
       OpGetToken (sample_io ''good'' 2)] =
       Some (p', [PwRead ''bad'', Login ''bad''] @ LoginRejected ''bad'' #
         [PwRead ''bad'', PwRead ''good'', PwRead ''good''] @ Login ''good'' # []) \<and>
     (\<exists>g. PwRead g \<in> set [PwRead ''bad'', PwRead ''good'', PwRead ''good''] \<and> g \<noteq> ''bad'')"
proof -
  let ?ops = "[OpGetToken (sample_io ''bad'' 0), OpGetToken (sample_io ''bad'' 1), OpGetToken (sample_io ''good'' 2)]"
  let ?evs = "[PwRead ''bad'', Login ''bad''] @ LoginRejected ''bad'' #
         [PwRead ''bad'', PwRead ''good'', PwRead ''good''] @ Login ''good'' # []"
  have "\<not> Sum_Type.isl sample_new" by code_simp
  then obtain p where p: "sample_new = Inr p" by (metis sum.collapse(2))
  have "map_option snd (krbRun (\<lambda>k m. m) (projr sample_new) ?ops) = Some ?evs" by code_simp
  then obtain p' where r: "krbRun (\<lambda>k m. m) p ?ops = Some (p', ?evs)" unfolding p sum.sel by auto
  from krb_lockout_guard [OF p [unfolded sample_new_def] r] p r show ?thesis by blast
qed

section \<open>Ticket reuse and refresh\<close>

text \<open>A valid ticket costs no login. While the cached client's refresh time lies ahead and the
  password is not rejected, a token request reads no password and sends no login, whatever the answers
  of the world; the provider is unchanged.\<close>

lemma krb_ticket_reuse:
  assumes "\<not> g_closed p" "\<not> g_passwordRejected p"
    and "g_ticketClient p = Some c" "io_now io < g_ticketRefreshAt p"
  shows "\<exists>r. krbGetToken mac p io = Some (r, p, [])"
  using assms by (simp add: krbGetToken_def checkPasswordRejected_def ticketGrantingClient_def)

theorem krb_ticket_reuse_witness:
  "\<exists>p p'. sample_new = Inr p \<and> krbRun (\<lambda>k m. m) p [OpGetToken (sample_io ''good'' 0)] =
       Some (p', [PwRead ''good'', Login ''good'']) \<and>
     (\<exists>r. krbGetToken (\<lambda>k m. m) p' (sample_io ''bad'' 499) = Some (r, p', []))"
proof -
  let ?ops = "[OpGetToken (sample_io ''good'' 0)]"
  have "\<not> Sum_Type.isl sample_new" by code_simp
  then obtain p where p: "sample_new = Inr p" by (metis sum.collapse(2))
  have "map_option (\<lambda>(q, evs). (g_closed q, g_passwordRejected q, g_ticketClient q, g_ticketRefreshAt q, evs))
      (krbRun (\<lambda>k m. m) (projr sample_new) ?ops) =
      Some (False, False, Some 1, 500, [PwRead ''good'', Login ''good''])" by code_simp
  then obtain p' where r: "krbRun (\<lambda>k m. m) p ?ops = Some (p', [PwRead ''good'', Login ''good''])"
    "\<not> g_closed p'" "\<not> g_passwordRejected p'" "g_ticketClient p' = Some 1" "g_ticketRefreshAt p' = 500"
    unfolding p sum.sel by (auto simp del: krbRun.simps)
  have "io_now (sample_io ''bad'' 499) < g_ticketRefreshAt p'" by (simp add: r(5) sample_io_def)
  from krb_ticket_reuse [OF r(2-4) this] p r(1) show ?thesis by blast
qed



section \<open>The password file\<close>

text \<open>A password read from a file comes from a file that neither its group nor others can access,
  is a prefix of the file's content of at most 4096 bytes, and does not end in a line break.\<close>

lemma getPassword_file:
  assumes "pf \<noteq> []" "getPassword os pf = Inr pw"
  shows "\<exists>f mode content. os_Open os pf = Inr f \<and> pf_Stat f = Inr mode \<and> pf_Content f = Inr content \<and>
    (\<forall>b<6. \<not> bit mode b) \<and> prefix pw content \<and> length pw \<le> 4096 \<and> (pw = [] \<or> \<not> isCRLF (last pw))"
proof -
  from assms obtain f mode content where f: "os_Open os pf = Inr f" "pf_Stat f = Inr mode"
    "pf_Content f = Inr content" "(mode AND permMask) AND groupOtherMask = 0"
    "pw = trimRightCRLF (take maxPasswordFileSize content)"
    by (auto simp: getPassword_def Let_def split: sum.splits if_splits)
  have "\<not> bit mode b" if "b < 6" for b
  proof -
    have "bit ((mode AND permMask) AND groupOtherMask) b = bit mode b"
      using that unfolding permMask_def groupOtherMask_def
      by (auto simp: bit_and_iff less_Suc_eq numeral_eq_Suc)
    then show ?thesis using f(4) by simp
  qed
  moreover have "prefix pw (take maxPasswordFileSize content)"
    unfolding f(5) trimRightCRLF_def
    by (metis rev_rev_ident suffix_dropWhile suffix_to_prefix)
  then have "prefix pw content" "length pw \<le> 4096"
    using prefix_length_le [of pw "take maxPasswordFileSize content"] take_is_prefix prefix_order.trans
    by (force simp: maxPasswordFileSize_def)+
  moreover have "pw = [] \<or> \<not> isCRLF (last pw)"
    unfolding f(5) trimRightCRLF_def using hd_dropWhile [of isCRLF "rev (take maxPasswordFileSize content)"]
    by (auto simp: last_rev)
  ultimately show ?thesis using f by blast
qed

theorem getPassword_file_witness:
  "getPassword (sample_os (''secret'' @ [CHR 0x0A])) ''/pw'' = Inr ''secret'' \<and>
   (\<exists>f. os_Open (sample_os (''secret'' @ [CHR 0x0A])) ''/pw'' = Inr f \<and>
      (\<exists>mode. pf_Stat f = Inr mode \<and> (\<forall>b<6. \<not> bit mode b)))"
proof -
  have g: "getPassword (sample_os (''secret'' @ [CHR 0x0A])) ''/pw'' = Inr ''secret''" by code_simp
  from getPassword_file [OF _ g] g show ?thesis by blast
qed

section \<open>Credentials in headers\<close>

text \<open>The provider behind the TokenProvider interface.\<close>

definition krbToken ::
    "(bytes \<Rightarrow> bytes \<Rightarrow> bytes) \<Rightarrow> 'c Gokrb5TokenProvider \<Rightarrow> ('c, 't) krb_io \<Rightarrow>
     (go_error + string) \<times> 'c Gokrb5TokenProvider" where
  "krbToken mac p io =
     (case krbGetToken mac p io of
        Some (r, p', _) \<Rightarrow> (r, p')
      | None \<Rightarrow> (Inl (Plain ''panic''), p))"

definition krbCloseT :: "'c Gokrb5TokenProvider \<Rightarrow> 'c Gokrb5TokenProvider" where
  "krbCloseT p = (case krbClose p of Some p' \<Rightarrow> p' | None \<Rightarrow> p)"

lemma krbGetToken_b64:
  "krbGetToken mac p io = Some (Inr t, p', evs) \<Longrightarrow> list_all b64_alphabet t"
  by (auto simp: krbGetToken_def base64_alphabet split: if_splits option.splits sum.splits prod.splits)

interpretation krb: token_provider "krbToken mac" krbCloseT krb_inv for mac
proof unfold_locales
  fix p :: "'c Gokrb5TokenProvider" and io :: "('c, 't) krb_io" and t p'
  assume "krbToken mac p io = (Inr t, p')"
  then show "list_all b64_alphabet t"
    by (auto simp: krbToken_def split: option.splits prod.splits dest: krbGetToken_b64)
next
  fix p :: "'c Gokrb5TokenProvider" and io :: "('c, 't) krb_io"
  assume "krb_inv p"
  from krb_inv_get [OF this, of mac io] show "krb_inv (snd (krbToken mac p io))"
    by (auto simp: krbToken_def)
next
  fix p :: "'c Gokrb5TokenProvider"
  assume "krb_inv p"
  from krb_inv_close [OF this] show "krb_inv (krbCloseT p)" by (auto simp: krbCloseT_def)
qed

interpretation krb_cb: token_provider "cbGetToken gb (krbToken mac)" "cbClose krbCloseT"
    "\<lambda>p. krb_inv (cb_inner p)" for gb mac
  by (rule krb.breaker_wrapped)

end
