(* ===== verification/Transition.thy ===== *)
theory Transition
  imports Go_Prelude
begin

text \<open>
  Interleavings. Several parts of the proxy are goroutines that share state under a mutex or meet on a
  channel; each such part is a step relation on its shared state, one step per lock operation, test,
  assignment or answer of the network. This theory holds what their proofs share: reachability, the
  invariant rule, and the rule that a ranked region is left or finished after a bounded number of steps.
\<close>

section \<open>Reachable states\<close>

inductive reach :: "'s \<Rightarrow> ('s \<Rightarrow> 's \<Rightarrow> bool) \<Rightarrow> 's \<Rightarrow> bool" for s0 :: 's and step :: "'s \<Rightarrow> 's \<Rightarrow> bool" where
  reach_init: "reach s0 step s0"
| reach_next: "reach s0 step s \<Longrightarrow> step s s' \<Longrightarrow> reach s0 step s'"

text \<open>A schedule: a list of moves, each of which may be refused.\<close>

definition play :: "('s \<Rightarrow> 's option) list \<Rightarrow> 's \<Rightarrow> 's option" where
  "play moves s = foldl Option.bind (Some s) moves"

lemma play_Nil [simp]: "play [] s = Some s"
  by (simp add: play_def)

lemma foldl_bind_None [simp]: "foldl Option.bind None fs = None"
  by (induction fs) simp_all

lemma play_Cons [simp]: "play (f # fs) s = Option.bind (f s) (play fs)"
  by (cases "f s") (simp_all add: play_def)

text \<open>A schedule of permitted moves reaches its end.\<close>

lemma play_reach:
  assumes "play fs s = Some t" "reach s0 step s"
    and "\<And>f a b. f \<in> set fs \<Longrightarrow> f a = Some b \<Longrightarrow> step a b"
  shows "reach s0 step t"
  using assms
proof (induction fs arbitrary: s)
  case (Cons f fs)
  then obtain s1 where s1: "f s = Some s1" "play fs s1 = Some t" by (cases "f s") auto
  with Cons.prems have "reach s0 step s1" by (auto intro: reach_next)
  with Cons.IH [OF s1(2)] Cons.prems(3) show ?case by auto
qed simp

section \<open>Invariants\<close>

locale transition_system =
  fixes s0 :: 's and step :: "'s \<Rightarrow> 's \<Rightarrow> bool" and inv :: "'s \<Rightarrow> bool"
  assumes inv_start: "inv s0"
    and inv_step: "inv s \<Longrightarrow> step s s' \<Longrightarrow> inv s'"
begin

lemma reach_inv: "reach s0 step s \<Longrightarrow> inv s"
  by (induction rule: reach.induct) (auto intro: inv_start inv_step)

end

section \<open>Bounded runs\<close>

text \<open>A step that changes the state.\<close>

definition moves :: "('s \<Rightarrow> 's \<Rightarrow> bool) \<Rightarrow> 's \<Rightarrow> 's \<Rightarrow> bool" where
  "moves step s s' \<longleftrightarrow> step s s' \<and> s' \<noteq> s"

text \<open>In the region \<open>live\<close>, which no step leaves, every move lowers the rank; while \<open>goal\<close> is not
  reached, one of the moves \<open>own\<close>, which need nobody else's help, is possible.\<close>

locale ranked_system = transition_system +
  fixes live :: "'s \<Rightarrow> bool" and rank :: "'s \<Rightarrow> nat"
    and goal :: "'s \<Rightarrow> bool" and own :: "'s \<Rightarrow> 's \<Rightarrow> bool"
  assumes live_step: "inv s \<Longrightarrow> live s \<Longrightarrow> step s s' \<Longrightarrow> live s'"
    and rank_step: "inv s \<Longrightarrow> live s \<Longrightarrow> step s s' \<Longrightarrow> s' = s \<or> rank s' < rank s"
    and own_step: "own s s' \<Longrightarrow> step s s'"
    and own_moves: "inv s \<Longrightarrow> live s \<Longrightarrow> own s s' \<Longrightarrow> s' \<noteq> s"
    and progress: "inv s \<Longrightarrow> live s \<Longrightarrow> \<not> goal s \<Longrightarrow> \<exists>s'. own s s'"
begin

lemma moves_inv: "(moves step ^^ n) s s' \<Longrightarrow> inv s \<Longrightarrow> live s \<Longrightarrow> inv s' \<and> live s'"
proof (induction n arbitrary: s')
  case (Suc n)
  then obtain t where "(moves step ^^ n) s t" "moves step t s'" by auto
  with Suc show ?case by (auto simp: moves_def intro: inv_step live_step)
qed simp

text \<open>No run from a live state is longer than its rank.\<close>

lemma run_bounded: "(moves step ^^ n) s s' \<Longrightarrow> inv s \<Longrightarrow> live s \<Longrightarrow> n + rank s' \<le> rank s"
proof (induction n arbitrary: s')
  case (Suc n)
  then obtain t where t: "(moves step ^^ n) s t" "moves step t s'" by auto
  with moves_inv [OF t(1)] Suc.prems rank_step [of t s'] have "rank s' < rank t" by (auto simp: moves_def)
  with Suc.IH [OF t(1)] Suc.prems show ?case by linarith
qed simp

text \<open>A run that can no longer move by itself has reached the goal, and one that goes on does.\<close>

lemma run_ends: "(moves step ^^ n) s s' \<Longrightarrow> inv s \<Longrightarrow> live s \<Longrightarrow> goal s' \<or> (\<exists>t. own s' t \<and> moves step s' t)"
  using moves_inv [of n s s'] progress [of s'] own_step [of s'] own_moves [of s']
  by (auto simp: moves_def)

lemma goal_reached: "inv s \<Longrightarrow> live s \<Longrightarrow> \<exists>n s'. n \<le> rank s \<and> (moves own ^^ n) s s' \<and> goal s'"
proof (induction "rank s" arbitrary: s rule: less_induct)
  case less
  show ?case
  proof (cases "goal s")
    case True
    then show ?thesis by (intro exI [of _ 0]) auto
  next
    case False
    from progress [OF less.prems this] obtain t where t: "own s t" by blast
    with less.prems have m: "moves own s t" "rank t < rank s" "inv t" "live t"
      using own_step [OF t] own_moves [OF less.prems t] rank_step [OF less.prems, of t]
      by (auto simp: moves_def intro: inv_step live_step)
    from less.hyps [OF m(2-4)] obtain n s' where "n \<le> rank t" "(moves own ^^ n) t s'" "goal s'" by blast
    moreover from this m(1) have "(moves own ^^ Suc n) s s'" by (metis relpowp_Suc_I2)
    ultimately show ?thesis using m(2) by (intro exI [of _ "Suc n"] exI [of _ s']) simp
  qed
qed

end

end
