(* ===== verification/Breaker_Lock.thy ===== *)
theory Breaker_Lock
  imports Token_Provider Transition
begin

text \<open>
  Concurrent token requests: \<^verbatim>\<open>GetToken\<close> of src/internal/proxy/circuit_breaker.go as it is called, by any
  number of sessions at once. Its mutex \<^verbatim>\<open>mu\<close> is held from before \<^verbatim>\<open>Execute\<close> asks the breaker for admission
  until after the result has been reported. The model takes one step per lock operation, admission test,
  answer of the wrapped provider, and unlock; the clock advances at any time. The calls are shown to be
  serialisable: their recorded order is a sequential run of \<open>cbGetToken\<close>, which bounds the failed attempts
  that reach the credential backend.
\<close>

section \<open>Callers\<close>

text \<open>A caller is not in \<^verbatim>\<open>GetToken\<close>, waits for the mutex, holds it before \<^verbatim>\<open>Execute\<close>, is in the wrapped
  provider (admitted at the given time), is about to unlock, or has returned.\<close>

datatype caller_pc =
  Outside | WaitMu | HasMu | Inside int | Unlocks "go_error + string" | Returned "go_error + string"

text \<open>A call as it was served: refused by the breaker at a time, or passed on to the wrapped provider with
  start and end time and what the world answered.\<close>

datatype 'i token_call = Refused int "go_error + string" | Asked int int 'i "go_error + string"

text \<open>\<open>tl_log\<close> records the served calls with their callers; no step depends on it.\<close>

record ('b, 'p, 'i) token_lock =
  tl_now :: int
  tl_mu :: "nat option"
  tl_prov :: "('b, 'p) CircuitBreakerTokenProvider"
  tl_pc :: "nat \<Rightarrow> caller_pc"
  tl_log :: "(nat \<times> 'i token_call) list"

definition lock_start :: "int \<Rightarrow> ('b, 'p) CircuitBreakerTokenProvider \<Rightarrow> ('b, 'p, 'i) token_lock" where
  "lock_start now p = \<lparr>tl_now = now, tl_mu = None, tl_prov = p, tl_pc = (\<lambda>_. Outside), tl_log = []\<rparr>"

definition setPc :: "nat \<Rightarrow> caller_pc \<Rightarrow> ('b, 'p, 'i) token_lock \<Rightarrow> ('b, 'p, 'i) token_lock" where
  "setPc i pc s = s\<lparr>tl_pc := (tl_pc s)(i := pc)\<rparr>"

definition callGetToken :: "nat \<Rightarrow> ('b, 'p, 'i) token_lock \<Rightarrow> ('b, 'p, 'i) token_lock option" where
  "callGetToken i s =
     (case tl_pc s i of Outside \<Rightarrow> Some (setPc i WaitMu s) | Returned _ \<Rightarrow> Some (setPc i WaitMu s) | _ \<Rightarrow> None)"

definition lockMu :: "nat \<Rightarrow> ('b, 'p, 'i) token_lock \<Rightarrow> ('b, 'p, 'i) token_lock option" where
  "lockMu i s =
     (case tl_pc s i of
        WaitMu \<Rightarrow> if tl_mu s = None then Some (setPc i HasMu s\<lparr>tl_mu := Some i\<rparr>) else None
      | _ \<Rightarrow> None)"

definition beginExecute ::
    "'b gobreaker \<Rightarrow> nat \<Rightarrow> ('b, 'p, 'i) token_lock \<Rightarrow> ('b, 'p, 'i) token_lock option" where
  "beginExecute gb i s =
     (case tl_pc s i of
        HasMu \<Rightarrow>
          (case gb_admit gb (cb_cb (tl_prov s)) (tl_now s) of
             (Some err, cb1) \<Rightarrow>
               let r = Inl (cbError (cb_threshold (tl_prov s)) err)
               in Some (setPc i (Unlocks r) s
                    \<lparr>tl_prov := tl_prov s\<lparr>cb_cb := cb1\<rparr>, tl_log := tl_log s @ [(i, Refused (tl_now s) r)]\<rparr>)
           | (None, cb1) \<Rightarrow> Some (setPc i (Inside (tl_now s)) s\<lparr>tl_prov := tl_prov s\<lparr>cb_cb := cb1\<rparr>\<rparr>))
      | _ \<Rightarrow> None)"

definition endExecute ::
    "'b gobreaker \<Rightarrow> ('p \<Rightarrow> 'i \<Rightarrow> (go_error + string) \<times> 'p) \<Rightarrow> 'i \<Rightarrow> nat \<Rightarrow>
     ('b, 'p, 'i) token_lock \<Rightarrow> ('b, 'p, 'i) token_lock option" where
  "endExecute gb getInner io i s =
     (case tl_pc s i of
        Inside t0 \<Rightarrow>
          (case getInner (cb_inner (tl_prov s)) io of (res, inner1) \<Rightarrow>
             let r = (case res of Inl err \<Rightarrow> Inl (cbError (cb_threshold (tl_prov s)) err) | Inr token \<Rightarrow> Inr token);
                 p1 = tl_prov s\<lparr>cb_inner := inner1,
                        cb_cb := gb_report gb (cb_cb (tl_prov s)) (tl_now s) (\<not> Sum_Type.isl res)\<rparr>
             in Some (setPc i (Unlocks r) s
                  \<lparr>tl_prov := p1, tl_log := tl_log s @ [(i, Asked t0 (tl_now s) io r)]\<rparr>))
      | _ \<Rightarrow> None)"

definition unlockMu :: "nat \<Rightarrow> ('b, 'p, 'i) token_lock \<Rightarrow> ('b, 'p, 'i) token_lock option" where
  "unlockMu i s =
     (case tl_pc s i of Unlocks r \<Rightarrow> Some (setPc i (Returned r) s\<lparr>tl_mu := None\<rparr>) | _ \<Rightarrow> None)"

inductive mutex_step ::
    "'b gobreaker \<Rightarrow> ('p \<Rightarrow> 'i \<Rightarrow> (go_error + string) \<times> 'p) \<Rightarrow>
     ('b, 'p, 'i) token_lock \<Rightarrow> ('b, 'p, 'i) token_lock \<Rightarrow> bool"
  for gb getInner where
  tick: "tl_now s \<le> t \<Longrightarrow> mutex_step gb getInner s (s\<lparr>tl_now := t\<rparr>)"
| call: "callGetToken i s = Some s' \<Longrightarrow> mutex_step gb getInner s s'"
| lock: "lockMu i s = Some s' \<Longrightarrow> mutex_step gb getInner s s'"
| ask: "beginExecute gb i s = Some s' \<Longrightarrow> mutex_step gb getInner s s'"
| answer: "endExecute gb getInner io i s = Some s' \<Longrightarrow> mutex_step gb getInner s s'"
| unlock: "unlockMu i s = Some s' \<Longrightarrow> mutex_step gb getInner s s'"

inductive_cases mutex_stepE: "mutex_step gb getInner s s'"

section \<open>The sequential specification\<close>

fun resultOf :: "'i token_call \<Rightarrow> go_error + string" where
  "resultOf (Refused t r) = r"
| "resultOf (Asked t0 t1 io r) = r"

text \<open>One call of \<open>cbGetToken\<close>, alone. A refused call does not depend on what the wrapped provider would
  have answered.\<close>

fun serves ::
    "'b gobreaker \<Rightarrow> ('p \<Rightarrow> 'i \<Rightarrow> (go_error + string) \<times> 'p) \<Rightarrow> ('b, 'p) CircuitBreakerTokenProvider \<Rightarrow>
     'i token_call \<Rightarrow> ('b, 'p) CircuitBreakerTokenProvider \<Rightarrow> bool" where
  "serves gb getInner p (Refused t r) q \<longleftrightarrow>
     fst (gb_admit gb (cb_cb p) t) \<noteq> None \<and> (\<forall>t1 io. cbGetToken gb getInner p (t, t1, io) = (r, q))"
| "serves gb getInner p (Asked t0 t1 io r) q \<longleftrightarrow>
     fst (gb_admit gb (cb_cb p) t0) = None \<and> cbGetToken gb getInner p (t0, t1, io) = (r, q)"

fun serial ::
    "'b gobreaker \<Rightarrow> ('p \<Rightarrow> 'i \<Rightarrow> (go_error + string) \<times> 'p) \<Rightarrow> ('b, 'p) CircuitBreakerTokenProvider \<Rightarrow>
     (nat \<times> 'i token_call) list \<Rightarrow> ('b, 'p) CircuitBreakerTokenProvider \<Rightarrow> bool" where
  "serial gb getInner p [] q \<longleftrightarrow> q = p"
| "serial gb getInner p ((i, c) # cs) q \<longleftrightarrow> (\<exists>m. serves gb getInner p c m \<and> serial gb getInner m cs q)"

lemma serial_snoc:
  "serial gb getInner p (cs @ [(i, c)]) q \<longleftrightarrow> (\<exists>m. serial gb getInner p cs m \<and> serves gb getInner m c q)"
proof (induction cs arbitrary: p)
  case (Cons e cs)
  then show ?case by (cases e) (simp, blast)
qed auto

text \<open>The times of the calls, in the order of the record.\<close>

fun stamps :: "nat \<times> 'i token_call \<Rightarrow> int list" where
  "stamps (i, Refused t r) = [t]"
| "stamps (i, Asked t0 t1 io r) = [t0, t1]"

section \<open>The invariant\<close>

fun critical :: "caller_pc \<Rightarrow> bool" where
  "critical HasMu = True"
| "critical (Inside _) = True"
| "critical (Unlocks _) = True"
| "critical _ = False"

text \<open>The start time of the call the wrapped provider is working on.\<close>

definition inflight :: "('b, 'p, 'i) token_lock \<Rightarrow> int option" where
  "inflight s =
     (case tl_mu s of None \<Rightarrow> None | Some i \<Rightarrow> (case tl_pc s i of Inside t0 \<Rightarrow> Some t0 | _ \<Rightarrow> None))"

definition answerOf :: "nat \<Rightarrow> (nat \<times> 'i token_call) list \<Rightarrow> (go_error + string) option" where
  "answerOf i cs = map_option resultOf (map_of (rev cs) i)"

lemma answerOf_snoc [simp]: "answerOf i (cs @ [(j, c)]) = (if i = j then Some (resultOf c) else answerOf i cs)"
  by (simp add: answerOf_def)

definition lock_inv ::
    "'b gobreaker \<Rightarrow> ('p \<Rightarrow> 'i \<Rightarrow> (go_error + string) \<times> 'p) \<Rightarrow> ('b, 'p) CircuitBreakerTokenProvider \<Rightarrow>
     ('b, 'p, 'i) token_lock \<Rightarrow> bool" where
  "lock_inv gb getInner p0 s \<longleftrightarrow>
     (\<forall>i. tl_mu s = Some i \<longleftrightarrow> critical (tl_pc s i)) \<and>
     (\<forall>i r. tl_pc s i = Unlocks r \<or> tl_pc s i = Returned r \<longrightarrow> answerOf i (tl_log s) = Some r) \<and>
     sorted (concat (map stamps (tl_log s)) @ (case inflight s of None \<Rightarrow> [] | Some t0 \<Rightarrow> [t0]) @ [tl_now s]) \<and>
     (\<exists>q. serial gb getInner p0 (tl_log s) q \<and>
        (case inflight s of
           None \<Rightarrow> tl_prov s = q
         | Some t0 \<Rightarrow> gb_admit gb (cb_cb q) t0 = (None, cb_cb (tl_prov s)) \<and>
             tl_prov s = q\<lparr>cb_cb := cb_cb (tl_prov s)\<rparr>))"

lemma lock_inv_start: "lock_inv gb getInner p (lock_start now p)"
  by (simp add: lock_inv_def lock_start_def inflight_def)

lemma holder_inflight:
  "lock_inv gb getInner p0 s \<Longrightarrow> critical (tl_pc s i) \<Longrightarrow>
     tl_mu s = Some i \<and> inflight s = (case tl_pc s i of Inside t0 \<Rightarrow> Some t0 | _ \<Rightarrow> None)"
  by (subgoal_tac "tl_mu s = Some i") (simp_all add: lock_inv_def inflight_def)

lemma sorted_raise:
  "sorted (xs @ [a]) \<Longrightarrow> a \<le> b \<Longrightarrow> sorted (xs @ [b :: int])"
  "sorted (xs @ [t, a]) \<Longrightarrow> a \<le> b \<Longrightarrow> sorted (xs @ [t, b :: int])"
  by (auto simp: sorted_append dest: order_trans)

lemma tick_inv: "lock_inv gb getInner p0 s \<Longrightarrow> tl_now s \<le> t \<Longrightarrow> lock_inv gb getInner p0 (s\<lparr>tl_now := t\<rparr>)"
proof -
  have "inflight (s\<lparr>tl_now := t\<rparr>) = inflight s"
    by (simp add: inflight_def cong: option.case_cong)
  moreover assume "lock_inv gb getInner p0 s" "tl_now s \<le> t"
  ultimately show ?thesis by (cases "inflight s") (auto simp: lock_inv_def intro: sorted_raise)
qed

lemma call_inv:
  assumes "lock_inv gb getInner p0 s" "callGetToken i s = Some s'"
  shows "lock_inv gb getInner p0 s'"
proof -
  from assms(2) have s': "s' = setPc i WaitMu s" "\<not> critical (tl_pc s i)"
    by (auto simp: callGetToken_def split: caller_pc.splits)
  with assms(1) have "tl_mu s \<noteq> Some i" by (simp add: lock_inv_def)
  with s'(1) have "inflight s' = inflight s" by (auto simp: inflight_def setPc_def split: option.splits)
  with s' assms(1) show ?thesis by (cases "inflight s") (auto simp: lock_inv_def setPc_def)
qed

lemma lock_mu_inv:
  assumes "lock_inv gb getInner p0 s" "lockMu i s = Some s'"
  shows "lock_inv gb getInner p0 s'"
proof -
  from assms(2) have s': "s' = setPc i HasMu s\<lparr>tl_mu := Some i\<rparr>" "tl_mu s = None"
    by (auto simp: lockMu_def split: caller_pc.splits if_splits)
  then have "inflight s' = None" "inflight s = None" by (simp_all add: inflight_def setPc_def)
  with s' assms(1) show ?thesis by (auto simp: lock_inv_def setPc_def)
qed

lemma unlock_inv:
  assumes "lock_inv gb getInner p0 s" "unlockMu i s = Some s'"
  shows "lock_inv gb getInner p0 s'"
proof -
  from assms(2) obtain r where r: "tl_pc s i = Unlocks r" "s' = setPc i (Returned r) s\<lparr>tl_mu := None\<rparr>"
    by (auto simp: unlockMu_def split: caller_pc.splits)
  with holder_inflight [OF assms(1), of i] have "inflight s' = None" "inflight s = None" "tl_mu s = Some i"
    by (simp_all add: inflight_def)
  with r assms(1) show ?thesis by (auto simp: lock_inv_def setPc_def)
qed

lemma begin_inv:
  assumes "lock_inv gb getInner p0 s" "beginExecute gb i s = Some s'"
  shows "lock_inv gb getInner p0 s'"
proof -
  from assms(2) have pc: "tl_pc s i = HasMu" by (auto simp: beginExecute_def split: caller_pc.splits)
  with holder_inflight [OF assms(1), of i] have mu: "tl_mu s = Some i" "inflight s = None" by simp_all
  from assms(1) mu have ser: "serial gb getInner p0 (tl_log s) (tl_prov s)"
    and srt: "sorted (concat (map stamps (tl_log s)) @ [tl_now s])" by (auto simp: lock_inv_def)
  obtain e cb1 where ad: "gb_admit gb (cb_cb (tl_prov s)) (tl_now s) = (e, cb1)"
    by (cases "gb_admit gb (cb_cb (tl_prov s)) (tl_now s)")
  show ?thesis
  proof (cases e)
    case None
    with ad pc assms(2) have s': "s' = setPc i (Inside (tl_now s)) s\<lparr>tl_prov := tl_prov s\<lparr>cb_cb := cb1\<rparr>\<rparr>"
      by (simp add: beginExecute_def)
    with mu(1) have "inflight s' = Some (tl_now s)" by (simp add: inflight_def setPc_def)
    with s' assms(1) mu ser srt ad None show ?thesis
      by (auto simp: lock_inv_def setPc_def sorted_append)
  next
    case (Some err)
    let ?r = "Inl (cbError (cb_threshold (tl_prov s)) err)"
    from Some ad pc assms(2) have s': "s' = setPc i (Unlocks ?r) s\<lparr>tl_prov := tl_prov s\<lparr>cb_cb := cb1\<rparr>,
        tl_log := tl_log s @ [(i, Refused (tl_now s) ?r)]\<rparr>"
      by (simp add: beginExecute_def Let_def)
    have "serves gb getInner (tl_prov s) (Refused (tl_now s) ?r) (tl_prov s\<lparr>cb_cb := cb1\<rparr>)"
      using ad Some by (simp add: cbGetToken_def)
    moreover from s' mu(1) have "inflight s' = None" by (simp add: inflight_def setPc_def)
    ultimately show ?thesis using s' assms(1) mu ser srt
      by (auto simp: lock_inv_def setPc_def sorted_append serial_snoc)
  qed
qed

lemma end_inv:
  assumes "lock_inv gb getInner p0 s" "endExecute gb getInner io i s = Some s'"
  shows "lock_inv gb getInner p0 s'"
proof -
  from assms(2) obtain t0 where pc: "tl_pc s i = Inside t0" by (auto simp: endExecute_def split: caller_pc.splits)
  with holder_inflight [OF assms(1), of i] have mu: "tl_mu s = Some i" "inflight s = Some t0" by simp_all
  from assms(1) mu obtain q where q: "serial gb getInner p0 (tl_log s) q"
    "gb_admit gb (cb_cb q) t0 = (None, cb_cb (tl_prov s))" "tl_prov s = q\<lparr>cb_cb := cb_cb (tl_prov s)\<rparr>"
    and srt: "sorted (concat (map stamps (tl_log s)) @ [t0, tl_now s])" by (auto simp: lock_inv_def)
  from q(3) have eqs: "cb_inner (tl_prov s) = cb_inner q" "cb_threshold (tl_prov s) = cb_threshold q"
    by (metis CircuitBreakerTokenProvider.select_convs(1,3) CircuitBreakerTokenProvider.surjective
        CircuitBreakerTokenProvider.update_convs(2))+
  obtain res inner1 where g: "getInner (cb_inner q) io = (res, inner1)" by (cases "getInner (cb_inner q) io")
  let ?r = "case res of Inl err \<Rightarrow> Inl (cbError (cb_threshold q) err) | Inr token \<Rightarrow> Inr token"
  let ?p = "tl_prov s\<lparr>cb_inner := inner1,
    cb_cb := gb_report gb (cb_cb (tl_prov s)) (tl_now s) (\<not> Sum_Type.isl res)\<rparr>"
  from pc assms(2) g eqs have s': "s' = setPc i (Unlocks ?r) s\<lparr>tl_prov := ?p,
      tl_log := tl_log s @ [(i, Asked t0 (tl_now s) io ?r)]\<rparr>"
    by (cases res) (simp_all add: endExecute_def Let_def)
  have "?p = q\<lparr>cb_inner := inner1, cb_cb := gb_report gb (cb_cb (tl_prov s)) (tl_now s) (\<not> Sum_Type.isl res)\<rparr>"
    by (subst q(3)) simp
  then have "serves gb getInner q (Asked t0 (tl_now s) io ?r) ?p"
    using q(2) g by (cases res) (simp_all add: cbGetToken_def)
  moreover from s' mu(1) have "inflight s' = None" by (simp add: inflight_def setPc_def)
  ultimately show ?thesis using s' assms(1) mu q(1) srt
    by (auto simp: lock_inv_def setPc_def sorted_append serial_snoc)
qed

interpretation token_lock: transition_system "lock_start now p" "mutex_step gb getInner" "lock_inv gb getInner p"
  for now p gb getInner
proof unfold_locales
  show "lock_inv gb getInner p (lock_start now p)" by (rule lock_inv_start)
  show "lock_inv gb getInner p s'" if "lock_inv gb getInner p s" "mutex_step gb getInner s s'" for s s'
    using that(2,1) by (elim mutex_stepE) (auto intro: tick_inv call_inv lock_mu_inv begin_inv end_inv unlock_inv)
qed

section \<open>Attempts that reach the backend\<close>

text \<open>Start, end and success of the calls that were passed on.\<close>

fun attemptsOf :: "(nat \<times> 'i token_call) list \<Rightarrow> (int \<times> int \<times> bool) list" where
  "attemptsOf [] = []"
| "attemptsOf ((i, Refused t r) # cs) = attemptsOf cs"
| "attemptsOf ((i, Asked t0 t1 io r) # cs) = (t0, t1, \<not> Sum_Type.isl r) # attemptsOf cs"

text \<open>The call in flight is an attempt too; it has not succeeded.\<close>

definition attempts :: "('b, 'p, 'i) token_lock \<Rightarrow> (int \<times> int \<times> bool) list" where
  "attempts s =
     attemptsOf (tl_log s) @ (case inflight s of None \<Rightarrow> [] | Some t0 \<Rightarrow> [(t0, tl_now s, False)])"

definition failing :: "(int \<times> int \<times> bool) list \<Rightarrow> nat" where
  "failing as = length (takeWhile (\<lambda>a. \<not> snd (snd a)) (rev as))"

definition lastEnd :: "(int \<times> int \<times> bool) list \<Rightarrow> int" where
  "lastEnd as = (if as = [] then 0 else fst (snd (last as)))"

definition spaced :: "nat \<Rightarrow> int \<Rightarrow> (int \<times> int \<times> bool) list \<Rightarrow> bool" where
  "spaced n d as \<longleftrightarrow> (\<forall>xs y ys. as = xs @ y # ys \<longrightarrow> n \<le> failing xs \<longrightarrow> lastEnd xs + d < fst y)"

lemma attemptsOf_snoc [simp]:
  "attemptsOf (cs @ [(i, c)]) = attemptsOf cs @ attemptsOf [(i, c)]"
  by (induction cs rule: attemptsOf.induct) simp_all

lemma failing_simps [simp]:
  "failing [] = 0" "failing (as @ [(t0, t1, ok)]) = (if ok then 0 else Suc (failing as))"
  by (simp_all add: failing_def)

lemma lastEnd_snoc [simp]: "lastEnd (as @ [(t0, t1, ok)]) = t1"
  by (simp add: lastEnd_def)

lemma failing_tail: "list_all (\<lambda>a. \<not> snd (snd a)) fs \<Longrightarrow> length fs \<le> failing (xs @ fs)"
proof -
  assume "list_all (\<lambda>a. \<not> snd (snd a)) fs"
  then have "takeWhile (\<lambda>a. \<not> snd (snd a)) (rev fs @ rev xs) = rev fs @ takeWhile (\<lambda>a. \<not> snd (snd a)) (rev xs)"
    by (intro takeWhile_append2) (simp add: list_all_iff)
  then show ?thesis by (simp add: failing_def)
qed

lemma spaced_Nil [simp]: "spaced n d []"
  by (simp add: spaced_def)

lemma spaced_snoc: "spaced n d as \<Longrightarrow> (n \<le> failing as \<Longrightarrow> lastEnd as + d < fst y) \<Longrightarrow> spaced n d (as @ [y])"
  unfolding spaced_def by (metis append_eq_append_conv2 append_Cons append_Nil append_is_Nil_conv
      butlast_snoc butlast_append last_snoc last_append last_ConsL list.distinct(1) butlast.simps(2))

text \<open>A sequential run leaves the breaker where the failures since the last success put it.\<close>

lemma serial_view:
  assumes doc: "documented_breaker gb new view (cbSettings threshold timeout)" and th: "1 \<le> unat threshold"
    and p0: "view (cb_cb p0) = Closed 0"
  shows "serial gb getInner p0 cs q \<Longrightarrow>
    view (cb_cb q) = failed_view threshold timeout (failing (attemptsOf cs)) (lastEnd (attemptsOf cs)) \<and>
    spaced (unat threshold) (effectiveTimeout timeout) (attemptsOf cs)"
proof (induction cs arbitrary: q rule: rev_induct)
  case Nil
  then show ?case using th p0 by (simp add: failed_view_def)
next
  case (snoc ic cs)
  obtain i c where ic: "ic = (i, c)" by (cases ic)
  with snoc.prems obtain m where m: "serial gb getInner p0 cs m" "serves gb getInner m c q"
    by (auto simp: serial_snoc)
  note IH = snoc.IH [OF m(1)]
  show ?case
  proof (cases c)
    case (Refused t r)
    with m(2) have "fst (gb_admit gb (cb_cb m) t) \<noteq> None" "cbGetToken gb getInner m (t, t, undefined) = (r, q)" by auto
    with call_view [OF doc th conjunct1 [OF IH] this(2)] IH ic Refused show ?thesis by simp
  next
    case (Asked t0 t1 io r)
    with m(2) have a: "fst (gb_admit gb (cb_cb m) t0) = None" "cbGetToken gb getInner m (t0, t1, io) = (r, q)" by auto
    with call_view [OF doc th conjunct1 [OF IH] a(2)] IH ic Asked show ?thesis
      by (auto intro!: spaced_snoc)
  qed
qed

lemma attempts_spaced:
  assumes doc: "documented_breaker gb new view (cbSettings threshold timeout)" and th: "1 \<le> unat threshold"
    and p0: "view (cb_cb p0) = Closed 0" and inv: "lock_inv gb getInner p0 s"
  shows "spaced (unat threshold) (effectiveTimeout timeout) (attempts s)"
proof -
  from inv obtain q where q: "serial gb getInner p0 (tl_log s) q"
    "\<And>t0. inflight s = Some t0 \<Longrightarrow> fst (gb_admit gb (cb_cb q) t0) = None"
    by (auto simp: lock_inv_def split: option.splits)
  note v = serial_view [OF doc th p0 q(1)]
  show ?thesis
  proof (cases "inflight s")
    case (Some t0)
    obtain r p' where "cbGetToken gb getInner q (t0, t0, undefined) = (r, p')" by fastforce
    from call_view [OF doc th conjunct1 [OF v] this] q(2) [OF Some] v Some show ?thesis
      by (auto simp: attempts_def intro!: spaced_snoc)
  qed (use v in \<open>simp add: attempts_def\<close>)
qed

text \<open>Lockout protection under concurrency. Whoever calls and whenever, \<open>threshold\<close> failed attempts in a
  row are followed by a pause: the next attempt starts later than the cooldown after the end of the last
  of them.\<close>

lemma breaker_limits_attempts:
  assumes doc: "documented_breaker gb new view (cbSettings threshold timeout)"
    and th: "threshold \<noteq> 0" and pos: "timeout > 0"
    and r: "reach (lock_start now (NewCircuitBreakerTokenProvider new inner threshold timeout))
      (mutex_step gb getInner) s"
    and as: "attempts s = xs @ fs @ y # ys"
    and fs: "length fs = unat threshold" "list_all (\<lambda>a. \<not> snd (snd a)) fs"
  shows "fst y > fst (snd (last fs)) + timeout"
proof -
  let ?p = "NewCircuitBreakerTokenProvider new inner threshold timeout"
  have pos': "1 \<le> unat threshold" using th by (simp add: Suc_le_eq unat_gt_0)
  have "view (cb_cb ?p) = Closed 0" using doc by (simp add: documented_breaker_def)
  from attempts_spaced [OF doc pos' this token_lock.reach_inv [OF r]]
  have "unat threshold \<le> failing (xs @ fs) \<longrightarrow> lastEnd (xs @ fs) + effectiveTimeout timeout < fst y"
    using as unfolding spaced_def by (metis append_assoc)
  moreover have "fs \<noteq> []" using fs(1) pos' by auto
  ultimately show ?thesis
    using failing_tail [OF fs(2), of xs] fs(1) pos by (simp add: lastEnd_def effectiveTimeout_def)
qed

section \<open>Tokens handed out\<close>

text \<open>A wrapped provider keeps its promises under concurrent use.\<close>

context token_provider
begin

lemma serves_token:
  assumes "invar (cb_inner p)" "serves gb getToken p c q"
  shows "invar (cb_inner q) \<and> (resultOf c = Inr t \<longrightarrow> list_all b64_alphabet t)"
proof -
  note w = breaker_wrapped [of gb]
  have "\<exists>io. cbGetToken gb getToken p io = (resultOf c, q)"
    using assms(2) by (cases c) (simp, blast)+
  then obtain io where "cbGetToken gb getToken p io = (resultOf c, q)" by blast
  with token_provider.invar_get [OF w assms(1), of io] token_provider.token_b64 [OF w assms(1), of io t q] show ?thesis
    by auto
qed

lemma serial_token:
  "serial gb getToken p cs q \<Longrightarrow> invar (cb_inner p) \<Longrightarrow> (i, c) \<in> set cs \<Longrightarrow> resultOf c = Inr t \<Longrightarrow>
     list_all b64_alphabet t"
proof (induction cs arbitrary: p)
  case (Cons jd cs)
  obtain j d where jd: "jd = (j, d)" by (cases jd)
  with Cons.prems(1) obtain m where m: "serves gb getToken p d m" "serial gb getToken m cs q" by auto
  from serves_token [OF Cons.prems(2) m(1)] Cons.IH [OF m(2)] Cons.prems(3,4) jd show ?case by auto
qed simp

lemma logged_token:
  assumes "reach (lock_start now p) (mutex_step gb getToken) s" "invar (cb_inner p)"
    and "(i, c) \<in> set (tl_log s)" "resultOf c = Inr t"
  shows "list_all b64_alphabet t"
proof -
  from token_lock.reach_inv [OF assms(1)] obtain q where "serial gb getToken p (tl_log s) q"
    by (auto simp: lock_inv_def)
  from serial_token [OF this assms(2-4)] show ?thesis .
qed

end

section \<open>Serialisation\<close>

text \<open>C3: Concurrent token requests behave as if made one after the other. In every interleaving of any
  number of callers, the calls served so far are, in the order recorded, a sequential run of the
  provider, made at times that do not overlap; every caller that returned got the result of its own
  last call in that run; at most one caller is in the wrapped provider; and no caller waits in vain: while
  one waits, the mutex is free or its holder's next step is possible.\<close>

theorem token_calls_serial:
  assumes "reach (lock_start now p0) (mutex_step gb getInner) s"
  shows "(\<exists>q. serial gb getInner p0 (tl_log s) q \<and> (inflight s = None \<longrightarrow> tl_prov s = q)) \<and>
    sorted (concat (map stamps (tl_log s))) \<and>
    (\<forall>i r. tl_pc s i = Returned r \<longrightarrow> answerOf i (tl_log s) = Some r) \<and>
    (\<forall>i j. critical (tl_pc s i) \<and> critical (tl_pc s j) \<longrightarrow> i = j) \<and>
    (\<forall>i. tl_pc s i = WaitMu \<longrightarrow>
       (\<exists>s'. lockMu i s = Some s') \<or>
       (\<exists>j. critical (tl_pc s j) \<and>
          (\<exists>s'. beginExecute gb j s = Some s' \<or> endExecute gb getInner io j s = Some s' \<or> unlockMu j s = Some s')))"
proof -
  from token_lock.reach_inv [OF assms] have inv: "lock_inv gb getInner p0 s" .
  then have mu: "tl_mu s = Some i \<longleftrightarrow> critical (tl_pc s i)" for i by (simp add: lock_inv_def)
  have step: "\<exists>s'. beginExecute gb j s = Some s' \<or> endExecute gb getInner io j s = Some s' \<or> unlockMu j s = Some s'"
    if "critical (tl_pc s j)" for j
    using that by (cases "tl_pc s j")
      (auto simp: beginExecute_def endExecute_def unlockMu_def Let_def split: prod.splits option.splits)
  have "\<forall>i. tl_pc s i = WaitMu \<longrightarrow> (\<exists>s'. lockMu i s = Some s') \<or> (\<exists>j. critical (tl_pc s j) \<and>
      (\<exists>s'. beginExecute gb j s = Some s' \<or> endExecute gb getInner io j s = Some s' \<or> unlockMu j s = Some s'))"
  proof (intro allI impI)
    fix i assume "tl_pc s i = WaitMu"
    then show "(\<exists>s'. lockMu i s = Some s') \<or> (\<exists>j. critical (tl_pc s j) \<and>
      (\<exists>s'. beginExecute gb j s = Some s' \<or> endExecute gb getInner io j s = Some s' \<or> unlockMu j s = Some s'))"
      using mu step by (cases "tl_mu s") (simp add: lockMu_def, blast)
  qed
  moreover have "\<exists>q. serial gb getInner p0 (tl_log s) q \<and> (inflight s = None \<longrightarrow> tl_prov s = q)"
    using inv by (auto simp: lock_inv_def split: option.splits)
  moreover have "sorted (concat (map stamps (tl_log s)))"
    "\<forall>i r. tl_pc s i = Returned r \<longrightarrow> answerOf i (tl_log s) = Some r"
    using inv by (auto simp: lock_inv_def sorted_append)
  moreover have "\<forall>i j. critical (tl_pc s i) \<and> critical (tl_pc s j) \<longrightarrow> i = j"
    using mu by (metis option.inject)
  ultimately show ?thesis by blast
qed

text \<open>A burst: three callers at once, the breaker open after the first failure.\<close>

definition sample_gb :: "breaker_view gobreaker" where
  "sample_gb = view_breaker (cbSettings 1 30)"

definition sample_backend :: "unit \<Rightarrow> unit \<Rightarrow> (go_error + string) \<times> unit" where
  "sample_backend p io = (Inl (Plain ''kdc''), p)"

definition sample_breaker :: "(breaker_view, unit) CircuitBreakerTokenProvider" where
  "sample_breaker = NewCircuitBreakerTokenProvider (\<lambda>st. Closed 0) () 1 30"

definition sample_burst :: "((breaker_view, unit, unit) token_lock \<Rightarrow> (breaker_view, unit, unit) token_lock option) list" where
  "sample_burst =
     [callGetToken 0, callGetToken 1, callGetToken 2, lockMu 1, beginExecute sample_gb 1,
      endExecute sample_gb sample_backend () 1, unlockMu 1, lockMu 2, beginExecute sample_gb 2, unlockMu 2]"

lemma sample_burst_steps: "f \<in> set sample_burst \<Longrightarrow> f a = Some b \<Longrightarrow> mutex_step sample_gb sample_backend a b"
  by (auto simp: sample_burst_def intro: mutex_step.intros)

theorem token_calls_serial_witness:
  "\<exists>s. play sample_burst (lock_start 0 sample_breaker) = Some s \<and> map fst (tl_log s) = [1, 2] \<and>
     attempts s = [(0, 0, False)] \<and> (\<exists>q. serial sample_gb sample_backend sample_breaker (tl_log s) q)"
proof -
  have "case play sample_burst (lock_start 0 sample_breaker) of
      None \<Rightarrow> False | Some s \<Rightarrow> map fst (tl_log s) = [1, 2] \<and> attempts s = [(0, 0, False)]"
    by (simp add: sample_burst_def lock_start_def callGetToken_def lockMu_def beginExecute_def endExecute_def
        unlockMu_def setPc_def sample_gb_def sample_backend_def sample_breaker_def view_breaker_def admit_view_def
        report_view_def cbSettings_def attempts_def inflight_def effectiveTimeout_def Let_def)
  then obtain s where s: "play sample_burst (lock_start 0 sample_breaker) = Some s" "map fst (tl_log s) = [1, 2]"
    "attempts s = [(0, 0, False)]" by (auto split: option.splits)
  have "reach (lock_start 0 sample_breaker) (mutex_step sample_gb sample_backend) s"
    by (rule play_reach [OF s(1) reach_init]) (rule sample_burst_steps)
  from conjunct1 [OF token_calls_serial [OF this, where io = "()"]] s show ?thesis by auto
qed

end
