(* ===== verification/Go_Values.thy ===== *)
theory Go_Values
  imports Go_Prelude
begin

text \<open>
  The value grammars of Go's standard library that the command line of src/cli.go rests on:
  \<^verbatim>\<open>strconv.ParseInt\<close> with base 0 (the integer flags), \<^verbatim>\<open>time.ParseDuration\<close> (the duration flags) and
  \<^verbatim>\<open>Duration.String\<close> (the message of \<^verbatim>\<open>validateFlags\<close>). Durations are nanoseconds; the 64-bit sums of the
  duration parser wrap as they do in Go, and its fractions are computed in 64-bit floating point.
\<close>

section \<open>Integers\<close>

definition digit_val :: "char \<Rightarrow> int option" where
  "digit_val c =
     (if is_digit c then Some (int (byte c - 48))
      else if is_upper c \<or> is_lower c then Some (int (byte (lower_char c) - 87))
      else None)"

text \<open>The digits in a base, underscores skipped; \<open>None\<close> on a bad digit or a value of 64 bits or more.\<close>

fun parse_base :: "int \<Rightarrow> int \<Rightarrow> string \<Rightarrow> int option" where
  "parse_base b acc [] = Some acc"
| "parse_base b acc (c # cs) =
     (if c = CHR ''_'' then parse_base b acc cs
      else (case digit_val c of
              None \<Rightarrow> None
            | Some d \<Rightarrow>
                if d \<ge> b then None
                else let n = acc * b + d in (if n < 2 ^ 64 then parse_base b n cs else None)))"

text \<open>\<^verbatim>\<open>underscoreOK\<close>: \<open>saw\<close> is \<open>^\<close> at the start, \<open>0\<close> after a digit or a base prefix, \<open>_\<close> after an underscore
  and \<open>!\<close> after anything else.\<close>

fun underscore_loop :: "bool \<Rightarrow> char \<Rightarrow> string \<Rightarrow> bool" where
  "underscore_loop hex saw [] \<longleftrightarrow> saw \<noteq> CHR ''_''"
| "underscore_loop hex saw (c # cs) \<longleftrightarrow>
     (if is_digit c \<or> hex \<and> lower_char c \<in> set ''abcdef'' then underscore_loop hex CHR ''0'' cs
      else if c = CHR ''_'' then saw = CHR ''0'' \<and> underscore_loop hex CHR ''_'' cs
      else saw \<noteq> CHR ''_'' \<and> underscore_loop hex CHR ''!'' cs)"

definition underscoreOK :: "string \<Rightarrow> bool" where
  "underscoreOK s =
     (let s1 = (if s \<noteq> [] \<and> (hd s = CHR ''-'' \<or> hd s = CHR ''+'') then tl s else s)
      in if length s1 \<ge> 2 \<and> hd s1 = CHR ''0'' \<and> lower_char (s1 ! 1) \<in> set ''box''
         then underscore_loop (lower_char (s1 ! 1) = CHR ''x'') CHR ''0'' (drop 2 s1)
         else underscore_loop False CHR ''^'' s1)"

definition base_of :: "string \<Rightarrow> int \<times> string" where
  "base_of s =
     (if hd s \<noteq> CHR ''0'' then (10, s)
      else if length s \<ge> 3 \<and> lower_char (s ! 1) = CHR ''b'' then (2, drop 2 s)
      else if length s \<ge> 3 \<and> lower_char (s ! 1) = CHR ''o'' then (8, drop 2 s)
      else if length s \<ge> 3 \<and> lower_char (s ! 1) = CHR ''x'' then (16, drop 2 s)
      else (8, drop 1 s))"

definition parseUint0 :: "string \<Rightarrow> int option" where
  "parseUint0 s =
     (if s = [] then None
      else (case base_of s of (base, ds) \<Rightarrow>
              (case parse_base base 0 ds of
                 None \<Rightarrow> None
               | Some n \<Rightarrow> if CHR ''_'' \<in> set ds \<and> \<not> underscoreOK s then None else Some n)))"

definition parseInt0 :: "string \<Rightarrow> int option" where
  "parseInt0 s =
     (case s of
        [] \<Rightarrow> None
      | c # cs \<Rightarrow>
          let neg = (c = CHR ''-'');
              ds = (if c = CHR ''-'' \<or> c = CHR ''+'' then cs else s)
          in (case parseUint0 ds of
                None \<Rightarrow> None
              | Some un \<Rightarrow>
                  if \<not> neg \<and> un \<ge> 2 ^ 63 then None
                  else if neg \<and> un > 2 ^ 63 then None
                  else Some (if neg then - un else un)))"

section \<open>Fractions\<close>

text \<open>A positive 64-bit float \<open>(m, e)\<close> is \<open>m * 2 ^ e\<close> with \<open>m \<le> 2 ^ 53\<close>; results round to nearest, ties to
  even. The exponent is not bounded: a fraction with so many digits that Go's scale overflows is less
  than a nanosecond either way.\<close>

type_synonym f64 = "int \<times> int"

definition round_even :: "int \<Rightarrow> int \<Rightarrow> int" where
  "round_even n d =
     (let q = n div d; r = n mod d in (if 2 * r < d \<or> 2 * r = d \<and> even q then q else q + 1))"

function bit_count :: "int \<Rightarrow> nat" where
  "bit_count n = (if n \<le> 0 then 0 else Suc (bit_count (n div 2)))"
  by pat_completeness auto
termination by (relation "measure nat") auto

declare bit_count.simps [simp del]

definition f64_round :: "int \<Rightarrow> int \<Rightarrow> f64" where
  "f64_round n e =
     (let k = bit_count n - 53 in (if k = 0 then (n, e) else (round_even n (2 ^ k), e + int k)))"

definition f64_mul :: "f64 \<Rightarrow> f64 \<Rightarrow> f64" where
  "f64_mul a b = f64_round (fst a * fst b) (snd a + snd b)"

definition f64_div :: "f64 \<Rightarrow> f64 \<Rightarrow> f64" where
  "f64_div a b =
     (let k0 = 53 + bit_count (fst b) - bit_count (fst a);
          k = (if fst a * 2 ^ k0 div fst b \<ge> 2 ^ 53 then k0 - 1 else k0)
      in (round_even (fst a * 2 ^ k) (fst b), snd a - snd b - int k))"

definition f64_trunc :: "f64 \<Rightarrow> int" where
  "f64_trunc a = (if snd a \<ge> 0 then fst a * 2 ^ nat (snd a) else fst a div 2 ^ nat (- snd a))"

section \<open>Durations\<close>

text \<open>\<^verbatim>\<open>unitMap\<close>; the micro sign and the Greek letter mu are two bytes each.\<close>

definition unitMap :: "(string \<times> int) list" where
  "unitMap =
     [(''ns'', 1), (''us'', 1000), ([CHR 0xC2, CHR 0xB5, CHR ''s''], 1000), ([CHR 0xCE, CHR 0xBC, CHR ''s''], 1000),
      (''ms'', 1000000), (''s'', 1000000000), (''m'', 60000000000), (''h'', 3600000000000)]"

fun leadingInt :: "int \<Rightarrow> string \<Rightarrow> (int \<times> string) option" where
  "leadingInt x [] = Some (x, [])"
| "leadingInt x (c # cs) =
     (if \<not> is_digit c then Some (x, c # cs)
      else if x > 2 ^ 63 div 10 then None
      else let y = x * 10 + int (byte c - 48) in (if y > 2 ^ 63 then None else leadingInt y cs))"

fun leadingFraction :: "int \<Rightarrow> f64 \<Rightarrow> bool \<Rightarrow> string \<Rightarrow> int \<times> f64 \<times> string" where
  "leadingFraction x scale over [] = (x, scale, [])"
| "leadingFraction x scale over (c # cs) =
     (if \<not> is_digit c then (x, scale, c # cs)
      else if over \<or> x > (2 ^ 63 - 1) div 10 then leadingFraction x scale True cs
      else let y = x * 10 + int (byte c - 48)
           in (if y > 2 ^ 63 then leadingFraction x scale True cs
               else leadingFraction y (f64_mul scale (10, 0)) over cs))"

definition unit_char :: "char \<Rightarrow> bool" where
  "unit_char c \<longleftrightarrow> c \<noteq> CHR ''.'' \<and> \<not> is_digit c"

text \<open>One number with its unit: its nanoseconds and the rest.\<close>

definition parseComponent :: "string \<Rightarrow> (int \<times> string) option" where
  "parseComponent s =
     (if s = [] \<or> \<not> (hd s = CHR ''.'' \<or> is_digit (hd s)) then None
      else (case leadingInt 0 s of
              None \<Rightarrow> None
            | Some (v, s1) \<Rightarrow>
                let pre = length s \<noteq> length s1;
                    dot = s1 \<noteq> [] \<and> hd s1 = CHR ''.'';
                    (f, scale, s2) = (if dot then leadingFraction 0 (1, 0) False (tl s1) else (0, (1, 0), s1));
                    post = dot \<and> length (tl s1) \<noteq> length s2;
                    u = takeWhile unit_char s2;
                    s3 = dropWhile unit_char s2
                in if \<not> pre \<and> \<not> post then None
                   else if u = [] then None
                   else (case map_of unitMap u of
                           None \<Rightarrow> None
                         | Some unit \<Rightarrow>
                             if v > 2 ^ 63 div unit then None
                             else let v1 = v * unit;
                                      v2 = (if f > 0
                                            then v1 + f64_trunc (f64_mul (f64_round f 0) (f64_div (unit, 0) scale))
                                            else v1)
                                  in (if v2 > 2 ^ 63 then None else Some (v2, s3)))))"

lemma leadingInt_length: "leadingInt x s = Some (v, s1) \<Longrightarrow> length s1 \<le> length s"
  by (induction x s rule: leadingInt.induct) (auto simp: Let_def split: if_splits)

lemma leadingFraction_length: "leadingFraction x sc ov s = (f, sc', s1) \<Longrightarrow> length s1 \<le> length s"
  by (induction x sc ov s rule: leadingFraction.induct) (force simp: Let_def split: if_splits)+

lemma parseComponent_length: "parseComponent s = Some (v, s') \<Longrightarrow> length s' < length s"
proof -
  assume p: "parseComponent s = Some (v, s')"
  have drop: "length (dropWhile unit_char t) < length t" if "takeWhile unit_char t \<noteq> []" for t
    using that length_dropWhile_le [of unit_char "tl t"] by (cases t) (auto split: if_splits)
  from p obtain w s1 where l: "leadingInt 0 s = Some (w, s1)"
    by (auto simp: parseComponent_def split: if_splits option.splits)
  obtain f sc s2 where fr: "(if s1 \<noteq> [] \<and> hd s1 = CHR ''.'' then leadingFraction 0 (1, 0) False (tl s1)
      else (0, (1, 0), s1)) = (f, sc, s2)" by (metis prod_cases3)
  have "length s2 \<le> length s1"
    using fr leadingFraction_length [of 0 "(1, 0)" False "tl s1" f sc s2] by (auto split: if_splits)
  moreover have "s' = dropWhile unit_char s2" "takeWhile unit_char s2 \<noteq> []"
    using p l fr by (auto simp: parseComponent_def Let_def split: if_splits option.splits prod.splits)
  ultimately show ?thesis using drop [of s2] leadingInt_length [OF l] by simp
qed

function parseDurationLoop :: "int \<Rightarrow> string \<Rightarrow> int option" where
  "parseDurationLoop d s =
     (if s = [] then Some d
      else (case parseComponent s of
              None \<Rightarrow> None
            | Some (v, s1) \<Rightarrow>
                let d1 = (d + v) mod 2 ^ 64 in (if d1 > 2 ^ 63 then None else parseDurationLoop d1 s1)))"
  by pat_completeness auto
termination by (relation "measure (\<lambda>(d, s). length s)") (auto dest: parseComponent_length)

declare parseDurationLoop.simps [simp del]

definition parseDuration :: "string \<Rightarrow> int option" where
  "parseDuration s0 =
     (let signed = s0 \<noteq> [] \<and> (hd s0 = CHR ''-'' \<or> hd s0 = CHR ''+'');
          neg = signed \<and> hd s0 = CHR ''-'';
          s = (if signed then tl s0 else s0)
      in if s = ''0'' then Some 0
         else if s = [] then None
         else (case parseDurationLoop 0 s of
                 None \<Rightarrow> None
               | Some d \<Rightarrow>
                   if neg then Some (- d)
                   else if d > 2 ^ 63 - 1 then None
                   else Some d))"

text \<open>\<^verbatim>\<open>fmtFrac\<close>: the fraction of \<open>prec\<close> digits without trailing zeros, and the whole part.\<close>

fun fmtFrac :: "int \<Rightarrow> bool \<Rightarrow> nat \<Rightarrow> string \<Rightarrow> string \<times> int" where
  "fmtFrac v print 0 buf = (if print then CHR ''.'' # buf else buf, v)"
| "fmtFrac v print (Suc i) buf =
     (let digit = v mod 10; print1 = (print \<or> digit \<noteq> 0)
      in fmtFrac (v div 10) print1 i (if print1 then char_of (48 + nat digit) # buf else buf))"

definition showSmall :: "int \<Rightarrow> string" where
  "showSmall u =
     (if u = 0 then ''0s''
      else let (prec, unit) = (if u < 1000 then (0, ''ns'')
                               else if u < 1000000 then (3, [CHR 0xC2, CHR 0xB5, CHR ''s''])
                               else (6, ''ms''));
               (buf, v) = fmtFrac u False prec unit
           in dec_of_nat (nat v) @ buf)"

definition showLarge :: "int \<Rightarrow> string" where
  "showLarge u =
     (let (buf, secs) = fmtFrac u False 9 ''s'';
          ss = dec_of_nat (nat (secs mod 60)) @ buf;
          mins = secs div 60
      in if mins = 0 then ss
         else let ms = dec_of_nat (nat (mins mod 60)) @ ''m'' @ ss; hours = mins div 60
              in (if hours = 0 then ms else dec_of_nat (nat hours) @ ''h'' @ ms))"

text \<open>\<^verbatim>\<open>Duration.String\<close>, for a 64-bit duration.\<close>

definition showDuration :: "int \<Rightarrow> string" where
  "showDuration d =
     (let u = \<bar>d\<bar>; s = (if u < 1000000000 then showSmall u else showLarge u)
      in if d < 0 then CHR ''-'' # s else s)"

section \<open>Round trips\<close>

lemma digit_not_special: "is_digit c \<Longrightarrow> c \<noteq> CHR ''_'' \<and> c \<noteq> CHR ''-'' \<and> c \<noteq> CHR ''+'' \<and> c \<noteq> CHR ''.''"
  by (auto simp: is_digit_def)

lemma parse_base_digits:
  "parse_digits acc s = Some n \<Longrightarrow> int n < 2 ^ 64 \<Longrightarrow> parse_base 10 (int acc) s = Some (int n)"
proof (induction s arbitrary: acc)
  case (Cons c cs)
  then have c: "is_digit c" "parse_digits (acc * 10 + (byte c - 48)) cs = Some n" by (auto split: if_splits)
  from c(1) have "byte c - 48 < 10" by (auto simp: is_digit_def)
  moreover have "int (acc * 10 + (byte c - 48)) < 2 ^ 64" using parse_digits_mono [OF c(2)] Cons.prems(2) by linarith
  ultimately show ?case using Cons.IH [OF c(2) Cons.prems(2)] c(1) digit_not_special [OF c(1)]
    by (simp add: digit_val_def Let_def)
qed simp

lemma dec_of_nat_hd_zero: "hd (dec_of_nat n) = CHR ''0'' \<Longrightarrow> n = 0"
proof (induction n rule: dec_of_nat.induct)
  case (1 n)
  show ?case
  proof (cases "n < 10")
    case True
    with "1.prems" have "char_of (48 + n) = CHR ''0''" by (simp add: dec_of_nat.simps [of n])
    with True byte_digit [of n] show ?thesis by simp
  next
    case False
    with "1" have "n div 10 = 0" by (simp add: dec_of_nat.simps [of n])
    with False show ?thesis by simp
  qed
qed

lemma dec_of_nat_0: "dec_of_nat 0 = ''0''"
  by code_simp

lemma parseUint0_dec: "int n < 2 ^ 64 \<Longrightarrow> parseUint0 (dec_of_nat n) = Some (int n)"
proof (cases "n = 0")
  case True
  have "parseUint0 ''0'' = Some 0" by code_simp
  with True show ?thesis by (simp add: dec_of_nat_0)
next
  case False
  assume n: "int n < 2 ^ 64"
  from False dec_of_nat_hd_zero have "base_of (dec_of_nat n) = (10, dec_of_nat n)" by (auto simp: base_of_def)
  moreover have "CHR ''_'' \<notin> set (dec_of_nat n)"
    using dec_of_nat_digits [of n] digit_not_special by (auto simp: list_all_iff)
  ultimately show ?thesis using parse_base_digits [OF parse_digits_dec_of_nat n] by (simp add: parseUint0_def)
qed

text \<open>Decimal integers are read back in base 0.\<close>

lemma parseInt0_itoa:
  assumes "- (2 ^ 63) \<le> i" "i < 2 ^ 63"
  shows "parseInt0 (itoa i) = Some i"
proof (cases "i < 0")
  case True
  have "parseUint0 (dec_of_nat (nat (- i))) = Some (int (nat (- i)))" by (rule parseUint0_dec) (use assms True in auto)
  with True assms show ?thesis by (simp add: parseInt0_def itoa_def)
next
  case False
  let ?s = "dec_of_nat (nat i)"
  obtain c cs where s: "?s = c # cs" by (cases ?s) auto
  have "c \<noteq> CHR ''-''" "c \<noteq> CHR ''+''" using hd_dec_of_nat_digit [of "nat i"] digit_not_special [of c] s by auto
  moreover have "parseUint0 ?s = Some (int (nat i))" by (rule parseUint0_dec) (use assms False in auto)
  ultimately show ?thesis using False assms s by (simp add: parseInt0_def itoa_def)
qed

lemma leadingInt_digits:
  "parse_digits acc ds = Some n \<Longrightarrow> int n \<le> 2 ^ 63 \<Longrightarrow> \<not> is_digit c \<Longrightarrow>
     leadingInt (int acc) (ds @ c # cs) = Some (int n, c # cs)"
proof (induction ds arbitrary: acc)
  case (Cons d ds)
  then have d: "is_digit d" "parse_digits (acc * 10 + (byte d - 48)) ds = Some n" by (auto split: if_splits)
  have "int acc * 10 + int (byte d - 48) \<le> 2 ^ 63" using parse_digits_mono [OF d(2)] Cons.prems(2) by linarith
  moreover from this have "int acc \<le> 2 ^ 63 div 10" by linarith
  ultimately show ?case using Cons.IH [OF d(2) Cons.prems(2,3)] d(1) by (simp add: Let_def)
qed simp

text \<open>A decimal number with a unit of letters, before the end or another number.\<close>

lemma parseComponent_dec:
  assumes "map_of unitMap u = Some unit" "u \<noteq> []" "list_all unit_char u" "int n * unit \<le> 2 ^ 63" "unit > 0"
    and "rest = [] \<or> is_digit (hd rest)"
  shows "parseComponent (dec_of_nat n @ u @ rest) = Some (int n * unit, rest)"
proof -
  obtain c us where u: "u = c # us" using assms(2) by (cases u) auto
  with assms(3) have c: "\<not> is_digit c" "c \<noteq> CHR ''.''" by (simp_all add: unit_char_def)
  have n: "int n \<le> 2 ^ 63 div unit" using zdiv_mono1 [OF assms(4,5)] assms(5) by simp
  have "int n * 1 \<le> int n * unit" by (rule mult_left_mono) (use assms(5) in auto)
  with assms(4) have "int n \<le> 2 ^ 63" by linarith
  then have l: "leadingInt 0 (dec_of_nat n @ c # us @ rest) = Some (int n, c # us @ rest)"
    using leadingInt_digits [OF parse_digits_dec_of_nat _ c(1)] by simp
  have hd: "is_digit (hd (dec_of_nat n @ c # us @ rest))" using hd_dec_of_nat_digit by simp
  have t: "takeWhile unit_char (u @ rest) = u" "dropWhile unit_char (u @ rest) = rest"
    using assms(3,6) by (cases rest; auto simp: list_all_iff unit_char_def takeWhile_append dropWhile_append
      takeWhile_eq_all_conv dropWhile_eq_Nil_conv)+
  show ?thesis
    using l hd c t [unfolded u] assms(1) [unfolded u] n assms(4)
    by (simp add: parseComponent_def u Let_def)
qed

lemma parseDurationLoop_dec:
  assumes "map_of unitMap u = Some unit" "u \<noteq> []" "list_all unit_char u" "unit > 0"
    and "rest = [] \<or> is_digit (hd rest)" and "0 \<le> d" "d + int n * unit \<le> 2 ^ 63"
  shows "parseDurationLoop d (dec_of_nat n @ u @ rest) = parseDurationLoop (d + int n * unit) rest"
proof -
  have "int n * unit \<le> 2 ^ 63" "0 \<le> int n * unit" using assms(4,6,7) by simp_all
  moreover from this assms(6,7) have "(d + int n * unit) mod 2 ^ 64 = d + int n * unit" by (intro mod_pos_pos_trivial) simp_all
  ultimately show ?thesis using parseComponent_dec [OF assms(1-3) _ assms(4,5), of n] assms(7)
    by (simp add: parseDurationLoop.simps [of d "dec_of_nat n @ u @ rest"])
qed

lemma units:
  "map_of unitMap ''s'' = Some 1000000000" "map_of unitMap ''m'' = Some 60000000000"
  "map_of unitMap ''h'' = Some 3600000000000" "list_all unit_char ''s''" "list_all unit_char ''m''" "list_all unit_char ''h''"
  by code_simp+

lemma fmtFrac_zero: "fmtFrac (v * 10 ^ i) False i buf = (buf, v)"
proof (induction i arbitrary: v)
  case (Suc i)
  have "v * 10 ^ Suc i = 10 * (v * 10 ^ i)" by simp
  with Suc show ?case by (simp only: fmtFrac.simps Let_def) simp
qed simp

lemma parseDurationLoop_seconds:
  assumes "0 \<le> d" "d + int n * 1000000000 \<le> 2 ^ 63"
  shows "parseDurationLoop d (dec_of_nat n @ ''s'') = Some (d + int n * 1000000000)"
  using parseDurationLoop_dec [OF units(1) _ units(4), of "[]" d n] assms
  by (simp add: parseDurationLoop.simps [of _ "[]"])

lemma parse_showLarge:
  assumes "int secs * 1000000000 \<le> 2 ^ 63"
  shows "parseDurationLoop 0 (showLarge (int secs * 1000000000)) = Some (int secs * 1000000000)"
proof -
  define S M H where "S = secs mod 60" and "M = secs div 60 mod 60" and "H = secs div 60 div 60"
  let ?ss = "dec_of_nat S @ ''s''"
  let ?ms = "dec_of_nat M @ ''m'' @ ?ss"
  have fr: "fmtFrac (int secs * 1000000000) False 9 ''s'' = (''s'', int secs)"
    using fmtFrac_zero [of "int secs" 9 "''s''"] by simp
  have hds: "is_digit (hd ?ss)" "is_digit (hd ?ms)" using hd_dec_of_nat_digit by simp_all
  have "secs div 60 * 60 + S = secs" "H * 60 + M = secs div 60" by (simp_all add: S_def M_def H_def)
  then have tot: "int H * 3600000000000 + int M * 60000000000 + int S * 1000000000 = int secs * 1000000000"
    and M: "secs div 60 = 60 * H + M" by linarith+
  have ms: "parseDurationLoop d ?ms = Some (d + int M * 60000000000 + int S * 1000000000)"
    if "0 \<le> d" "d + int M * 60000000000 + int S * 1000000000 \<le> 2 ^ 63" for d
    using parseDurationLoop_dec [OF units(2) _ units(5), of ?ss d M] hds(1) that
      parseDurationLoop_seconds [of "d + int M * 60000000000" S] by simp
  have n: "int secs mod 60 = int S" "int secs div 60 = int (secs div 60)"
    "int (secs div 60) mod 60 = int M" "int (secs div 60) div 60 = int H"
    by (simp_all add: S_def M_def H_def zmod_int zdiv_int)
  have sh: "showLarge (int secs * 1000000000) =
      (if secs div 60 = 0 then ?ss else if H = 0 then ?ms else dec_of_nat H @ ''h'' @ ?ms)"
    unfolding showLarge_def fr Let_def prod.case n nat_int by simp
  consider "secs div 60 = 0" | "secs div 60 \<noteq> 0" "H = 0" | "secs div 60 \<noteq> 0" "H \<noteq> 0" by blast
  then show ?thesis
  proof cases
    case 1
    with M have "H = 0" "M = 0" by simp_all
    with 1 sh tot parseDurationLoop_seconds [of 0 S] assms show ?thesis by simp
  next
    case 2
    with sh tot ms [of 0] assms show ?thesis by simp
  next
    case 3
    with sh have "showLarge (int secs * 1000000000) = dec_of_nat H @ ''h'' @ ?ms" by simp
    with parseDurationLoop_dec [OF units(3) _ units(6), of ?ms 0 H] hds(2) ms [of "int H * 3600000000000"] tot assms
    show ?thesis by simp
  qed
qed

lemma showDuration_magnitude:
  assumes "n mod 1000000000 = 0" "0 \<le> n" "n \<le> 2 ^ 63"
  defines "s \<equiv> (if n < 1000000000 then showSmall n else showLarge n)"
  shows "parseDurationLoop 0 s = Some n \<and> is_digit (hd s) \<and> s \<noteq> [] \<and> s \<noteq> ''0''"
proof (cases "n < 1000000000")
  case True
  with assms(1,2) have "n = 0" by simp
  then have "s = ''0s''" by (simp add: s_def showSmall_def)
  moreover have "parseDurationLoop 0 ''0s'' = Some 0 \<and> is_digit (hd ''0s'')"
    using parseDurationLoop_seconds [of 0 0] hd_dec_of_nat_digit [of 0] by (simp add: dec_of_nat_0)
  ultimately show ?thesis using \<open>n = 0\<close> by simp
next
  case False
  define secs where "secs = nat (n div 1000000000)"
  have n: "n = int secs * 1000000000" using assms(1,2) div_mult_mod_eq [of n 1000000000] by (simp add: secs_def)
  have "fmtFrac n False 9 ''s'' = (''s'', int secs)"
    using fmtFrac_zero [of "int secs" 9 "''s''"] n by simp
  then have "last (showLarge n) = CHR ''s''" "is_digit (hd (showLarge n))" "showLarge n \<noteq> []"
    using hd_dec_of_nat_digit by (simp_all add: showLarge_def Let_def)
  with parse_showLarge [of secs] assms(3) False n show ?thesis by (auto simp: s_def)
qed

lemma parseDuration_show:
  assumes "d mod 1000000000 = 0" "\<bar>d\<bar> < 2 ^ 63"
  shows "parseDuration (showDuration d) = Some d"
proof -
  let ?n = "\<bar>d\<bar>"
  let ?s = "if ?n < 1000000000 then showSmall ?n else showLarge ?n"
  have "?n mod 1000000000 = 0" using assms(1) by (simp add: mod_eq_0_iff_dvd)
  from showDuration_magnitude [OF this abs_ge_zero less_imp_le [OF assms(2)]]
  have s: "parseDurationLoop 0 ?s = Some ?n" "is_digit (hd ?s)" "?s \<noteq> []" "?s \<noteq> ''0''" by blast+
  define t where "t = ?s"
  have d: "showDuration d = (if d < 0 then CHR ''-'' # t else t)" by (simp add: showDuration_def t_def Let_def)
  note s = s [folded t_def]
  show ?thesis
    using s digit_not_special [OF s(2)] assms(2) by (cases "d < 0") (simp_all add: parseDuration_def d)
qed

end
