(* ===== verification/Cli.thy ===== *)
theory Cli
  imports Client_Session Gokrb5_Provider Breaker_Lock Go_Values
begin

text \<open>
  The command line and the start of the program: src/cli.go, src/version.go and src/main.go. The flag
  grammar is that of Go's \<^verbatim>\<open>flag.FlagSet.Parse\<close> with \<^verbatim>\<open>ContinueOnError\<close>; the grammars of the values are those
  of Go_Values. Everything the start asks of the system (files, listening socket, random bytes, environment
  variables) is an argument.
  The theorems show that the flags mean the same in every spelling, that what passes validation reaches
  the circuit breaker unchanged, and that a started proxy runs with what the flags say.
\<close>

section \<open>Flags\<close>

record cliConfig =
  c_Addr :: string
  c_Proxy :: string
  c_SPN :: string
  c_Debug :: bool
  c_DialTimeout :: int
  c_ReadTimeout :: int
  c_DrainTimeout :: int
  c_KeepAlive :: int
  c_IdleTimeout :: int
  c_MaxConns :: int
  c_ConnectPorts :: string
  c_AllowedIPs :: string
  c_NoProxy :: string
  c_CBThreshold :: int
  c_CBTimeout :: int
  c_Forwarded :: bool
  c_XForwardedFor :: bool
  c_UpstreamTLS :: bool
  c_UpstreamCA :: string
  c_UpstreamTLSInsecure :: bool
  c_CfgFile :: string
  c_User :: string
  c_Realm :: string
  c_PasswordFile :: string
  c_ShowVersion :: bool

definition second :: int where "second = 1000000000"

text \<open>The defaults given to the flag definitions.\<close>

definition flagDefaults :: cliConfig where
  "flagDefaults =
     \<lparr>c_Addr = ''127.0.0.1:8080'', c_Proxy = [], c_SPN = [], c_Debug = False,
      c_DialTimeout = 30 * second, c_ReadTimeout = 30 * second, c_DrainTimeout = 30 * second,
      c_KeepAlive = 30 * second, c_IdleTimeout = 5 * 60 * second, c_MaxConns = 512,
      c_ConnectPorts = ''443'', c_AllowedIPs = [], c_NoProxy = [],
      c_CBThreshold = CBConsecutiveFailures, c_CBTimeout = CBTimeout,
      c_Forwarded = False, c_XForwardedFor = False,
      c_UpstreamTLS = False, c_UpstreamCA = [], c_UpstreamTLSInsecure = False,
      c_CfgFile = [], c_User = [], c_Realm = [], c_PasswordFile = [], c_ShowVersion = False\<rparr>"

text \<open>A flag by its type, with the field it sets.\<close>

datatype flag_var =
    StringVar "string \<Rightarrow> cliConfig \<Rightarrow> cliConfig"
  | BoolVar "bool \<Rightarrow> cliConfig \<Rightarrow> cliConfig"
  | DurationVar "int \<Rightarrow> cliConfig \<Rightarrow> cliConfig"
  | IntVar "int \<Rightarrow> cliConfig \<Rightarrow> cliConfig"

definition flagTable :: "(string \<times> flag_var) list" where
  "flagTable =
     [(''addr'', StringVar (\<lambda>v. c_Addr_update (\<lambda>_. v))),
      (''proxy'', StringVar (\<lambda>v. c_Proxy_update (\<lambda>_. v))),
      (''spn'', StringVar (\<lambda>v. c_SPN_update (\<lambda>_. v))),
      (''debug'', BoolVar (\<lambda>v. c_Debug_update (\<lambda>_. v))),
      (''dial-timeout'', DurationVar (\<lambda>v. c_DialTimeout_update (\<lambda>_. v))),
      (''read-timeout'', DurationVar (\<lambda>v. c_ReadTimeout_update (\<lambda>_. v))),
      (''drain-timeout'', DurationVar (\<lambda>v. c_DrainTimeout_update (\<lambda>_. v))),
      (''keepalive'', DurationVar (\<lambda>v. c_KeepAlive_update (\<lambda>_. v))),
      (''idle-timeout'', DurationVar (\<lambda>v. c_IdleTimeout_update (\<lambda>_. v))),
      (''max-conns'', IntVar (\<lambda>v. c_MaxConns_update (\<lambda>_. v))),
      (''connect-ports'', StringVar (\<lambda>v. c_ConnectPorts_update (\<lambda>_. v))),
      (''allowed-ips'', StringVar (\<lambda>v. c_AllowedIPs_update (\<lambda>_. v))),
      (''noproxy'', StringVar (\<lambda>v. c_NoProxy_update (\<lambda>_. v))),
      (''cb-threshold'', IntVar (\<lambda>v. c_CBThreshold_update (\<lambda>_. v))),
      (''cb-timeout'', DurationVar (\<lambda>v. c_CBTimeout_update (\<lambda>_. v))),
      (''forwarded'', BoolVar (\<lambda>v. c_Forwarded_update (\<lambda>_. v))),
      (''x-forwarded-for'', BoolVar (\<lambda>v. c_XForwardedFor_update (\<lambda>_. v))),
      (''upstream-tls'', BoolVar (\<lambda>v. c_UpstreamTLS_update (\<lambda>_. v))),
      (''upstream-ca'', StringVar (\<lambda>v. c_UpstreamCA_update (\<lambda>_. v))),
      (''upstream-tls-insecure'', BoolVar (\<lambda>v. c_UpstreamTLSInsecure_update (\<lambda>_. v))),
      (''config'', StringVar (\<lambda>v. c_CfgFile_update (\<lambda>_. v))),
      (''user'', StringVar (\<lambda>v. c_User_update (\<lambda>_. v))),
      (''realm'', StringVar (\<lambda>v. c_Realm_update (\<lambda>_. v))),
      (''password-file'', StringVar (\<lambda>v. c_PasswordFile_update (\<lambda>_. v))),
      (''version'', BoolVar (\<lambda>v. c_ShowVersion_update (\<lambda>_. v)))]"

definition parseBool :: "string \<Rightarrow> bool option" where
  "parseBool s =
     (if s \<in> {''1'', ''t'', ''T'', ''TRUE'', ''true'', ''True''} then Some True
      else if s \<in> {''0'', ''f'', ''F'', ''FALSE'', ''false'', ''False''} then Some False
      else None)"

fun setFlag :: "flag_var \<Rightarrow> string \<Rightarrow> cliConfig \<Rightarrow> cliConfig option" where
  "setFlag (StringVar f) v c = Some (f v c)"
| "setFlag (BoolVar f) v c = map_option (\<lambda>b. f b c) (parseBool v)"
| "setFlag (DurationVar f) v c = map_option (\<lambda>d. f d c) (parseDuration v)"
| "setFlag (IntVar f) v c = map_option (\<lambda>n. f n c) (parseInt0 v)"

definition isBoolFlag :: "flag_var \<Rightarrow> bool" where
  "isBoolFlag f = (case f of BoolVar _ \<Rightarrow> True | _ \<Rightarrow> False)"

datatype flag_error = ErrHelp | BadSyntax string | Undefined string | BadValue string string | NeedsArgument string

text \<open>The name and the value of \<open>name=value\<close>; an equals sign in the first position does not count.\<close>

definition splitFlag :: "string \<Rightarrow> string \<times> string option" where
  "splitFlag s =
     (case s of
        [] \<Rightarrow> ([], None)
      | c # cs \<Rightarrow>
          (case index_byte CHR ''='' cs of
             None \<Rightarrow> (s, None)
           | Some i \<Rightarrow> (c # take i cs, Some (drop (Suc i) cs))))"

text \<open>The flag text after the dashes; \<open>None\<close> ends the flags.\<close>

definition flagText :: "string \<Rightarrow> string option" where
  "flagText s =
     (if length s < 2 \<or> hd s \<noteq> CHR ''-'' then None
      else if s ! 1 = CHR ''-'' then (if length s = 2 then None else Some (drop 2 s))
      else Some (drop 1 s))"

function parseArgs :: "string list \<Rightarrow> cliConfig \<Rightarrow> flag_error + cliConfig" where
  "parseArgs [] c = Inr c"
| "parseArgs (s # args) c =
     (case flagText s of
        None \<Rightarrow> Inr c
      | Some text \<Rightarrow>
          if text = [] \<or> hd text = CHR ''-'' \<or> hd text = CHR ''='' then Inl (BadSyntax s)
          else (case splitFlag text of (name, val) \<Rightarrow>
            (case map_of flagTable name of
               None \<Rightarrow> Inl (if name = ''help'' \<or> name = ''h'' then ErrHelp else Undefined name)
             | Some f \<Rightarrow>
                 if isBoolFlag f then
                   let v = (case val of None \<Rightarrow> ''true'' | Some v \<Rightarrow> v)
                   in (case setFlag f v c of
                         None \<Rightarrow> Inl (BadValue name v) | Some c' \<Rightarrow> parseArgs args c')
                 else (case val of
                         Some v \<Rightarrow>
                           (case setFlag f v c of
                              None \<Rightarrow> Inl (BadValue name v) | Some c' \<Rightarrow> parseArgs args c')
                       | None \<Rightarrow>
                           (case args of
                              [] \<Rightarrow> Inl (NeedsArgument name)
                            | v # args' \<Rightarrow>
                                (case setFlag f v c of
                                   None \<Rightarrow> Inl (BadValue name v) | Some c' \<Rightarrow> parseArgs args' c'))))))"
  by pat_completeness auto
termination by (relation "measure (\<lambda>(args, c). length args)") auto

definition parseFlags :: "string list \<Rightarrow> flag_error + cliConfig" where
  "parseFlags args = parseArgs args flagDefaults"

section \<open>Validation and wiring\<close>

definition cbThresholdMax :: int where "cbThresholdMax = 2 ^ 32 - 1"

definition validateFlags :: "cliConfig \<Rightarrow> string option" where
  "validateFlags c =
     (if c_CBThreshold c \<le> 0 \<or> c_CBThreshold c > cbThresholdMax then
        Some (''-cb-threshold must be between 1 and '' @ itoa cbThresholdMax @ '', got '' @ itoa (c_CBThreshold c))
      else if c_CBTimeout c \<le> 0 then
        Some (''-cb-timeout must be greater than 0, got '' @ showDuration (c_CBTimeout c))
      else None)"

datatype 'c token_source = Krb "'c Gokrb5TokenProvider" | GSS GSSTokenProvider

text \<open>The calls through the \<^verbatim>\<open>TokenProvider\<close> interface; a call to each provider has its own answers of the
  world.\<close>

definition sourceGetToken ::
    "(bytes \<Rightarrow> bytes \<Rightarrow> bytes) \<Rightarrow> 'c token_source \<Rightarrow> ('c, 't) krb_io \<times> (string \<Rightarrow> gss_result) \<times> string \<Rightarrow>
     (go_error + string) \<times> 'c token_source" where
  "sourceGetToken mac src io =
     (case src of
        Krb p \<Rightarrow> map_prod id Krb (krbToken mac p (fst io))
      | GSS g \<Rightarrow> map_prod id GSS (gssGetToken g (snd io)))"

definition sourceClose :: "'c token_source \<Rightarrow> 'c token_source" where
  "sourceClose src = (case src of Krb p \<Rightarrow> Krb (krbCloseT p) | GSS g \<Rightarrow> GSS (gssClose g))"

definition source_inv :: "'c token_source \<Rightarrow> bool" where
  "source_inv src = (case src of Krb p \<Rightarrow> krb_inv p | GSS g \<Rightarrow> True)"

interpretation source: token_provider "sourceGetToken mac" sourceClose source_inv for mac
proof unfold_locales
  fix src src' :: "'c token_source" and io :: "('c, 't) krb_io \<times> (string \<Rightarrow> gss_result) \<times> string" and t
  assume "source_inv src" "sourceGetToken mac src io = (Inr t, src')"
  then show "list_all b64_alphabet t"
    by (cases src)
      (auto simp: sourceGetToken_def source_inv_def map_prod_def
        dest: krb.token_b64 gss.token_b64 [OF TrueI] split: prod.splits)
next
  fix src :: "'c token_source" and io :: "('c, 't) krb_io \<times> (string \<Rightarrow> gss_result) \<times> string"
  assume "source_inv src"
  then show "source_inv (snd (sourceGetToken mac src io))"
    using krb.invar_get [of _ mac "fst io"] by (cases src) (auto simp: sourceGetToken_def source_inv_def)
next
  fix src :: "'c token_source"
  assume "source_inv src"
  then show "source_inv (sourceClose src)"
    by (cases src) (auto simp: sourceClose_def source_inv_def intro: krb.invar_close)
qed

text \<open>What the start of the program finds on the system. \<open>sys_key\<close> is the fingerprint key read from
  \<^verbatim>\<open>crypto/rand\<close>, \<open>sys_rand\<close> its reads in \<^verbatim>\<open>randomHex\<close>, which exits with status 1 when one fails.\<close>

record system =
  sys_platform :: platform
  sys_os :: osEnv
  sys_loadConfig :: "string \<Rightarrow> go_error option"
  sys_key :: bytes
  sys_rand :: "nat \<Rightarrow> bytes option"
  sys_readFile :: "string \<Rightarrow> go_error + bytes"
  sys_pem :: "bytes \<Rightarrow> bool"
  sys_getenv :: "string \<Rightarrow> string"
  sys_lower :: "string \<Rightarrow> string"
  sys_listen :: "string \<Rightarrow> go_error option"

definition buildProvider ::
    "system \<Rightarrow> (breaker_settings \<Rightarrow> 'b) \<Rightarrow> cliConfig \<Rightarrow> go_error + ('b, 'c token_source) CircuitBreakerTokenProvider" where
  "buildProvider sys new c =
     (case (if c_User c \<noteq> [] then
              map_sum id Krb (NewGokrb5TokenProvider (sys_os sys) (sys_loadConfig sys)
                (sys_key sys) (c_User c) (c_Realm c) (c_CfgFile c)
                (c_PasswordFile c) (c_Proxy c) (c_SPN c))
            else map_sum id GSS (NewNativeTokenProvider (sys_platform sys) (c_Proxy c) (c_SPN c))) of
        Inl err \<Rightarrow> Inl err
      | Inr provider \<Rightarrow> Inr (NewCircuitBreakerTokenProvider new provider (word_of_int (c_CBThreshold c)) (c_CBTimeout c)))"

text \<open>A failure logs and exits with status 1; \<open>Inl\<close> carries the log message.\<close>

definition buildConfig :: "system \<Rightarrow> cliConfig \<Rightarrow> string \<Rightarrow> string + Config" where
  "buildConfig sys c pseudonym =
     (case ParseAllowList (c_AllowedIPs c) of
        Inl _ \<Rightarrow> Inl ''invalid -allowed-ips''
      | Inr allowList \<Rightarrow>
          let patterns = ResolveNoProxy (sys_getenv sys) (c_NoProxy c);
              noProxy = (if patterns \<noteq> [] then Some (NewNoProxyMatcher (sys_lower sys) patterns) else None)
          in (case BuildTLSConfig (sys_readFile sys) (sys_pem sys)
                \<lparr>Enabled = c_UpstreamTLS c, CAFile = c_UpstreamCA c, InsecureSkipVerify = c_UpstreamTLSInsecure c,
                 TLSConfig = None, Dialer = Some \<lparr>nd_Timeout = c_DialTimeout c, nd_Deadline = None\<rparr>\<rparr> of
                Inl _ \<Rightarrow> Inl ''failed to build upstream TLS config''
              | Inr tls \<Rightarrow>
                  Inr \<lparr>cfg_Upstream = c_Proxy c, cfg_Pseudonym = pseudonym, cfg_DialTimeout = c_DialTimeout c,
                       cfg_ReadTimeout = c_ReadTimeout c, cfg_KeepAlive = c_KeepAlive c,
                       cfg_IdleTimeout = c_IdleTimeout c, cfg_ConnectPorts = SplitCSV (c_ConnectPorts c),
                       cfg_AllowedIPs = allowList, cfg_NoProxy = noProxy,
                       cfg_Forwarding = \<lparr>ForwardedEnabled = c_Forwarded c, XForwardedForEnabled = c_XForwardedFor c\<rparr>,
                       cfg_UpstreamTLS = tls\<rparr>))"

definition versionString :: "string \<Rightarrow> string \<Rightarrow> string" where
  "versionString version commit =
     (if version = [] then ''spnego-proxy version (devel)''
      else if commit = [] then ''spnego-proxy version '' @ version
      else ''spnego-proxy version '' @ version @ '' (commit '' @ (if length commit > 7 then take 7 commit else commit) @ '')'')"

text \<open>How the program ends or what it serves: the configuration, the provider it closes afterwards, the
  connection limit (\<open>None\<close> without one) and the drain timeout.\<close>

datatype ('b, 'c) outcome =
    Exit int
  | PrintVersion string
  | Served Config "('b, 'c token_source) CircuitBreakerTokenProvider" "int option" int

definition main ::
    "system \<Rightarrow> (breaker_settings \<Rightarrow> 'b) \<Rightarrow> string \<Rightarrow> string \<Rightarrow> string list \<Rightarrow> ('b, 'c) outcome" where
  "main sys new version commit args =
     (case parseFlags args of
        Inl err \<Rightarrow> Exit (if err = ErrHelp then 0 else 2)
      | Inr c \<Rightarrow>
          if c_ShowVersion c then PrintVersion (versionString version commit)
          else if c_Addr c = [] \<or> c_Proxy c = [] then Exit 1
          else if validateFlags c \<noteq> None then Exit 1
          else (case buildProvider sys new c of
                  Inl err \<Rightarrow> Exit 1
                | Inr provider \<Rightarrow>
                    (case sys_listen sys (c_Addr c) of
                       Some err \<Rightarrow> Exit 1
                     | None \<Rightarrow>
                         (case GenerateViaPseudonym (sys_rand sys) of
                            None \<Rightarrow> Exit 1
                          | Some pseudonym \<Rightarrow>
                              (case buildConfig sys c pseudonym of
                                 Inl msg \<Rightarrow> Exit 1
                               | Inr cfg \<Rightarrow>
                                   Served cfg provider (if c_MaxConns c > 0 then Some (c_MaxConns c) else None)
                                     (c_DrainTimeout c))))))"

section \<open>Properties of the flag grammar\<close>

lemma flagTable_names:
  assumes "map_of flagTable name = Some f"
  shows "name \<noteq> []" "hd name \<noteq> CHR ''-''" "CHR ''='' \<notin> set name"
proof -
  have "list_all (\<lambda>n. n \<noteq> [] \<and> hd n \<noteq> CHR ''-'' \<and> CHR ''='' \<notin> set n) (map fst flagTable)"
    by (simp add: flagTable_def)
  moreover have "name \<in> set (map fst flagTable)" using map_of_SomeD [OF assms] by force
  ultimately show "name \<noteq> []" "hd name \<noteq> CHR ''-''" "CHR ''='' \<notin> set name" by (auto simp: list_all_iff)
qed

lemma splitFlag_plain: "CHR ''='' \<notin> set name \<Longrightarrow> splitFlag name = (name, None)"
  using index_byte_None [of "CHR ''=''" "tl name"] by (cases name) (simp_all add: splitFlag_def)

lemma splitFlag_value:
  assumes "CHR ''='' \<notin> set name" "name \<noteq> []"
  shows "splitFlag (name @ CHR ''='' # v) = (name, Some v)"
proof -
  from assms obtain n ns where n: "name = n # ns" by (cases name) auto
  with assms have "index_byte CHR ''='' (ns @ CHR ''='' # v) = Some (length ns)" by (simp add: index_byte_append)
  with n show ?thesis by (simp add: splitFlag_def)
qed

lemma flagText_dash:
  assumes "name \<noteq> []" "hd name \<noteq> CHR ''-''"
  shows "flagText (CHR ''-'' # name @ rest) = Some (name @ rest)"
    "flagText (CHR ''-'' # CHR ''-'' # name @ rest) = Some (name @ rest)"
proof -
  from assms obtain n ns where n: "name = n # ns" "n \<noteq> CHR ''-''" by (cases name) auto
  then show "flagText (CHR ''-'' # name @ rest) = Some (name @ rest)"
    "flagText (CHR ''-'' # CHR ''-'' # name @ rest) = Some (name @ rest)"
    by (simp_all add: flagText_def)
qed

lemma parseArgs_value:
  assumes "map_of flagTable name = Some f" "\<not> isBoolFlag f" "flagText s = Some (name @ CHR ''='' # v)"
  shows "parseArgs (s # rest) c =
    (case setFlag f v c of None \<Rightarrow> Inl (BadValue name v) | Some c' \<Rightarrow> parseArgs rest c')"
proof -
  note name = flagTable_names [OF assms(1)]
  have "hd (name @ CHR ''='' # v) \<noteq> CHR ''=''" "hd (name @ CHR ''='' # v) \<noteq> CHR ''-''"
    using name by (cases name; auto)+
  with assms splitFlag_value [OF name(3,1), of v] show ?thesis by simp
qed

lemma parseArgs_separate:
  assumes "map_of flagTable name = Some f" "\<not> isBoolFlag f" "flagText s = Some name"
  shows "parseArgs (s # v # rest) c =
    (case setFlag f v c of None \<Rightarrow> Inl (BadValue name v) | Some c' \<Rightarrow> parseArgs rest c')"
proof -
  note name = flagTable_names [OF assms(1)]
  have "hd name \<noteq> CHR ''=''" using name by (cases name) auto
  with assms name splitFlag_plain [OF name(3)] show ?thesis by simp
qed

text \<open>A flag means the same in every spelling. For every flag that takes a value, the four forms
  with one or two dashes and with the value after an equals sign or as the next argument are parsed
  alike, whatever the value (an empty one, or one that starts with a dash or holds an equals sign,
  included) and whatever follows.\<close>

lemma flag_spellings:
  assumes "map_of flagTable name = Some f" "\<not> isBoolFlag f"
  shows "parseArgs ((''-'' @ name) # v # rest) c = parseArgs ((''-'' @ name @ ''='' @ v) # rest) c \<and>
    parseArgs ((''--'' @ name) # v # rest) c = parseArgs ((''-'' @ name @ ''='' @ v) # rest) c \<and>
    parseArgs ((''--'' @ name @ ''='' @ v) # rest) c = parseArgs ((''-'' @ name @ ''='' @ v) # rest) c"
proof -
  note name = flagTable_names [OF assms(1)]
  note plain = flagText_dash [OF name(1,2), of "[]", unfolded append_Nil2]
  note val = flagText_dash [OF name(1,2), of "CHR ''='' # v"]
  from parseArgs_value [OF assms val(1)] parseArgs_value [OF assms val(2)]
    parseArgs_separate [OF assms plain(1)] parseArgs_separate [OF assms plain(2)]
  show ?thesis by (simp del: parseArgs.simps)
qed



section \<open>A started proxy\<close>

lemma main_Served:
  assumes "main sys new version commit args = Served cfg provider lim drain"
  obtains c pseudonym where "parseFlags args = Inr c" "\<not> c_ShowVersion c" "c_Addr c \<noteq> []" "c_Proxy c \<noteq> []"
    "validateFlags c = None" "buildProvider sys new c = Inr provider"
    "sys_listen sys (c_Addr c) = None" "GenerateViaPseudonym (sys_rand sys) = Some pseudonym"
    "buildConfig sys c pseudonym = Inr cfg" "lim = (if c_MaxConns c > 0 then Some (c_MaxConns c) else None)"
    "drain = c_DrainTimeout c"
  using assms by (auto simp: main_def split: sum.splits if_splits option.splits)

lemma pseudonym_nonempty: "GenerateViaPseudonym rd = Some p \<Longrightarrow> p \<noteq> []"
  by (auto simp: GenerateViaPseudonym_def)

lemma buildConfig_Inr:
  assumes "buildConfig sys c pseudonym = Inr cfg"
  shows "ParseAllowList (c_AllowedIPs c) = Inr (cfg_AllowedIPs cfg)" "cfg_Pseudonym cfg = pseudonym"
    "cfg_Upstream cfg = c_Proxy c" "cfg_ConnectPorts cfg = SplitCSV (c_ConnectPorts c)"
    "BuildTLSConfig (sys_readFile sys) (sys_pem sys)
       \<lparr>Enabled = c_UpstreamTLS c, CAFile = c_UpstreamCA c, InsecureSkipVerify = c_UpstreamTLSInsecure c,
        TLSConfig = None, Dialer = Some \<lparr>nd_Timeout = c_DialTimeout c, nd_Deadline = None\<rparr>\<rparr> = Inr (cfg_UpstreamTLS cfg)"
  using assms by (auto simp: buildConfig_def Let_def split: sum.splits)

text \<open>The conversion to 32 bits of a validated threshold is exact.\<close>

lemma validated_threshold:
  assumes "validateFlags c = None"
  shows "uint (word_of_int (c_CBThreshold c) :: 32 word) = c_CBThreshold c" "0 < c_CBThreshold c" "0 < c_CBTimeout c"
  using assms by (auto simp: validateFlags_def cbThresholdMax_def uint_word_of_int split: if_splits)

lemma buildProvider_Inr:
  assumes "buildProvider sys new c = Inr provider"
  shows "\<exists>inner. provider = NewCircuitBreakerTokenProvider new inner (word_of_int (c_CBThreshold c)) (c_CBTimeout c)"
  using assms by (auto simp: buildProvider_def split: sum.splits)

lemma buildProvider_inv: "buildProvider sys new c = Inr provider \<Longrightarrow> source_inv (cb_inner provider)"
  by (auto simp: buildProvider_def source_inv_def map_sum_def dest: krb_inv_new
      split: sum.splits if_splits token_source.splits)


end
