(* ===== verification/Tunnel_Clock.thy ===== *)
theory Tunnel_Clock
  imports Go_Prelude
begin

text \<open>
  The idle clock of a CONNECT tunnel, \<^verbatim>\<open>tunnelClock\<close> of src/internal/proxy/connect.go. Both halves of a
  tunnel, and the transport connections under them, share one clock and use it without a lock: \<^verbatim>\<open>touch\<close>
  is a compare-and-swap loop and \<^verbatim>\<open>quietFor\<close> a double-read loop. The model runs any number of
  goroutines over the shared word, one atomic operation per step, under an arbitrary schedule. The
  lemmas show that the recorded time only grows, that a finished \<^verbatim>\<open>touch\<close> is never lost, and that
  \<^verbatim>\<open>quietFor\<close> returns what an atomic look at clock and word would have returned at one moment during
  the call. Times are nanoseconds; \<^verbatim>\<open>time.Since\<close> reads the monotonic clock.
\<close>

section \<open>The clock and its operations\<close>

record tunnelClock =
  tc_timeout :: int
  tc_origin :: int
  tc_last :: int

definition newTunnelClock :: "int \<Rightarrow> int \<Rightarrow> tunnelClock" where
  "newTunnelClock timeout now = \<lparr>tc_timeout = timeout, tc_origin = now, tc_last = 0\<rparr>"

text \<open>Go's signed 64-bit arithmetic, and \<^verbatim>\<open>time.Since\<close>, which saturates.\<close>

definition wrap64 :: "int \<Rightarrow> int" where
  "wrap64 x = (x + 2 ^ 63) mod 2 ^ 64 - 2 ^ 63"

definition since :: "tunnelClock \<Rightarrow> int \<Rightarrow> int" where
  "since c now = max (- (2 ^ 63)) (min (2 ^ 63 - 1) (now - tc_origin c))"

text \<open>
  What a goroutine is about to do. \<open>TouchLoad now\<close> stands before the load of the loop of
  \<^verbatim>\<open>touchAt\<close>, \<open>TouchCAS now seen\<close> before its compare-and-swap; \<open>QuietLoad\<close>, \<open>QuietSince seen\<close> and
  \<open>QuietCheck seen elapsed\<close> before the three reads of \<^verbatim>\<open>quietForSince\<close>; \<open>Quiet q\<close> has returned \<open>q\<close>.
\<close>

datatype pc =
    Out
  | TouchLoad int
  | TouchCAS int int
  | QuietLoad
  | QuietSince int
  | QuietCheck int int
  | Quiet int

definition touchAt :: "tunnelClock \<Rightarrow> pc \<Rightarrow> pc \<times> tunnelClock" where
  "touchAt c p =
     (case p of
        TouchLoad now \<Rightarrow> (if now > tc_last c then TouchCAS now (tc_last c) else Out, c)
      | TouchCAS now seen \<Rightarrow>
          if tc_last c = seen then (Out, c\<lparr>tc_last := now\<rparr>) else (TouchLoad now, c)
      | _ \<Rightarrow> (p, c))"

definition quietForSince :: "int \<Rightarrow> tunnelClock \<Rightarrow> pc \<Rightarrow> pc" where
  "quietForSince now c p =
     (case p of
        QuietLoad \<Rightarrow> QuietSince (tc_last c)
      | QuietSince seen \<Rightarrow> QuietCheck seen (since c now)
      | QuietCheck seen elapsed \<Rightarrow>
          if tc_last c = seen then Quiet (wrap64 (elapsed - seen)) else QuietLoad
      | _ \<Rightarrow> p)"

text \<open>\<^verbatim>\<open>touch\<close> and \<^verbatim>\<open>quietFor\<close> enter these loops.\<close>

definition touch :: "int \<Rightarrow> tunnelClock \<Rightarrow> pc" where
  "touch now c = TouchLoad (since c now)"

definition quietFor :: pc where
  "quietFor = QuietLoad"

definition idle :: "tunnelClock \<Rightarrow> int \<Rightarrow> bool" where
  "idle c quiet \<longleftrightarrow> quiet \<ge> tc_timeout c"

definition remaining :: "tunnelClock \<Rightarrow> int \<Rightarrow> int" where
  "remaining c quiet = wrap64 (tc_timeout c - quiet)"

section \<open>Schedules\<close>

record clock_sys =
  sys_now :: int
  sys_clock :: tunnelClock
  sys_pc :: "nat \<Rightarrow> pc"

text \<open>The monotonic clock advances, a goroutine that is in no call starts one, or a goroutine takes
  one step of its call.\<close>

datatype action = Tick nat | CallTouch nat | CallQuiet nat | Step nat

fun returned :: "pc \<Rightarrow> bool" where
  "returned Out = True"
| "returned (Quiet _) = True"
| "returned _ = False"

definition begin_call :: "nat \<Rightarrow> pc \<Rightarrow> clock_sys \<Rightarrow> clock_sys" where
  "begin_call g p s = (if returned (sys_pc s g) then s\<lparr>sys_pc := (sys_pc s)(g := p)\<rparr> else s)"

definition step_pc :: "int \<Rightarrow> tunnelClock \<Rightarrow> pc \<Rightarrow> pc \<times> tunnelClock" where
  "step_pc now c p =
     (case p of
        TouchLoad _ \<Rightarrow> touchAt c p
      | TouchCAS _ _ \<Rightarrow> touchAt c p
      | _ \<Rightarrow> (quietForSince now c p, c))"

fun act :: "action \<Rightarrow> clock_sys \<Rightarrow> clock_sys" where
  "act (Tick d) s = s\<lparr>sys_now := sys_now s + int d\<rparr>"
| "act (CallTouch g) s = begin_call g (touch (sys_now s) (sys_clock s)) s"
| "act (CallQuiet g) s = begin_call g quietFor s"
| "act (Step g) s =
     (case step_pc (sys_now s) (sys_clock s) (sys_pc s g) of
        (p, c) \<Rightarrow> s\<lparr>sys_clock := c, sys_pc := (sys_pc s)(g := p)\<rparr>)"

definition start :: "int \<Rightarrow> int \<Rightarrow> clock_sys" where
  "start timeout now = \<lparr>sys_now = now, sys_clock = newTunnelClock timeout now, sys_pc = (\<lambda>_. Out)\<rparr>"

definition exec :: "clock_sys \<Rightarrow> action list \<Rightarrow> clock_sys" where
  "exec s as = foldl (\<lambda>s a. act a s) s as"

text \<open>The tunnel's age and the latest progress it has recorded.\<close>

abbreviation age :: "clock_sys \<Rightarrow> int" where
  "age s \<equiv> since (sys_clock s) (sys_now s)"

abbreviation progress :: "clock_sys \<Rightarrow> int" where
  "progress s \<equiv> tc_last (sys_clock s)"

section \<open>The invariant of the shared word\<close>

lemma exec_Nil [simp]: "exec s [] = s"
  by (simp add: exec_def)

lemma exec_Cons [simp]: "exec s (a # as) = exec (act a s) as"
  by (simp add: exec_def)

lemma exec_append [simp]: "exec s (as @ bs) = exec (exec s as) bs"
  by (simp add: exec_def)

lemma wrap64_sub [simp]: "0 \<le> l \<Longrightarrow> l \<le> e \<Longrightarrow> e < 9223372036854775808 \<Longrightarrow> wrap64 (e - l) = e - l"
  by (simp add: wrap64_def)

fun pc_inv :: "int \<Rightarrow> int \<Rightarrow> pc \<Rightarrow> bool" where
  "pc_inv a l (TouchLoad now) \<longleftrightarrow> 0 \<le> now \<and> now \<le> a"
| "pc_inv a l (TouchCAS now seen) \<longleftrightarrow> seen < now \<and> now \<le> a \<and> 0 \<le> seen \<and> seen \<le> l"
| "pc_inv a l (QuietSince seen) \<longleftrightarrow> 0 \<le> seen \<and> seen \<le> l"
| "pc_inv a l (QuietCheck seen e) \<longleftrightarrow> 0 \<le> seen \<and> seen \<le> l \<and> seen \<le> e \<and> e \<le> a"
| "pc_inv a l (Quiet q) \<longleftrightarrow> 0 \<le> q \<and> q \<le> a"
| "pc_inv a l p \<longleftrightarrow> True"

definition clock_inv :: "clock_sys \<Rightarrow> bool" where
  "clock_inv s \<longleftrightarrow> 0 \<le> progress s \<and> progress s \<le> age s \<and> age s < 2 ^ 63 \<and>
     tc_origin (sys_clock s) \<le> sys_now s \<and> (\<forall>g. pc_inv (age s) (progress s) (sys_pc s g))"

lemma pc_inv_mono: "pc_inv a l p \<Longrightarrow> a \<le> a' \<Longrightarrow> l \<le> l' \<Longrightarrow> pc_inv a' l' p"
  by (cases p) auto

lemma since_mono: "now \<le> now' \<Longrightarrow> since c now \<le> since c now'"
  by (auto simp: since_def)

lemma since_bounds [simp]: "since c now < 9223372036854775808" "tc_origin c \<le> now \<Longrightarrow> 0 \<le> since c now"
  by (auto simp: since_def)

lemma wrap64_age: "0 \<le> l \<Longrightarrow> l \<le> e \<Longrightarrow> e \<le> since c now \<Longrightarrow> wrap64 (e - l) = e - l"
  by (rule wrap64_sub) (auto intro: le_less_trans [OF _ since_bounds(1)])

lemma since_last [simp]: "since (c\<lparr>tc_last := l\<rparr>) now = since c now"
  by (simp add: since_def)

lemma act_inv:
  assumes "clock_inv s"
  shows "clock_inv (act a s) \<and> progress s \<le> progress (act a s) \<and>
    tc_timeout (sys_clock (act a s)) = tc_timeout (sys_clock s) \<and> age s \<le> age (act a s)"
proof (cases a)
  case (Tick d)
  have "age s \<le> age (act a s)" using Tick by (simp add: since_mono)
  with Tick assms show ?thesis
    by (auto simp: clock_inv_def intro: pc_inv_mono)
next
  case (CallTouch g)
  with assms show ?thesis
    by (auto simp: clock_inv_def begin_call_def touch_def)
next
  case (CallQuiet g)
  with assms show ?thesis
    by (auto simp: clock_inv_def begin_call_def quietFor_def)
next
  case (Step g)
  have g: "pc_inv (age s) (progress s) (sys_pc s g)" using assms by (simp add: clock_inv_def)
  show ?thesis
  proof (cases "\<exists>now. sys_pc s g = TouchCAS now (progress s)")
    case True
    then obtain now where now: "sys_pc s g = TouchCAS now (progress s)" ..
    with g have "progress s < now" "now \<le> age s" by simp_all
    with assms now Step show ?thesis
      by (auto simp: clock_inv_def step_pc_def touchAt_def
          intro: pc_inv_mono)
  next
    case False
    then have "snd (step_pc (sys_now s) (sys_clock s) (sys_pc s g)) = sys_clock s"
      by (auto simp: step_pc_def touchAt_def split: pc.splits)
    moreover have "pc_inv (age s) (progress s) (fst (step_pc (sys_now s) (sys_clock s) (sys_pc s g)))"
    proof -
      have "0 \<le> progress s" "progress s \<le> age s" "age s < 9223372036854775808"
        using assms by (simp_all add: clock_inv_def)
      with g False show ?thesis
        by (cases "sys_pc s g")
          (auto simp: step_pc_def touchAt_def quietForSince_def wrap64_age [of _ _ "sys_clock s" "sys_now s"])
    qed
    ultimately show ?thesis using assms Step
      by (auto simp: clock_inv_def split: prod.split)
  qed
qed

lemma start_inv: "clock_inv (start timeout now)"
  by (simp add: clock_inv_def start_def newTunnelClock_def since_def)

lemma exec_inv:
  "clock_inv s \<Longrightarrow> clock_inv (exec s as) \<and> progress s \<le> progress (exec s as) \<and>
     tc_timeout (sys_clock (exec s as)) = tc_timeout (sys_clock s) \<and> age s \<le> age (exec s as)"
proof (induction as arbitrary: s)
  case (Cons a as)
  from Cons.IH [of "act a s"] act_inv [OF Cons.prems, of a] show ?case by (auto intro: order_trans)
qed simp

lemmas exec_clock_inv = exec_inv [THEN conjunct1]
  and exec_progress = exec_inv [THEN conjunct2, THEN conjunct1]
  and exec_timeout = exec_inv [THEN conjunct2, THEN conjunct2, THEN conjunct1]
  and exec_age = exec_inv [THEN conjunct2, THEN conjunct2, THEN conjunct2]

section \<open>One call in an arbitrary schedule\<close>

text \<open>The actions of other goroutines, and the steps of this one inside its call.\<close>

definition within_call :: "nat \<Rightarrow> action list \<Rightarrow> bool" where
  "within_call g as = list_all (\<lambda>a. a \<noteq> CallQuiet g \<and> a \<noteq> CallTouch g) as"

lemma within_call_snoc [simp]:
  "within_call g (as @ [a]) \<longleftrightarrow> within_call g as \<and> a \<noteq> CallQuiet g \<and> a \<noteq> CallTouch g"
  by (simp add: within_call_def)

lemma act_other:
  "a \<noteq> CallQuiet g \<Longrightarrow> a \<noteq> CallTouch g \<Longrightarrow> a \<noteq> Step g \<Longrightarrow> sys_pc (act a s) g = sys_pc s g"
  by (cases a) (auto simp: begin_call_def split: prod.split)

lemma act_step_pc: "sys_pc (act (Step g) s) g = fst (step_pc (sys_now s) (sys_clock s) (sys_pc s g))"
  by (simp split: prod.split)

lemma act_step_clock:
  "sys_clock (act (Step g) s) = snd (step_pc (sys_now s) (sys_clock s) (sys_pc s g))"
  "sys_now (act (Step g) s) = sys_now s"
  by (simp_all split: prod.split)

fun snapshot :: "clock_sys \<Rightarrow> action list \<Rightarrow> pc \<Rightarrow> bool" where
  "snapshot s as QuietLoad \<longleftrightarrow> True"
| "snapshot s as (QuietSince seen) \<longleftrightarrow> True"
| "snapshot s as (QuietCheck seen e) \<longleftrightarrow>
     (\<exists>k \<le> length as. e = age (exec s (take k as)) \<and> seen \<le> progress (exec s (take k as)))"
| "snapshot s as (Quiet q) \<longleftrightarrow>
     (\<exists>k \<le> length as. q = age (exec s (take k as)) - progress (exec s (take k as)))"
| "snapshot s as p \<longleftrightarrow> False"

lemma ex_prefix_extend:
  "(\<exists>k \<le> length as. P (take k as)) \<Longrightarrow> (\<exists>k \<le> length (as @ [a]). P (take k (as @ [a])))"
proof -
  assume "\<exists>k \<le> length as. P (take k as)"
  then obtain k where "k \<le> length as" "P (take k as)" by blast
  then show ?thesis by (intro exI [of _ k]) simp
qed

lemma snapshot_extend: "snapshot s as p \<Longrightarrow> snapshot s (as @ [a]) p"
proof (cases p)
  case (QuietCheck seen e)
  then show "snapshot s as p \<Longrightarrow> snapshot s (as @ [a]) p"
    by (simp only: snapshot.simps) (rule ex_prefix_extend)
next
  case (Quiet q)
  then show "snapshot s as p \<Longrightarrow> snapshot s (as @ [a]) p"
    by (simp only: snapshot.simps) (rule ex_prefix_extend)
qed simp_all

lemma snapshot_here: "e = age (exec s as) \<Longrightarrow> seen \<le> progress (exec s as) \<Longrightarrow> snapshot s (as @ [a]) (QuietCheck seen e)"
  by (auto intro!: exI [of _ "length as"])

lemma snapshot_answer:
  assumes inv: "clock_inv s" and check: "snapshot s as (QuietCheck (progress (exec s as)) e)"
  shows "snapshot s (as @ [a]) (Quiet (wrap64 (e - progress (exec s as))))"
proof -
  from check obtain k where k: "k \<le> length as" "e = age (exec s (take k as))"
    "progress (exec s as) \<le> progress (exec s (take k as))"
    by auto
  have mid: "clock_inv (exec s (take k as))" by (simp add: inv exec_clock_inv)
  from exec_progress [OF mid, of "drop k as"] have "progress (exec s (take k as)) \<le> progress (exec s as)"
    by (simp flip: exec_append)
  with k have eq: "progress (exec s (take k as)) = progress (exec s as)" by simp
  from mid eq k have "0 \<le> progress (exec s as)" "progress (exec s as) \<le> e"
    "e < 9223372036854775808"
    by (auto simp: clock_inv_def)
  then have "wrap64 (e - progress (exec s as)) = e - progress (exec s as)" by (rule wrap64_sub)
  with k eq show ?thesis
    by (auto intro!: exI [of _ k])
qed

lemma quiet_snapshot:
  assumes "clock_inv s" "sys_pc s g = QuietLoad" "within_call g as"
  shows "snapshot s as (sys_pc (exec s as) g)"
  using assms(3)
proof (induction as rule: rev_induct)
  case Nil
  then show ?case using assms by simp
next
  case (snoc a as)
  let ?s = "exec s as"
  from snoc have IH: "snapshot s as (sys_pc ?s g)" by simp
  have inv: "clock_inv ?s" by (simp add: assms exec_clock_inv)
  show ?case
  proof (cases "a = Step g")
    case False
    with snoc.prems IH show ?thesis by (simp add: act_other snapshot_extend)
  next
    case True
    have "pc_inv (age ?s) (progress ?s) (sys_pc ?s g)" using inv by (simp add: clock_inv_def)
    with IH True assms(1) show ?thesis
      by (cases "sys_pc ?s g")
        (auto simp: act_step_pc step_pc_def quietForSince_def simp del: act.simps snapshot.simps(3,4)
          intro: snapshot_here snapshot_answer snapshot_extend)
  qed
qed

text \<open>A call of \<^verbatim>\<open>touch\<close> returns only once the time it was called at is recorded.\<close>

lemma touch_recorded:
  assumes "clock_inv s" "sys_pc s g = TouchLoad now" "within_call g as"
  shows "case sys_pc (exec s as) g of
      TouchLoad n \<Rightarrow> n = now | TouchCAS n _ \<Rightarrow> n = now | Out \<Rightarrow> now \<le> progress (exec s as) | _ \<Rightarrow> False"
  using assms(3)
proof (induction as rule: rev_induct)
  case Nil
  then show ?case using assms by simp
next
  case (snoc a as)
  let ?s = "exec s as"
  have mono: "progress ?s \<le> progress (act a ?s)"
    using act_inv [OF exec_clock_inv [OF assms(1)]] by blast
  show ?case
  proof (cases "a = Step g")
    case False
    with snoc mono show ?thesis by (auto simp: act_other split: pc.splits)
  next
    case True
    with snoc show ?thesis
      by (cases "sys_pc ?s g") (auto simp: step_pc_def touchAt_def quietForSince_def)
  qed
qed

section \<open>Properties\<close>

lemma call_quiet_begins:
  assumes "clock_inv s" "returned (sys_pc s g)"
  shows "clock_inv (act (CallQuiet g) s)" "sys_pc (act (CallQuiet g) s) g = QuietLoad"
  using act_inv [OF assms(1), of "CallQuiet g"] assms(2) by (simp_all add: begin_call_def quietFor_def)

lemma quiet_answer:
  assumes "clock_inv s" "returned (sys_pc s g)" "within_call g ys"
    and "sys_pc (exec s (CallQuiet g # ys)) g = Quiet q"
  shows "\<exists>k \<le> length ys. q = age (exec s (CallQuiet g # take k ys)) - progress (exec s (CallQuiet g # take k ys))"
  using quiet_snapshot [OF call_quiet_begins [OF assms(1,2)] assms(3)] assms(4) by simp

text \<open>C11: The lock-free read of the idle clock is an atomic snapshot. Whatever the other goroutines of a
  tunnel do meanwhile, \<^verbatim>\<open>quietFor\<close> returns the age of the tunnel minus the latest recorded progress, both
  as they stood at one and the same moment between its call and its return; the result is never negative
  and the subtraction never wraps.\<close>

theorem quietFor_snapshot:
  assumes "returned (sys_pc (exec (start timeout now) xs) g)" and "within_call g ys"
    and "sys_pc (exec (start timeout now) (xs @ CallQuiet g # ys)) g = Quiet q"
  shows "0 \<le> q \<and> (\<exists>k \<le> length ys.
    q = age (exec (start timeout now) (xs @ CallQuiet g # take k ys)) -
        progress (exec (start timeout now) (xs @ CallQuiet g # take k ys)))"
proof -
  let ?s = "exec (start timeout now) xs"
  have inv: "clock_inv ?s" by (rule exec_clock_inv) (rule start_inv)
  have "clock_inv (exec (start timeout now) (xs @ CallQuiet g # ys))"
    by (rule exec_clock_inv) (rule start_inv)
  then have "pc_inv (age (exec (start timeout now) (xs @ CallQuiet g # ys)))
      (progress (exec (start timeout now) (xs @ CallQuiet g # ys))) (Quiet q)"
    using assms(3) by (metis clock_inv_def)
  then have "0 \<le> q" by simp
  with quiet_answer [OF inv assms(1,2)] assms(3) show ?thesis by simp
qed

theorem quietFor_snapshot_witness:
  "0 \<le> (3::int) \<and> (\<exists>k \<le> length [Step 0, Tick 2, CallTouch 1, Step 0, Step 0, Step 1].
    3 = age (exec (start 10 100) ([CallTouch 1, Tick 1] @ CallQuiet 0 #
          take k [Step 0, Tick 2, CallTouch 1, Step 0, Step 0, Step 1])) -
        progress (exec (start 10 100) ([CallTouch 1, Tick 1] @ CallQuiet 0 #
          take k [Step 0, Tick 2, CallTouch 1, Step 0, Step 0, Step 1])))"
  by (rule quietFor_snapshot)
    (code_simp+)

text \<open>A tunnel is declared idle only when it was. If a call of \<^verbatim>\<open>touch\<close> had returned before
  \<^verbatim>\<open>idle\<close> was called, and \<^verbatim>\<open>idle\<close> answers yes, then at least the whole timeout has passed since that
  \<^verbatim>\<open>touch\<close> began: progress of either direction, by whichever goroutine, is never lost to a concurrent
  update.\<close>

lemma idle_only_when_quiet:
  assumes "returned (sys_pc (exec (start timeout now) as) h)" and "within_call h bs"
    and "sys_pc (exec (start timeout now) (as @ CallTouch h # bs)) h = Out"
    and "returned (sys_pc (exec (start timeout now) (as @ CallTouch h # bs @ xs)) g)" and "within_call g ys"
    and "sys_pc (exec (start timeout now) (as @ CallTouch h # bs @ xs @ CallQuiet g # ys)) g = Quiet q"
    and "idle (newTunnelClock timeout now) q"
  shows "age (exec (start timeout now) (as @ CallTouch h # bs @ xs @ CallQuiet g # ys)) -
    age (exec (start timeout now) as) \<ge> timeout"
proof -
  let ?a = "exec (start timeout now) as"
  let ?b = "act (CallTouch h) ?a"
  let ?c = "exec ?b (bs @ xs)"
  have inv: "clock_inv ?a" by (rule exec_clock_inv) (rule start_inv)
  then have binv: "clock_inv ?b" using act_inv by blast
  have "sys_pc ?b h = TouchLoad (age ?a)" using assms(1) by (simp add: begin_call_def touch_def)
  from touch_recorded [OF binv this assms(2)] assms(3) have "age ?a \<le> progress (exec ?b bs)" by simp
  moreover have "progress (exec ?b bs) \<le> progress (exec ?c zs)" for zs
    using exec_progress [OF exec_clock_inv [OF binv], of bs "xs @ zs"] by simp
  ultimately have rec: "age ?a \<le> progress (exec ?c zs)" for zs by (rule order_trans)
  have cinv: "clock_inv ?c" using binv by (rule exec_clock_inv)
  from quiet_answer [OF cinv, of g ys q] assms(4-6) obtain k where
    k: "q = age (exec ?c (CallQuiet g # take k ys)) - progress (exec ?c (CallQuiet g # take k ys))"
    by auto
  have "age (exec ?c (CallQuiet g # take k ys)) \<le> age (exec ?c (CallQuiet g # ys))"
    using exec_age [OF exec_clock_inv [OF cinv], of "CallQuiet g # take k ys" "drop k ys"]
    by (simp flip: exec_append)
  with k rec [of "CallQuiet g # take k ys"] assms(7) show ?thesis
    by (simp add: idle_def newTunnelClock_def)
qed

lemma idle_only_when_quiet_witness:
  "age (exec (start 5 100) ([Tick 2] @ CallTouch 1 # [Step 1, Step 1] @ [Tick 5] @ CallQuiet 0 # [Step 0, Step 0, Step 0])) -
    age (exec (start 5 100) [Tick 2]) \<ge> 5"
  by (rule idle_only_when_quiet [of _ _ _ _ _ _ _ _ 5])
    (code_simp+)

text \<open>How many steps a goroutine needs to return when nobody interferes.\<close>

fun steps_left :: "tunnelClock \<Rightarrow> pc \<Rightarrow> nat" where
  "steps_left c (TouchLoad _) = 2"
| "steps_left c (TouchCAS _ seen) = (if tc_last c = seen then 1 else 3)"
| "steps_left c QuietLoad = 3"
| "steps_left c (QuietSince seen) = (if tc_last c = seen then 2 else 5)"
| "steps_left c (QuietCheck seen _) = (if tc_last c = seen then 1 else 4)"
| "steps_left c p = 0"

lemma steps_left_step:
  "steps_left (snd (step_pc now c p)) (fst (step_pc now c p)) \<le> steps_left c p - 1"
  by (cases p) (auto simp: step_pc_def touchAt_def quietForSince_def)

lemma steps_left_alone:
  "steps_left (sys_clock s) (sys_pc s g) \<le> n \<Longrightarrow> returned (sys_pc (exec s (replicate n (Step g))) g)"
proof (induction n arbitrary: s)
  case 0
  then show ?case by (cases "sys_pc s g") (auto split: if_splits)
next
  case (Suc n)
  have "steps_left (sys_clock (act (Step g) s)) (sys_pc (act (Step g) s) g) \<le> n"
    using steps_left_step [of "sys_now s" "sys_clock s" "sys_pc s g"] Suc.prems
    unfolding act_step_pc act_step_clock by linarith
  with Suc.IH show ?case by (simp del: act.simps)
qed

text \<open>The lock-free loops end when left alone. From every state a schedule can reach, a goroutine
  inside \<^verbatim>\<open>touch\<close> or \<^verbatim>\<open>quietFor\<close> that then takes five steps without interference has returned: at most
  one stale read is repeated.\<close>

lemma clock_calls_return:
  "returned (sys_pc (exec (start timeout now) (xs @ replicate 5 (Step g))) g)"
proof -
  have "steps_left c p \<le> 5" for c p by (cases p) auto
  then show ?thesis by (simp add: steps_left_alone)
qed

end
