(* ===== verification/Tunnel_IO.thy ===== *)
theory Tunnel_IO
  imports Tunnel_Clock Proxy_Errors
begin

text \<open>
  Moving bytes through a CONNECT tunnel: the connection wrapper \<^verbatim>\<open>tunnelConn\<close> of
  src/internal/proxy/tunnel_write.go, its transport writes (tunnel_write_unix.go and
  tunnel_write_other.go), and the copy loop, half-close and teardown of src/internal/proxy/connect.go.
  What the operating system, the peers and the clock answer is a script, one entry per attempt; a loop
  that has used up its script is still running. The theorems show that a tunnel delivers a prefix of
  what was read, all of it on a normal end, that the retry loops end, that an idle end is reported only
  when the clock was idle, and that the two halves close what they must and nothing else.
\<close>

section \<open>Results\<close>

text \<open>A call is still running, has panicked, or has returned \<open>n, err\<close>.\<close>

datatype io_result = Running | Panic | Ret nat "go_error option"

fun progressed :: "nat \<Rightarrow> io_result \<Rightarrow> io_result" where
  "progressed k (Ret n e) = Ret (k + n) e"
| "progressed k r = r"

lemma progressed_0 [simp]: "progressed 0 r = r"
  by (cases r) simp_all

lemma progressed_Ret [simp]:
  "progressed k r = Ret n e \<longleftrightarrow> (\<exists>m. r = Ret m e \<and> n = k + m)"
  "progressed k r = Panic \<longleftrightarrow> r = Panic" "progressed k r = Running \<longleftrightarrow> r = Running"
  by (cases r; auto)+

section \<open>Transport writes\<close>

text \<open>One round of \<^verbatim>\<open>writeTunnelBuffered\<close>: the time when the probe deadline is computed, the result of
  arming it, the result of the write, and the time read after a write that timed out.\<close>

record write_try =
  wt_now :: int
  wt_arm :: "go_error option"
  wt_n :: nat
  wt_err :: "go_error option"
  wt_after :: int

definition timed_out :: "go_error option \<Rightarrow> bool" where
  "timed_out err = (case err of None \<Rightarrow> False | Some e \<Rightarrow> isTimeoutError e)"

definition probe :: "int \<Rightarrow> int \<Rightarrow> int \<Rightarrow> int" where
  "probe deadline timeout now =
     (if deadline < now + timeout div 4 then deadline else now + timeout div 4)"

fun bufferedLoop :: "int \<Rightarrow> write_try list \<Rightarrow> io_result" where
  "bufferedLoop deadline [] = Running"
| "bufferedLoop deadline (t # ts) =
     (case wt_arm t of
        Some e \<Rightarrow> Ret 0 (Some e)
      | None \<Rightarrow>
          if timed_out (wt_err t) then
            if wt_n t > 0 then Ret (wt_n t) None
            else if wt_after t < deadline then bufferedLoop deadline ts
            else Ret (wt_n t) (wt_err t)
          else Ret (wt_n t) (wt_err t))"

definition writeTunnelBuffered :: "int \<Rightarrow> int \<Rightarrow> write_try list \<Rightarrow> io_result" where
  "writeTunnelBuffered timeout now tries = bufferedLoop (now + timeout) tries"

text \<open>One call of \<^verbatim>\<open>write(2)\<close> inside \<^verbatim>\<open>RawConn.Write\<close>. After EAGAIN the runtime waits for the
  descriptor, which may fail, for instance at the write deadline.\<close>

datatype raw_call = Wrote nat | Interrupted | WouldBlock "go_error option" | WriteFailed go_error

fun rawWrite :: "raw_call list \<Rightarrow> io_result" where
  "rawWrite [] = Running"
| "rawWrite (Wrote n # cs) = Ret n None"
| "rawWrite (Interrupted # cs) = rawWrite cs"
| "rawWrite (WouldBlock None # cs) = rawWrite cs"
| "rawWrite (WouldBlock (Some e) # cs) = Ret 0 (Some e)"
| "rawWrite (WriteFailed e # cs) = Ret 0 (Some (Wrap (''write: '' @ error_text e) e))"

text \<open>A connection offers a raw descriptor or not; getting it, and preparing the write, may fail.\<close>

datatype chunk_io =
    NoDescriptor int "write_try list"
  | Descriptor "go_error option" "go_error option" "raw_call list"

fun writeTunnelChunk :: "int \<Rightarrow> chunk_io \<Rightarrow> io_result" where
  "writeTunnelChunk timeout (NoDescriptor now tries) = writeTunnelBuffered timeout now tries"
| "writeTunnelChunk timeout (Descriptor (Some e) _ _) = Ret 0 (Some e)"
| "writeTunnelChunk timeout (Descriptor None (Some e) _) = Ret 0 (Some e)"
| "writeTunnelChunk timeout (Descriptor None None calls) = rawWrite calls"

definition writeTunnelChunkOther :: "int \<Rightarrow> int \<Rightarrow> write_try list \<Rightarrow> io_result" where
  "writeTunnelChunkOther timeout now tries = writeTunnelBuffered timeout now tries"

section \<open>The tunnel connection\<close>

text \<open>What a wrapped connection answers: how a plain write ends, and for each round of the tracked
  write loop the result of arming the deadline and the transport write.\<close>

record conn_io =
  io_plain :: "nat \<times> go_error option"
  io_chunks :: "(go_error option \<times> chunk_io) list"

record tunnelConn =
  tn_clock :: "tunnelClock option"
  tn_writeClosed :: bool

text \<open>What a call does besides returning: arm a deadline that many nanoseconds ahead, clear the read
  deadline, hand bytes to the transport, record progress in the clock.\<close>

datatype tunnel_event = ArmWrite int | ArmRead int | ClearRead | Sent bytes | Touch

fun sent_bytes :: "tunnel_event \<Rightarrow> bytes" where
  "sent_bytes (Sent p) = p"
| "sent_bytes _ = []"

definition delivered :: "tunnel_event list \<Rightarrow> bytes" where
  "delivered evs = concat (map sent_bytes evs)"

fun writeLoop ::
    "int \<Rightarrow> bytes \<Rightarrow> (go_error option \<times> chunk_io) list \<Rightarrow> io_result \<times> tunnel_event list" where
  "writeLoop timeout [] cs = (Ret 0 None, [])"
| "writeLoop timeout p [] = (Running, [])"
| "writeLoop timeout p ((Some e, io) # cs) = (Ret 0 (Some e), [])"
| "writeLoop timeout p ((None, io) # cs) =
     (case writeTunnelChunk timeout io of
        Running \<Rightarrow> (Running, [ArmWrite timeout])
      | Panic \<Rightarrow> (Panic, [ArmWrite timeout])
      | Ret n err \<Rightarrow>
          if n > length p then (Panic, [ArmWrite timeout])
          else
            let evs = ArmWrite timeout # (if n > 0 then [Sent (take n p), Touch] else [])
            in if err \<noteq> None then (Ret n err, evs)
               else if n = 0 then (Ret 0 (Some (Sentinel ErrNoProgress)), evs)
               else (case writeLoop timeout (drop n p) cs of
                       (r, evs') \<Rightarrow> (progressed n r, evs @ evs')))"

definition plainWrite :: "bytes \<Rightarrow> nat \<times> go_error option \<Rightarrow> io_result \<times> tunnel_event list" where
  "plainWrite p io = (case io of (n, e) \<Rightarrow> (Ret n e, [Sent (take n p)]))"

definition connWrite :: "tunnelConn \<Rightarrow> conn_io \<Rightarrow> bytes \<Rightarrow> io_result \<times> tunnel_event list" where
  "connWrite c io p =
     (case tn_clock c of
        None \<Rightarrow> plainWrite p (io_plain io)
      | Some clock \<Rightarrow>
          if tc_timeout clock \<le> 0 \<or> tn_writeClosed c then plainWrite p (io_plain io)
          else writeLoop (tc_timeout clock) p (io_chunks io))"

text \<open>One round of a tracked read: how long the tunnel has been quiet, the result of arming the
  deadline, the read, and the quiet time looked at after a read that timed out.\<close>

record read_try =
  rt_quiet :: int
  rt_arm :: "go_error option"
  rt_data :: bytes
  rt_err :: "go_error option"
  rt_quiet_after :: int

fun readLoop :: "tunnelClock \<Rightarrow> read_try list \<Rightarrow> (bytes \<times> go_error option) option \<times> tunnel_event list" where
  "readLoop clock [] = (None, [])"
| "readLoop clock (t # ts) =
     (if remaining clock (rt_quiet t) \<le> 0 then (Some ([], Some (Sentinel ErrTunnelIdle)), [])
      else case rt_arm t of
        Some e \<Rightarrow> (Some ([], Some e), [])
      | None \<Rightarrow>
          let evs = ArmRead (remaining clock (rt_quiet t)) # (if rt_data t \<noteq> [] then [Touch] else [])
          in if timed_out (rt_err t) \<and> \<not> idle clock (rt_quiet_after t) then
               if rt_data t \<noteq> [] then (Some (rt_data t, None), evs)
               else (case readLoop clock ts of (r, evs') \<Rightarrow> (r, evs @ evs'))
             else (Some (rt_data t, rt_err t), evs))"

definition connRead ::
    "tunnelConn \<Rightarrow> bytes \<times> go_error option \<Rightarrow> read_try list \<Rightarrow>
       (bytes \<times> go_error option) option \<times> tunnel_event list" where
  "connRead c plain tries =
     (case tn_clock c of
        None \<Rightarrow> (Some plain, [])
      | Some clock \<Rightarrow> if tc_timeout clock \<le> 0 then (Some plain, []) else readLoop clock tries)"

section \<open>The copy loop\<close>

text \<open>One round of \<^verbatim>\<open>idleCopy\<close>: the quiet time before the read, the read, what the destination's
  write meets (\<open>'w\<close>), and the quiet time after a read that timed out.\<close>

record 'w copy_round =
  cr_quiet :: int
  cr_data :: bytes
  cr_err :: "go_error option"
  cr_write :: 'w
  cr_quiet_after :: int

text \<open>\<open>wr w p\<close> is the destination's write of \<open>p\<close>; an empty read writes nothing.\<close>

definition relayed ::
    "('w \<Rightarrow> bytes \<Rightarrow> io_result \<times> tunnel_event list) \<Rightarrow> 'w copy_round \<Rightarrow> io_result \<times> tunnel_event list" where
  "relayed wr r = (if cr_data r \<noteq> [] then wr (cr_write r) (cr_data r) else (Ret 0 None, []))"

fun copyLoop ::
    "tunnelClock \<Rightarrow> ('w \<Rightarrow> bytes \<Rightarrow> io_result \<times> tunnel_event list) \<Rightarrow> 'w copy_round list \<Rightarrow>
       io_result \<times> tunnel_event list" where
  "copyLoop clock wr [] = (Running, [])"
| "copyLoop clock wr (r # rs) =
     (if remaining clock (cr_quiet r) \<le> 0 then (Ret 0 (Some (Sentinel ErrTunnelIdle)), [])
      else
        let evs = ArmRead (remaining clock (cr_quiet r)) # (if cr_data r \<noteq> [] then [Touch] else []) @
              snd (relayed wr r)
        in case fst (relayed wr r) of
             Ret nw None \<Rightarrow>
               (case cr_err r of
                  None \<Rightarrow>
                    (case copyLoop clock wr rs of (res, evs') \<Rightarrow> (progressed nw res, evs @ evs'))
                | Some e \<Rightarrow>
                    if isTimeoutError e then
                      if \<not> idle clock (cr_quiet_after r) then
                        (case copyLoop clock wr rs of (res, evs') \<Rightarrow> (progressed nw res, evs @ ClearRead # evs'))
                      else (Ret nw (Some (Sentinel ErrTunnelIdle)), evs @ [ClearRead])
                    else if errors_is e EOF then (Ret nw None, evs @ [ClearRead])
                    else (Ret nw (Some e), evs @ [ClearRead]))
           | res \<Rightarrow> (res, evs))"

text \<open>\<^verbatim>\<open>io.Copy\<close>, used when the idle check is off: copy until end of file or an error, where a short
  write without an error is an error of its own.\<close>

fun ioCopy ::
    "('w \<Rightarrow> bytes \<Rightarrow> io_result \<times> tunnel_event list) \<Rightarrow> 'w copy_round list \<Rightarrow> io_result \<times> tunnel_event list" where
  "ioCopy wr [] = (Running, [])"
| "ioCopy wr (r # rs) =
     (let evs = snd (relayed wr r)
      in case fst (relayed wr r) of
           Ret nw None \<Rightarrow>
             if nw < length (cr_data r) then (Ret nw (Some (Plain ''short write'')), evs)
             else (case cr_err r of
                     None \<Rightarrow> (case ioCopy wr rs of (res, evs') \<Rightarrow> (progressed nw res, evs @ evs'))
                   | Some e \<Rightarrow> (Ret nw (if e = Sentinel EOF then None else Some e), evs))
         | res \<Rightarrow> (res, evs))"

definition idleCopy ::
    "('w \<Rightarrow> bytes \<Rightarrow> io_result \<times> tunnel_event list) \<Rightarrow> tunnelClock \<Rightarrow> 'w copy_round list \<Rightarrow>
       io_result \<times> tunnel_event list" where
  "idleCopy wr clock rounds =
     (if tc_timeout clock \<le> 0 then ioCopy wr rounds else copyLoop clock wr rounds)"

section \<open>Half-close and teardown\<close>

text \<open>A connection handed to \<^verbatim>\<open>forwardTunnel\<close>: a plain one, which supports half-close or not, or a TLS
  connection to the upstream over its transport. \<open>Tracked\<close> is a plain one wrapped in a \<^verbatim>\<open>tunnelConn\<close>; only
  \<^verbatim>\<open>trackTunnelActivity\<close> makes one.\<close>

datatype net_conn =
    PlainNet bool
  | Tracked bool tunnelConn
  | UpstreamTLS tunnelConn

definition trackTunnelActivity :: "net_conn \<Rightarrow> tunnelClock \<Rightarrow> net_conn" where
  "trackTunnelActivity conn clock =
     (if tc_timeout clock \<le> 0 then conn
      else case conn of
        UpstreamTLS transport \<Rightarrow> UpstreamTLS (transport\<lparr>tn_clock := Some clock\<rparr>)
      | PlainNet cw \<Rightarrow> Tracked cw \<lparr>tn_clock = Some clock, tn_writeClosed = False\<rparr>
      | Tracked cw c \<Rightarrow> Tracked cw \<lparr>tn_clock = Some clock, tn_writeClosed = False\<rparr>)"

datatype side = ClientSide | PeerSide

datatype close_event = HalfClose side | TransportClose side | CloseConn side

text \<open>Half-closing a connection whose own half-close, if it has one, ends with \<open>err\<close>. The TLS connection
  sends its close alert first and only then marks its write side closed.\<close>

definition tunnelConnCloseWrite :: "side \<Rightarrow> bool \<Rightarrow> go_error option \<Rightarrow> go_error option \<times> close_event list" where
  "tunnelConnCloseWrite sd cw err = (if cw then (err, [HalfClose sd]) else (None, []))"

definition upstreamTLSCloseWrite ::
    "side \<Rightarrow> tunnelConn \<Rightarrow> go_error option \<Rightarrow> go_error option \<times> close_event list \<times> tunnelConn" where
  "upstreamTLSCloseWrite sd transport err = (err, [HalfClose sd], transport\<lparr>tn_writeClosed := True\<rparr>)"

definition closeWrite :: "side \<Rightarrow> net_conn \<Rightarrow> go_error option \<Rightarrow> go_error option \<times> close_event list \<times> net_conn" where
  "closeWrite sd conn err =
     (case conn of
        PlainNet cw \<Rightarrow> if cw then (err, [HalfClose sd], conn) else (None, [], conn)
      | Tracked cw c \<Rightarrow> (case tunnelConnCloseWrite sd cw err of (e, evs) \<Rightarrow> (e, evs, conn))
      | UpstreamTLS transport \<Rightarrow>
          (case upstreamTLSCloseWrite sd transport err of (e, evs, t) \<Rightarrow> (e, evs, UpstreamTLS t)))"

definition upstreamTLSClose :: "side \<Rightarrow> tunnelConn \<Rightarrow> close_event list \<times> tunnelConn" where
  "upstreamTLSClose sd transport = ([CloseConn sd], transport\<lparr>tn_writeClosed := True\<rparr>)"

text \<open>One round of the closing loop: the transport of a TLS connection first, so that its close alert
  cannot block.\<close>

definition closeConn :: "side \<Rightarrow> net_conn \<Rightarrow> close_event list \<times> net_conn" where
  "closeConn sd conn =
     (case conn of
        UpstreamTLS transport \<Rightarrow>
          (case upstreamTLSClose sd transport of (evs, t) \<Rightarrow> (TransportClose sd # evs, UpstreamTLS t))
      | _ \<Rightarrow> ([CloseConn sd], conn))"

text \<open>How one half ended: the copy returned \<open>copy\<close>, a half-close of its destination would end with
  \<open>cw_err\<close>.\<close>

definition forwardHalf ::
    "side \<Rightarrow> net_conn \<Rightarrow> go_error option \<Rightarrow> go_error option \<Rightarrow> go_error option \<times> close_event list \<times> net_conn" where
  "forwardHalf dst conn copy cw_err =
     (if copy = None then closeWrite dst conn cw_err else (copy, [], conn))"

text \<open>The goroutine of one direction in \<^verbatim>\<open>forwardTunnel\<close>: forward, and on an error close both sides.\<close>

definition forward ::
    "side \<Rightarrow> net_conn \<Rightarrow> net_conn \<Rightarrow> net_conn \<Rightarrow> go_error option \<Rightarrow> go_error option \<Rightarrow> close_event list" where
  "forward dst dst_conn conn peerConn copy cw_err =
     (case forwardHalf dst dst_conn copy cw_err of
        (err, evs, _) \<Rightarrow>
          if err \<noteq> None then evs @ fst (closeConn ClientSide conn) @ fst (closeConn PeerSide peerConn) else evs)"

text \<open>Both goroutines run concurrently and \<^verbatim>\<open>forwardTunnel\<close> waits for both: it has returned once each
  direction's copy has, and what happened to the connections is an interleaving.\<close>

definition forwardTunnel ::
    "net_conn \<Rightarrow> net_conn \<Rightarrow> int \<Rightarrow> int \<Rightarrow> io_result \<Rightarrow> io_result \<Rightarrow> go_error option \<Rightarrow> go_error option \<Rightarrow>
       close_event list set" where
  "forwardTunnel conn peerConn idleTimeout now up down cw_peer cw_client =
     (let clock = newTunnelClock idleTimeout now;
          c = trackTunnelActivity conn clock;
          p = trackTunnelActivity peerConn clock
      in case (up, down) of
           (Ret _ e1, Ret _ e2) \<Rightarrow> shuffles (forward PeerSide p c p e1 cw_peer) (forward ClientSide c c p e2 cw_client)
         | _ \<Rightarrow> {})"

section \<open>The contract of a writer\<close>

lemma delivered_simps [simp]:
  "delivered [] = []" "delivered (ev # evs) = sent_bytes ev @ delivered evs"
  "delivered (evs @ evs') = delivered evs @ delivered evs'"
  by (simp_all add: delivered_def)

text \<open>What Go's \<^verbatim>\<open>io.Writer\<close> documents: a write accepts a prefix of the buffer, returns its length, and
  returns an error when that is not all of it.\<close>

locale io_writer =
  fixes wr :: "'w \<Rightarrow> bytes \<Rightarrow> io_result \<times> tunnel_event list"
    and ok :: "'w \<Rightarrow> bytes \<Rightarrow> bool"
  assumes write_counts:
      "ok w p \<Longrightarrow> fst (wr w p) = Ret n e \<Longrightarrow>
         n \<le> length p \<and> delivered (snd (wr w p)) = take n p \<and> (e = None \<longrightarrow> n = length p)"
    and write_prefix: "ok w p \<Longrightarrow> prefix (delivered (snd (wr w p))) p"
begin

abbreviation round_ok :: "'w copy_round \<Rightarrow> bool" where
  "round_ok r \<equiv> ok (cr_write r) (cr_data r)"

lemma relayed_counts:
  assumes "round_ok r" "fst (relayed wr r) = Ret n e"
  shows "n = length (delivered (snd (relayed wr r)))" "e = None \<Longrightarrow> delivered (snd (relayed wr r)) = cr_data r"
  using assms write_counts [of "cr_write r" "cr_data r" n e] by (auto simp: relayed_def split: if_splits)

lemma relayed_prefix: "round_ok r \<Longrightarrow> prefix (delivered (snd (relayed wr r))) (cr_data r)"
  using write_prefix by (simp add: relayed_def)

text \<open>What a copy loop owes: it delivers a prefix of what it read and counts it, and it ends without an
  error only after a round that saw the end of the input, with everything up to there delivered.\<close>

definition copied :: "'w copy_round list \<Rightarrow> io_result \<Rightarrow> bytes \<Rightarrow> bool" where
  "copied rs res bs \<longleftrightarrow>
     prefix bs (concat (map cr_data rs)) \<and>
     (\<forall>n e. res = Ret n e \<longrightarrow> n = length bs) \<and>
     (\<forall>n. res = Ret n None \<longrightarrow>
        (\<exists>xs r ys e. rs = xs @ r # ys \<and> cr_err r = Some e \<and> errors_is e EOF \<and>
           bs = concat (map cr_data (xs @ [r]))))"

lemma copied_more:
  assumes "copied rs res bs"
  shows "copied (r # rs) (progressed (length (cr_data r)) res) (cr_data r @ bs)"
proof -
  have "\<exists>xs r' ys e. r # rs = xs @ r' # ys \<and> cr_err r' = Some e \<and> errors_is e EOF \<and>
      cr_data r @ bs = concat (map cr_data (xs @ [r']))" if "res = Ret m None" for m
  proof -
    from assms(1) that obtain xs r' ys e where
      "rs = xs @ r' # ys" "cr_err r' = Some e" "errors_is e EOF" "bs = concat (map cr_data (xs @ [r']))"
      unfolding copied_def by blast
    then show ?thesis by (intro exI [of _ "r # xs"] exI [of _ r'] exI [of _ ys] exI [of _ e]) simp
  qed
  with assms show ?thesis by (auto simp: copied_def)
qed

lemma copied_more_empty: "cr_data r = [] \<Longrightarrow> copied rs res bs \<Longrightarrow> copied (r # rs) res bs"
  using copied_more [of rs res bs r] by simp

lemma copied_end:
  assumes "\<exists>e. cr_err r = Some e \<and> (err = None \<longrightarrow> errors_is e EOF)"
  shows "copied (r # rs) (Ret (length (cr_data r)) err) (cr_data r)"
  using assms by (force simp: copied_def)

lemma copied_nothing: "copied rs (Ret 0 (Some e)) []" "copied rs Running []" "copied rs Panic []"
  by (simp_all add: copied_def)

lemma copied_stop:
  assumes "round_ok r" "\<forall>n. fst (relayed wr r) \<noteq> Ret n None"
  shows "copied (r # rs) (fst (relayed wr r)) (delivered (snd (relayed wr r)))"
  using assms relayed_counts [OF assms(1)] relayed_prefix [OF assms(1)]
  by (auto simp: copied_def intro: prefix_order.trans)

lemma relayed_cases:
  assumes "round_ok r"
  obtains "fst (relayed wr r) = Ret (length (cr_data r)) None" "delivered (snd (relayed wr r)) = cr_data r"
  | "\<forall>n. fst (relayed wr r) \<noteq> Ret n None"
  using relayed_counts [OF assms] by metis

lemma copyLoop_copied:
  "list_all round_ok rs \<Longrightarrow> copied rs (fst (copyLoop clock wr rs)) (delivered (snd (copyLoop clock wr rs)))"
proof (induction rs)
  case (Cons r rs)
  then have ok: "round_ok r"
    and IH: "copied rs (fst (copyLoop clock wr rs)) (delivered (snd (copyLoop clock wr rs)))" by simp_all
  from ok show ?case
  proof (cases rule: relayed_cases)
    case 1
    have sofar: "copied (r # rs) (progressed (length (cr_data r)) (fst (copyLoop clock wr rs)))
        (cr_data r @ delivered (snd (copyLoop clock wr rs)))"
      using IH by (rule copied_more)
    show ?thesis
    proof (cases "cr_err r")
      case None
      with 1 sofar show ?thesis
        by (cases "cr_data r = []") (simp_all add: Let_def copied_nothing split_beta)
    next
      case (Some e)
      then have "copied (r # rs) (Ret (length (cr_data r)) err) (cr_data r)" if "err = None \<Longrightarrow> errors_is e EOF" for err
        using that by (auto intro: copied_end)
      with 1 sofar Some show ?thesis
        by (cases "cr_data r = []") (auto simp: Let_def copied_nothing split_beta)
    qed
  next
    case 2
    note stop = copied_stop [OF ok 2, of rs]
    show ?thesis
    proof (cases "fst (relayed wr r)")
      case (Ret n err)
      with 2 obtain e where "err = Some e" by auto
      with Ret stop show ?thesis by (simp add: Let_def copied_nothing)
    qed (use stop in \<open>simp_all add: Let_def copied_nothing\<close>)
  qed
qed (simp add: copied_nothing)

lemma ioCopy_copied:
  "list_all round_ok rs \<Longrightarrow> copied rs (fst (ioCopy wr rs)) (delivered (snd (ioCopy wr rs)))"
proof (induction rs)
  case (Cons r rs)
  then have ok: "round_ok r"
    and IH: "copied rs (fst (ioCopy wr rs)) (delivered (snd (ioCopy wr rs)))" by simp_all
  from ok show ?case
  proof (cases rule: relayed_cases)
    case 1
    have sofar: "copied (r # rs) (progressed (length (cr_data r)) (fst (ioCopy wr rs)))
        (cr_data r @ delivered (snd (ioCopy wr rs)))"
      using IH by (rule copied_more)
    show ?thesis
    proof (cases "cr_err r")
      case None
      with 1 sofar show ?thesis
        by (cases "cr_data r = []") (simp_all add: Let_def copied_nothing split_beta)
    next
      case (Some e)
      then have "copied (r # rs) (Ret (length (cr_data r)) err) (cr_data r)" if "err = None \<Longrightarrow> e = Sentinel EOF" for err
        using that by (auto intro: copied_end)
      with 1 sofar Some show ?thesis
        by (cases "cr_data r = []") (auto simp: Let_def copied_nothing split_beta)
    qed
  next
    case 2
    note stop = copied_stop [OF ok 2, of rs]
    show ?thesis
    proof (cases "fst (relayed wr r)")
      case (Ret n err)
      with 2 obtain e where "err = Some e" by auto
      with Ret stop show ?thesis by (simp add: Let_def copied_nothing)
    qed (use stop in \<open>simp_all add: Let_def copied_nothing\<close>)
  qed
qed (simp add: copied_nothing)

lemma idleCopy_copied:
  "list_all round_ok rs \<Longrightarrow> copied rs (fst (idleCopy wr clock rs)) (delivered (snd (idleCopy wr clock rs)))"
  by (simp add: idleCopy_def copyLoop_copied ioCopy_copied)

end

section \<open>The tracked connection is a writer\<close>

lemma writeLoop_counts:
  "fst (writeLoop timeout p cs) = Ret n e \<Longrightarrow>
     n \<le> length p \<and> delivered (snd (writeLoop timeout p cs)) = take n p \<and> (e = None \<longrightarrow> n = length p)"
proof (induction timeout p cs arbitrary: n rule: writeLoop.induct)
  case (4 timeout b bs io cs)
  show ?case
  proof (cases "writeTunnelChunk timeout io")
    case (Ret k err)
    show ?thesis
    proof (cases "k \<le> length (b # bs) \<and> err = None \<and> k \<noteq> 0")
      case True
      with Ret "4.prems" obtain m where
        m: "fst (writeLoop timeout (drop k (b # bs)) cs) = Ret m e" "n = k + m"
        by (auto simp: Let_def split_beta simp del: drop_Cons')
      from True Ret "4.IH" [OF Ret _ refl _ _ m(1)] m(2) show ?thesis
        by (auto simp: Let_def split_beta take_add simp del: drop_Cons' take_Cons')
    next
      case False
      with Ret "4.prems" show ?thesis by (auto simp: Let_def split: if_splits)
    qed
  qed (use "4.prems" in simp_all)
qed auto

lemma writeLoop_prefix: "prefix (delivered (snd (writeLoop timeout p cs))) p"
proof (induction timeout p cs rule: writeLoop.induct)
  case (4 timeout b bs io cs)
  show ?case
  proof (cases "writeTunnelChunk timeout io")
    case (Ret k err)
    show ?thesis
    proof (cases "k \<le> length (b # bs) \<and> err = None \<and> k \<noteq> 0")
      case True
      from True "4.IH" [OF Ret] have "prefix (delivered (snd (writeLoop timeout (drop k (b # bs)) cs))) (drop k (b # bs))"
        by simp
      then have "prefix (take k (b # bs) @ delivered (snd (writeLoop timeout (drop k (b # bs)) cs)))
          (take k (b # bs) @ drop k (b # bs))" by (simp only: same_prefix_prefix)
      with True Ret show ?thesis by (simp add: Let_def split_beta del: drop_Cons' take_Cons')
    next
      case False
      with Ret show ?thesis by (auto simp: Let_def take_is_prefix)
    qed
  qed simp_all
qed simp_all

definition plain_ok :: "conn_io \<Rightarrow> bytes \<Rightarrow> bool" where
  "plain_ok io p \<longleftrightarrow> fst (io_plain io) \<le> length p \<and>
     (snd (io_plain io) = None \<longrightarrow> fst (io_plain io) = length p)"

interpretation tunnel_writer: io_writer "connWrite c" plain_ok for c
proof
  fix io p n e
  assume "plain_ok io p" "fst (connWrite c io p) = Ret n e"
  then show "n \<le> length p \<and> delivered (snd (connWrite c io p)) = take n p \<and> (e = None \<longrightarrow> n = length p)"
    using writeLoop_counts [of _ p "io_chunks io" n e]
    by (auto simp: connWrite_def plainWrite_def plain_ok_def split: option.splits if_splits prod.splits)
next
  fix io p
  assume "plain_ok io p"
  then show "prefix (delivered (snd (connWrite c io p))) p"
    using writeLoop_prefix
    by (auto simp: connWrite_def plainWrite_def take_is_prefix split: option.splits prod.splits)
qed

section \<open>Properties\<close>

text \<open>C5: A tunnel direction delivers what it reads. With a tracked destination, the copy loop hands the
  transport a prefix of the bytes read, in order and without gaps or repetition, whatever writes are
  split, retried, time out or fail; the returned count is the number of bytes delivered; and it ends
  without an error only after a read that reported the end of the input, with every byte read up to
  there delivered. The plain connection below is assumed to keep the contract of \<^verbatim>\<open>io.Writer\<close>.\<close>

theorem idleCopy_faithful:
  assumes "list_all (\<lambda>r. plain_ok (cr_write r) (cr_data r)) rounds"
    and "idleCopy (connWrite c) clock rounds = (res, evs)"
  shows "prefix (delivered evs) (concat (map cr_data rounds)) \<and>
    (case res of
       Ret n err \<Rightarrow> n = length (delivered evs) \<and>
         (err \<noteq> None \<or>
          (\<exists>xs r ys e. rounds = xs @ r # ys \<and> cr_err r = Some e \<and> errors_is e EOF \<and>
             delivered evs = concat (map cr_data (xs @ [r]))))
     | _ \<Rightarrow> True)"
proof -
  from tunnel_writer.idleCopy_copied [OF assms(1), of c clock] assms(2)
  have "tunnel_writer.copied rounds res (delivered evs)" by simp
  then show ?thesis by (auto simp: tunnel_writer.copied_def split: io_result.split)
qed

definition sample_clock :: tunnelClock where
  "sample_clock = newTunnelClock 100 0"

definition sample_conn :: tunnelConn where
  "sample_conn = \<lparr>tn_clock = Some sample_clock, tn_writeClosed = False\<rparr>"

text \<open>A write split by a full socket buffer, then the end of the input.\<close>

definition sample_rounds :: "conn_io copy_round list" where
  "sample_rounds =
     [\<lparr>cr_quiet = 0, cr_data = ''hello'', cr_err = None,
       cr_write = \<lparr>io_plain = (5, None), io_chunks =
         [(None, Descriptor None None [Wrote 2]), (None, Descriptor None None [Interrupted, WouldBlock None, Wrote 3])]\<rparr>,
       cr_quiet_after = 0\<rparr>,
      \<lparr>cr_quiet = 90, cr_data = [], cr_err = Some (NetErr ''timeout'' True None),
       cr_write = \<lparr>io_plain = (0, None), io_chunks = []\<rparr>, cr_quiet_after = 5\<rparr>,
      \<lparr>cr_quiet = 7, cr_data = ''!'', cr_err = Some (Sentinel EOF),
       cr_write = \<lparr>io_plain = (1, None), io_chunks = [(None, Descriptor None None [Wrote 1])]\<rparr>, cr_quiet_after = 0\<rparr>]"

theorem idleCopy_faithful_witness:
  "\<exists>evs. idleCopy (connWrite sample_conn) sample_clock sample_rounds = (Ret 6 None, evs) \<and>
     prefix (delivered evs) ''hello!'' \<and> length (delivered evs) = 6"
proof -
  have ok: "list_all (\<lambda>r. plain_ok (cr_write r) (cr_data r)) sample_rounds" by code_simp
  have r: "fst (idleCopy (connWrite sample_conn) sample_clock sample_rounds) = Ret 6 None" by code_simp
  have d: "concat (map cr_data sample_rounds) = ''hello!''" by code_simp
  from idleCopy_faithful [OF ok prod.collapse [symmetric], of sample_conn sample_clock] show ?thesis
    unfolding r d io_result.case
    by (intro exI [of _ "snd (idleCopy (connWrite sample_conn) sample_clock sample_rounds)"])
      (auto simp: r prod_eq_iff)
qed

lemma copyLoop_returns:
  assumes "r \<in> set rounds" "remaining clock (cr_quiet r) \<le> 0"
    and "list_all (\<lambda>r. \<exists>n e. fst (relayed wr r) = Ret n e) rounds"
  shows "\<exists>n e. fst (copyLoop clock wr rounds) = Ret n e"
  using assms
proof (induction rounds)
  case (Cons x rounds)
  from Cons.prems(3) obtain n e where x: "fst (relayed wr x) = Ret n e" by auto
  have IH: "\<exists>n e. fst (copyLoop clock wr rounds) = Ret n e" if "\<not> remaining clock (cr_quiet x) \<le> 0"
    using Cons that by auto
  show ?case
  proof (cases "remaining clock (cr_quiet x) \<le> 0")
    case False
    from IH [OF this] obtain m f where m: "fst (copyLoop clock wr rounds) = Ret m f" by blast
    with False x show ?thesis
      by (cases e; cases "cr_err x") (auto simp: Let_def split_beta)
  qed simp
qed simp

text \<open>The copy loop ends. With the idle check on, once the rounds reach one that finds the clock
  quiet for the whole timeout, and every write on the way has returned, \<^verbatim>\<open>idleCopy\<close> has returned: it
  cannot be kept alive by reads that time out.\<close>

lemma idleCopy_returns:
  assumes "0 < tc_timeout clock" "tc_timeout clock < 2 ^ 63"
    and "r \<in> set rounds" "tc_timeout clock \<le> cr_quiet r" "cr_quiet r < 2 ^ 63"
    and "list_all (\<lambda>r. \<exists>n e. fst (connWrite c (cr_write r) (cr_data r)) = Ret n e) rounds"
  shows "\<exists>n e. fst (idleCopy (connWrite c) clock rounds) = Ret n e"
proof -
  have "remaining clock (cr_quiet r) = tc_timeout clock - cr_quiet r"
    using assms(1,2,4,5) by (simp add: remaining_def wrap64_def)
  with assms(4) have "remaining clock (cr_quiet r) \<le> 0" by simp
  from copyLoop_returns [OF assms(3) this] assms(1,6) show ?thesis
    by (auto simp: idleCopy_def relayed_def list_all_iff)
qed

lemma idleCopy_returns_witness:
  "\<exists>n e. fst (idleCopy (connWrite sample_conn) sample_clock
     (take 2 sample_rounds @ [(hd sample_rounds)\<lparr>cr_quiet := 100\<rparr>])) = Ret n e"
proof (rule idleCopy_returns)
  show "(hd sample_rounds)\<lparr>cr_quiet := 100\<rparr> \<in> set (take 2 sample_rounds @ [(hd sample_rounds)\<lparr>cr_quiet := 100\<rparr>])"
    by simp
  have "list_all (\<lambda>r. case fst (connWrite sample_conn (cr_write r) (cr_data r)) of Ret _ _ \<Rightarrow> True | _ \<Rightarrow> False)
      (take 2 sample_rounds @ [(hd sample_rounds)\<lparr>cr_quiet := 100\<rparr>])" by code_simp
  then show "list_all (\<lambda>r. \<exists>n e. fst (connWrite sample_conn (cr_write r) (cr_data r)) = Ret n e)
      (take 2 sample_rounds @ [(hd sample_rounds)\<lparr>cr_quiet := 100\<rparr>])"
    by (rule list.pred_mono_strong) (auto split: io_result.splits)
qed (simp_all add: sample_clock_def newTunnelClock_def sample_rounds_def)

section \<open>The buffered write\<close>

text \<open>Time runs forward over the rounds, and a write times out no earlier than the deadline armed for
  it: what \<^verbatim>\<open>net.Conn\<close> documents of \<^verbatim>\<open>SetWriteDeadline\<close>.\<close>

fun honest :: "int \<Rightarrow> int \<Rightarrow> int \<Rightarrow> write_try list \<Rightarrow> bool" where
  "honest deadline timeout t [] \<longleftrightarrow> True"
| "honest deadline timeout t (w # ws) \<longleftrightarrow>
     t \<le> wt_now w \<and> wt_now w \<le> wt_after w \<and>
     (timed_out (wt_err w) \<longrightarrow> probe deadline timeout (wt_now w) \<le> wt_after w) \<and>
     honest deadline timeout (wt_after w) ws"

lemma bufferedLoop_returns:
  assumes "honest deadline timeout t tries" "deadline \<le> t + int (Suc k) * (timeout div 4)" "Suc k \<le> length tries"
  shows "\<exists>n e. bufferedLoop deadline tries = Ret n e"
  using assms
proof (induction tries arbitrary: t k)
  case (Cons w ws)
  let ?retry = "wt_arm w = None \<and> timed_out (wt_err w) \<and> wt_n w = 0 \<and> wt_after w < deadline"
  show ?case
  proof (cases ?retry)
    case True
    with Cons.prems(1) have "wt_now w + timeout div 4 \<le> wt_after w" "t \<le> wt_now w"
      by (auto simp: probe_def split: if_splits)
    with Cons.prems(2) have "deadline \<le> wt_after w + int k * (timeout div 4)"
      by (simp add: algebra_simps)
    moreover from this True obtain k' where "k = Suc k'" by (cases k) auto
    ultimately show ?thesis using Cons.IH [of "wt_after w" k'] Cons.prems(1,3) True by auto
  next
    case False
    then show ?thesis by (auto split: option.split)
  qed
qed simp

lemma bufferedLoop_timeout:
  assumes "bufferedLoop deadline tries = Ret n e" "timed_out e"
  shows "n = 0 \<and> list_ex (\<lambda>t. deadline \<le> wt_after t \<or> wt_arm t = e) tries"
  using assms
proof (induction tries)
  case (Cons w ws)
  then show ?case
    by (cases "wt_arm w") (auto simp: timed_out_def split: if_splits)
qed simp

text \<open>The buffered transport write neither spins nor gives up early. On a connection that honours
  write deadlines and for a timeout of at least 12 nanoseconds, \<^verbatim>\<open>writeTunnelBuffered\<close> returns within
  five rounds, and when it reports a timeout, no byte was accepted and the whole timeout had passed (or
  the deadline could not even be armed). Partial progress is returned without an error.\<close>

lemma writeTunnelBuffered_returns:
  assumes "12 \<le> timeout" "honest (now + timeout) timeout now tries" "5 \<le> length tries"
  shows "\<exists>n e. writeTunnelBuffered timeout now tries = Ret n e \<and>
    (timed_out e \<longrightarrow> n = 0 \<and> list_ex (\<lambda>t. now + timeout \<le> wt_after t \<or> wt_arm t = e) tries)"
proof -
  have "now + timeout \<le> now + int (Suc 4) * (timeout div 4)" using assms(1) by simp
  from bufferedLoop_returns [OF assms(2) this] assms(3) obtain n e where
    "bufferedLoop (now + timeout) tries = Ret n e" by auto
  with bufferedLoop_timeout [OF this] show ?thesis by (auto simp: writeTunnelBuffered_def)
qed

definition sample_tries :: "write_try list" where
  "sample_tries = map (\<lambda>t. \<lparr>wt_now = t, wt_arm = None, wt_n = 0, wt_err = Some (NetErr ''timeout'' True None),
     wt_after = t + 5\<rparr>) [0, 5, 10, 15, 20]"

theorem writeTunnelBuffered_returns_witness:
  "\<exists>n e. writeTunnelBuffered 20 0 sample_tries = Ret n e \<and>
    (timed_out e \<longrightarrow> n = 0 \<and> list_ex (\<lambda>t. 0 + 20 \<le> wt_after t \<or> wt_arm t = e) sample_tries)"
  by (rule writeTunnelBuffered_returns) code_simp+

section \<open>Teardown\<close>

lemma closeWrite_events:
  "ev \<in> set (fst (snd (closeWrite sd conn err))) \<Longrightarrow> ev = HalfClose sd"
  "fst (closeWrite sd conn err) \<noteq> None \<Longrightarrow> err \<noteq> None"
  by (auto simp: closeWrite_def tunnelConnCloseWrite_def upstreamTLSCloseWrite_def split: net_conn.splits if_splits)

lemma closeConn_events:
  "CloseConn sd \<in> set (fst (closeConn sd conn))" "HalfClose s \<notin> set (fst (closeConn sd conn))"
  by (auto simp: closeConn_def upstreamTLSClose_def split: net_conn.splits)

lemma forward_events:
  "set (forward dst dc conn peer copy cw) =
     (if copy = None then set (fst (snd (closeWrite dst dc cw))) else {}) \<union>
     (if copy = None \<and> fst (closeWrite dst dc cw) = None then {}
      else set (fst (closeConn ClientSide conn)) \<union> set (fst (closeConn PeerSide peer)))"
  by (cases "closeWrite dst dc cw") (auto simp: forward_def forwardHalf_def)

lemma forward_half_close: "HalfClose s \<in> set (forward dst dc conn peer copy cw) \<Longrightarrow> s = dst \<and> copy = None"
  using closeWrite_events(1) [of "HalfClose s" dst dc cw]
  by (auto simp: forward_events closeConn_events split: if_splits)

lemma forward_failed: "copy \<noteq> None \<Longrightarrow> CloseConn sd \<in> set (forward dst dc conn peer copy cw)"
  by (cases sd) (auto simp: forward_events closeConn_events)

lemma forward_close: "CloseConn sd \<in> set (forward dst dc conn peer copy cw) \<Longrightarrow> copy \<noteq> None \<or> cw \<noteq> None"
  using closeWrite_events(1) [of "CloseConn sd" dst dc cw] closeWrite_events(2) [of dst dc cw]
  by (auto simp: forward_events split: if_splits)

text \<open>C30: How a tunnel ends. In every interleaving of the two directions: a side is half-closed only by
  the direction that writes to it, and only when that direction's copy ended normally; if either copy
  failed, both connections are closed; and a connection is closed only if some copy or half-close
  failed. A tunnel one of whose copies is still running has not returned.\<close>

theorem forwardTunnel_teardown:
  assumes "evs \<in> forwardTunnel conn peer timeout now up down cw_peer cw_client"
  shows "\<exists>n1 e1 n2 e2. up = Ret n1 e1 \<and> down = Ret n2 e2 \<and>
    (HalfClose PeerSide \<in> set evs \<longrightarrow> e1 = None) \<and> (HalfClose ClientSide \<in> set evs \<longrightarrow> e2 = None) \<and>
    (e1 \<noteq> None \<or> e2 \<noteq> None \<longrightarrow> CloseConn ClientSide \<in> set evs \<and> CloseConn PeerSide \<in> set evs) \<and>
    (CloseConn ClientSide \<in> set evs \<or> CloseConn PeerSide \<in> set evs \<longrightarrow>
       e1 \<noteq> None \<or> e2 \<noteq> None \<or> cw_peer \<noteq> None \<or> cw_client \<noteq> None)"
proof -
  let ?clock = "newTunnelClock timeout now"
  let ?c = "trackTunnelActivity conn ?clock" and ?p = "trackTunnelActivity peer ?clock"
  from assms obtain n1 e1 n2 e2 where r: "up = Ret n1 e1" "down = Ret n2 e2"
    and "evs \<in> shuffles (forward PeerSide ?p ?c ?p e1 cw_peer) (forward ClientSide ?c ?c ?p e2 cw_client)"
    by (auto simp: forwardTunnel_def Let_def split: io_result.splits)
  then have evs: "set evs = set (forward PeerSide ?p ?c ?p e1 cw_peer) \<union> set (forward ClientSide ?c ?c ?p e2 cw_client)"
    by (simp add: set_shuffles)
  have "(HalfClose PeerSide \<in> set evs \<longrightarrow> e1 = None) \<and> (HalfClose ClientSide \<in> set evs \<longrightarrow> e2 = None)"
    unfolding evs using forward_half_close by blast
  moreover have "e1 \<noteq> None \<or> e2 \<noteq> None \<longrightarrow> CloseConn ClientSide \<in> set evs \<and> CloseConn PeerSide \<in> set evs"
    unfolding evs using forward_failed by blast
  moreover have "CloseConn ClientSide \<in> set evs \<or> CloseConn PeerSide \<in> set evs \<longrightarrow>
       e1 \<noteq> None \<or> e2 \<noteq> None \<or> cw_peer \<noteq> None \<or> cw_client \<noteq> None"
    unfolding evs using forward_close by blast
  ultimately show ?thesis using r by blast
qed

theorem forwardTunnel_teardown_witness:
  "\<exists>evs. evs \<in> forwardTunnel (PlainNet True) (UpstreamTLS \<lparr>tn_clock = None, tn_writeClosed = False\<rparr>) 100 0
       (Ret 6 None) (Ret 0 (Some (Sentinel ECONNRESET))) None None \<and>
     CloseConn ClientSide \<in> set evs \<and> CloseConn PeerSide \<in> set evs"
proof -
  let ?t = "forwardTunnel (PlainNet True) (UpstreamTLS \<lparr>tn_clock = None, tn_writeClosed = False\<rparr>) 100 0
       (Ret 6 None) (Ret 0 (Some (Sentinel ECONNRESET))) None None"
  have "[HalfClose PeerSide, CloseConn ClientSide, TransportClose PeerSide, CloseConn PeerSide] \<in> ?t"
    by code_simp
  from forwardTunnel_teardown [OF this] this show ?thesis by blast
qed

end
