(* ===== verification/Tunnel_Run.thy ===== *)
theory Tunnel_Run
  imports Tunnel_IO Transition
begin

text \<open>
  A whole CONNECT tunnel: \<^verbatim>\<open>forwardTunnel\<close> of src/internal/proxy/connect.go with its two goroutines, each of
  which runs \<^verbatim>\<open>forwardHalf\<close> and \<^verbatim>\<open>idleCopy\<close>, over the idle clock they share and the tracked connections of
  tunnel_write.go. The model takes one step per use of the clock, change of a deadline, read, transport
  write and close; time passes whenever it likes. A use of \<^verbatim>\<open>quietFor\<close> is one step, which Tunnel_Clock
  justifies; \<^verbatim>\<open>touch\<close> is two, since the time is read before it is stored. Both connections are plain ones
  with the idle timeout on. The theorems show that every interleaving has the outcome the functions of
  Tunnel_IO describe, that a tunnel is ended as idle only after a timeout without progress in either
  direction, and that it does end once its peers fall silent. Times are nanoseconds, and the tunnel is
  younger than the 292 years after which \<^verbatim>\<open>time.Since\<close> saturates.
\<close>

section \<open>The two directions\<close>

text \<open>A direction is named by the side it writes to. It is before the look at the clock that starts a round,
  before arming the read deadline, in the read, before the two parts of \<^verbatim>\<open>touch\<close> with the bytes and the
  error the read returned, before arming the write deadline, in a transport write, before the two parts
  of the \<^verbatim>\<open>touch\<close> after it, after the write, before the test for idleness after a timeout, after
  \<^verbatim>\<open>idleCopy\<close>, closing both connections after an error, and finished.\<close>

datatype half_pc =
    HCheck
  | HArm int
  | HRead int
  | HTouch bytes "go_error option"
  | HStamp int bytes "go_error option"
  | HArmWrite bytes "go_error option"
  | HWrite int bytes "go_error option"
  | HWrote bytes "go_error option" "go_error option"
  | HWroteStamp int bytes "go_error option" "go_error option"
  | HAfter "go_error option"
  | HIdle
  | HCopied "go_error option"
  | HClose side go_error
  | HDone "go_error option"

text \<open>\<open>h_total\<close> is the count \<^verbatim>\<open>idleCopy\<close> returns. The other fields record what happened and no step depends
  on them: the clock's word when the round began, the round in progress and those before, the bytes
  written, what \<^verbatim>\<open>idleCopy\<close> and the half-close returned, the closing events, and the moment an idle
  timeout was found with the number of progress records at that moment.\<close>

record half =
  h_pc :: half_pc
  h_total :: nat
  h_seen :: int
  h_round :: "conn_io copy_round"
  h_rounds :: "conn_io copy_round list"
  h_sent :: bytes
  h_copied :: "go_error option option"
  h_cw :: "go_error option"
  h_log :: "close_event list"
  h_verdict :: "(int \<times> nat) option"

record tunnel =
  tr_now :: int
  tr_clock :: tunnelClock
  tr_conn :: "side \<Rightarrow> net_conn"
  tr_half :: "side \<Rightarrow> half"
  tr_touches :: "(side \<times> int) list"
  tr_log :: "close_event list"

definition new_round :: "int \<Rightarrow> conn_io copy_round" where
  "new_round quiet = \<lparr>cr_quiet = quiet, cr_data = [], cr_err = None,
     cr_write = \<lparr>io_plain = (0, None), io_chunks = []\<rparr>, cr_quiet_after = 0\<rparr>"

definition half_start :: half where
  "half_start = \<lparr>h_pc = HCheck, h_total = 0, h_seen = 0, h_round = new_round 0, h_rounds = [], h_sent = [],
     h_copied = None, h_cw = None, h_log = [], h_verdict = None\<rparr>"

definition tunnel_start :: "net_conn \<Rightarrow> net_conn \<Rightarrow> int \<Rightarrow> int \<Rightarrow> tunnel" where
  "tunnel_start conn peerConn idleTimeout now =
     (let clock = newTunnelClock idleTimeout now
      in \<lparr>tr_now = now, tr_clock = clock,
          tr_conn = (\<lambda>sd. trackTunnelActivity (case sd of ClientSide \<Rightarrow> conn | PeerSide \<Rightarrow> peerConn) clock),
          tr_half = (\<lambda>_. half_start), tr_touches = [], tr_log = []\<rparr>)"

definition setHalf :: "side \<Rightarrow> half \<Rightarrow> tunnel \<Rightarrow> tunnel" where
  "setHalf sd h s = s\<lparr>tr_half := (tr_half s)(sd := h)\<rparr>"

definition goto :: "side \<Rightarrow> half_pc \<Rightarrow> tunnel \<Rightarrow> tunnel" where
  "goto sd pc s = setHalf sd (tr_half s sd\<lparr>h_pc := pc\<rparr>) s"

text \<open>What \<^verbatim>\<open>time.Since\<close> and \<^verbatim>\<open>quietFor\<close> return now.\<close>

definition elapsed :: "tunnel \<Rightarrow> int" where
  "elapsed s = since (tr_clock s) (tr_now s)"

definition quiet :: "tunnel \<Rightarrow> int" where
  "quiet s = wrap64 (elapsed s - tc_last (tr_clock s))"

text \<open>The second part of \<^verbatim>\<open>touch\<close>: the word keeps the latest time.\<close>

definition storeTouch :: "side \<Rightarrow> int \<Rightarrow> tunnel \<Rightarrow> tunnel" where
  "storeTouch sd t s =
     s\<lparr>tr_clock := (tr_clock s)\<lparr>tc_last := max (tc_last (tr_clock s)) t\<rparr>, tr_touches := tr_touches s @ [(sd, t)]\<rparr>"

text \<open>The next round, and the return of \<^verbatim>\<open>idleCopy\<close>.\<close>

definition again :: "half \<Rightarrow> half" where
  "again h = h\<lparr>h_pc := HCheck, h_rounds := h_rounds h @ [h_round h]\<rparr>"

definition endCopy :: "go_error option \<Rightarrow> half \<Rightarrow> half" where
  "endCopy err h = h\<lparr>h_pc := HCopied err, h_rounds := h_rounds h @ [h_round h], h_copied := Some err\<rparr>"

definition idled :: "tunnel \<Rightarrow> half \<Rightarrow> half" where
  "idled s h = endCopy (Some (Sentinel ErrTunnelIdle)) (h\<lparr>h_verdict := Some (elapsed s, length (tr_touches s))\<rparr>)"

definition logged :: "side \<Rightarrow> close_event list \<Rightarrow> tunnel \<Rightarrow> tunnel" where
  "logged sd evs s =
     setHalf sd (tr_half s sd\<lparr>h_log := h_log (tr_half s sd) @ evs\<rparr>) (s\<lparr>tr_log := tr_log s @ evs\<rparr>)"

text \<open>After a transport write that accepted bytes, \<open>rest\<close> being what is left of the buffer.\<close>

definition afterChunk :: "bytes \<Rightarrow> go_error option \<Rightarrow> go_error option \<Rightarrow> half \<Rightarrow> half" where
  "afterChunk rest cerr err h =
     (case cerr of
        Some e \<Rightarrow> endCopy (Some e) h
      | None \<Rightarrow> h\<lparr>h_pc := if rest = [] then HAfter err else HArmWrite rest err\<rparr>)"

text \<open>A step the goroutine of direction \<open>sd\<close> takes by itself. \<open>cw\<close> is how a half-close ends.\<close>

definition halfStep :: "go_error option \<Rightarrow> side \<Rightarrow> tunnel \<Rightarrow> tunnel option" where
  "halfStep cw sd s =
     (let h = tr_half s sd; clock = tr_clock s
      in case h_pc h of
           HCheck \<Rightarrow>
             let h1 = h\<lparr>h_seen := tc_last clock, h_round := new_round (quiet s)\<rparr>;
                 left = remaining clock (quiet s)
             in Some (setHalf sd (if left \<le> 0 then idled s h1 else h1\<lparr>h_pc := HArm left\<rparr>) s)
         | HArm left \<Rightarrow> Some (goto sd (HRead (tr_now s + left)) s)
         | HTouch p err \<Rightarrow> Some (goto sd (HStamp (elapsed s) p err) s)
         | HStamp t p err \<Rightarrow> Some (goto sd (HArmWrite p err) (storeTouch sd t s))
         | HArmWrite p err \<Rightarrow> Some (goto sd (HWrite (tr_now s + tc_timeout clock) p err) s)
         | HWrote rest cerr err \<Rightarrow> Some (goto sd (HWroteStamp (elapsed s) rest cerr err) s)
         | HWroteStamp t rest cerr err \<Rightarrow> Some (setHalf sd (afterChunk rest cerr err h) (storeTouch sd t s))
         | HAfter err \<Rightarrow>
             (case err of
                None \<Rightarrow> Some (setHalf sd (again h) s)
              | Some e \<Rightarrow>
                  if isTimeoutError e then Some (goto sd HIdle s)
                  else if errors_is e EOF then Some (setHalf sd (endCopy None h) s)
                  else Some (setHalf sd (endCopy (Some e) h) s))
         | HIdle \<Rightarrow>
             let h1 = h\<lparr>h_round := h_round h\<lparr>cr_quiet_after := quiet s\<rparr>\<rparr>
             in Some (setHalf sd (if idle clock (quiet s) then idled s h1 else again h1) s)
         | HCopied err \<Rightarrow>
             (case forwardHalf sd (tr_conn s sd) err cw of
                (err1, evs, conn1) \<Rightarrow>
                  let s1 = logged sd evs (s\<lparr>tr_conn := (tr_conn s)(sd := conn1)\<rparr>);
                      pc = (case err1 of None \<Rightarrow> HDone None | Some e \<Rightarrow> HClose ClientSide e)
                  in Some (setHalf sd (tr_half s1 sd\<lparr>h_cw := cw, h_pc := pc\<rparr>) s1))
         | HClose c e \<Rightarrow>
             (case closeConn c (tr_conn s c) of
                (evs, conn1) \<Rightarrow>
                  Some (goto sd (if c = ClientSide then HClose PeerSide e else HDone (Some e))
                    (logged sd evs (s\<lparr>tr_conn := (tr_conn s)(c := conn1)\<rparr>))))
         | _ \<Rightarrow> None)"

text \<open>The errors a connection reports: never the idle timeout of this package.\<close>

definition foreign :: "go_error option \<Rightarrow> bool" where
  "foreign err \<longleftrightarrow> (case err of None \<Rightarrow> True | Some e \<Rightarrow> \<not> errors_is e ErrTunnelIdle)"

text \<open>The read returns. A timeout is reported only after the deadline.\<close>

definition readReturns :: "bytes \<Rightarrow> go_error option \<Rightarrow> side \<Rightarrow> tunnel \<Rightarrow> tunnel option" where
  "readReturns data err sd s =
     (let h = tr_half s sd
      in case h_pc h of
           HRead dl \<Rightarrow>
             if foreign err \<and> (timed_out err \<longrightarrow> dl \<le> tr_now s) then
               Some (setHalf sd (h\<lparr>h_pc := if data \<noteq> [] then HTouch data err else HAfter err,
                 h_round := h_round h\<lparr>cr_data := data, cr_err := err\<rparr>\<rparr>) s)
             else None
         | _ \<Rightarrow> None)"

definition addChunk :: "go_error option \<times> chunk_io \<Rightarrow> half \<Rightarrow> half" where
  "addChunk c h =
     h\<lparr>h_round := h_round h\<lparr>cr_write := (cr_write (h_round h))\<lparr>io_chunks := io_chunks (cr_write (h_round h)) @ [c]\<rparr>\<rparr>\<rparr>"

text \<open>Arming the write deadline fails.\<close>

definition armFails :: "go_error \<Rightarrow> chunk_io \<Rightarrow> side \<Rightarrow> tunnel \<Rightarrow> tunnel option" where
  "armFails e io sd s =
     (case h_pc (tr_half s sd) of
        HArmWrite p err \<Rightarrow>
          if foreign (Some e) then Some (setHalf sd (endCopy (Some e) (addChunk (Some e, io) (tr_half s sd))) s) else None
      | _ \<Rightarrow> None)"

text \<open>The transport write returns; it never accepts more than it was given.\<close>

definition chunkReturns :: "chunk_io \<Rightarrow> side \<Rightarrow> tunnel \<Rightarrow> tunnel option" where
  "chunkReturns io sd s =
     (let h = addChunk (None, io) (tr_half s sd)
      in case h_pc h of
           HWrite dl p err \<Rightarrow>
             (case writeTunnelChunk (tc_timeout (tr_clock s)) io of
                Ret n cerr \<Rightarrow>
                  if n \<le> length p \<and> foreign cerr then
                    let h1 = h\<lparr>h_total := h_total h + n, h_sent := h_sent h @ take n p\<rparr>
                    in Some (setHalf sd
                         (if n > 0 then h1\<lparr>h_pc := HWrote (drop n p) cerr err\<rparr>
                          else endCopy (Some (case cerr of Some e \<Rightarrow> e | None \<Rightarrow> Sentinel ErrNoProgress)) h1) s)
                  else None
              | _ \<Rightarrow> None)
         | _ \<Rightarrow> None)"

definition passTime :: "int \<Rightarrow> tunnel \<Rightarrow> tunnel option" where
  "passTime t s =
     (if tr_now s \<le> t \<and> t - tc_origin (tr_clock s) < 2 ^ 63 then Some (s\<lparr>tr_now := t\<rparr>) else None)"

inductive tunnel_step :: "tunnel \<Rightarrow> tunnel \<Rightarrow> bool" where
  time: "passTime t s = Some s' \<Longrightarrow> tunnel_step s s'"
| prog: "halfStep cw sd s = Some s' \<Longrightarrow> tunnel_step s s'"
| read: "readReturns data err sd s = Some s' \<Longrightarrow> tunnel_step s s'"
| arm: "armFails e io sd s = Some s' \<Longrightarrow> tunnel_step s s'"
| chunk: "chunkReturns io sd s = Some s' \<Longrightarrow> tunnel_step s s'"

inductive_cases tunnel_stepE: "tunnel_step s s'"

abbreviation tunnel_reach :: "bool \<Rightarrow> bool \<Rightarrow> int \<Rightarrow> int \<Rightarrow> tunnel \<Rightarrow> bool" where
  "tunnel_reach a b idleTimeout now \<equiv> reach (tunnel_start (PlainNet a) (PlainNet b) idleTimeout now) tunnel_step"

section \<open>Time\<close>

lemma wrap64_id: "- (2 ^ 63) \<le> x \<Longrightarrow> x < 2 ^ 63 \<Longrightarrow> wrap64 x = x"
  by (simp add: wrap64_def)

text \<open>The clock: \<open>c\<close> is the one the tunnel started with.\<close>

definition clock_ok :: "tunnelClock \<Rightarrow> tunnel \<Rightarrow> bool" where
  "clock_ok c s \<longleftrightarrow>
     0 < tc_timeout c \<and> tc_timeout c < 2 ^ 63 \<and>
     tc_timeout (tr_clock s) = tc_timeout c \<and> tc_origin (tr_clock s) = tc_origin c \<and>
     0 \<le> tc_last (tr_clock s) \<and> tc_last (tr_clock s) \<le> tr_now s - tc_origin c \<and> tr_now s - tc_origin c < 2 ^ 63 \<and>
     list_all (\<lambda>x. snd x \<le> tc_last (tr_clock s)) (tr_touches s)"

lemma clock_exact:
  assumes "clock_ok c s"
  shows "elapsed s = tr_now s - tc_origin c" "quiet s = tr_now s - tc_origin c - tc_last (tr_clock s)"
    "remaining (tr_clock s) (quiet s) = tc_timeout c - quiet s"
    "idle (tr_clock s) (quiet s) \<longleftrightarrow> tc_timeout c \<le> quiet s"
    "remaining c (quiet s) = tc_timeout c - quiet s" "idle c (quiet s) \<longleftrightarrow> tc_timeout c \<le> quiet s"
  using assms by (auto simp: clock_ok_def elapsed_def quiet_def since_def remaining_def idle_def wrap64_id)

text \<open>A direction's deadlines. A read deadline is never earlier than the moment when the idle timeout runs out,
  counted from the progress seen at the start of the round, and a read that timed out has waited for that
  moment.\<close>

definition late :: "int \<Rightarrow> int \<Rightarrow> half \<Rightarrow> go_error option \<Rightarrow> bool" where
  "late T el h err \<longleftrightarrow> foreign err \<and> (timed_out err \<longrightarrow> h_seen h + T \<le> el)"

definition half_time :: "tunnelClock \<Rightarrow> int \<Rightarrow> int \<Rightarrow> half \<Rightarrow> bool" where
  "half_time c now l h \<longleftrightarrow>
     (let T = tc_timeout c; el = now - tc_origin c
      in h_seen h \<le> l \<and>
         (case h_pc h of
            HArm left \<Rightarrow> 0 < left \<and> left \<le> T \<and> h_seen h + T \<le> el + left
          | HRead dl \<Rightarrow> h_seen h + T \<le> dl - tc_origin c \<and> dl \<le> now + T
          | HTouch p err \<Rightarrow> p \<noteq> [] \<and> late T el h err
          | HStamp t p err \<Rightarrow> p \<noteq> [] \<and> t \<le> el \<and> late T el h err
          | HArmWrite p err \<Rightarrow> p \<noteq> [] \<and> late T el h err
          | HWrite dl p err \<Rightarrow> p \<noteq> [] \<and> dl \<le> now + T \<and> late T el h err
          | HWrote rest cerr err \<Rightarrow> foreign cerr \<and> late T el h err
          | HWroteStamp t rest cerr err \<Rightarrow> t \<le> el \<and> foreign cerr \<and> late T el h err
          | HAfter err \<Rightarrow> late T el h err
          | HIdle \<Rightarrow> h_seen h + T \<le> el
          | _ \<Rightarrow> True))"

lemma half_time_mono: "half_time c now l h \<Longrightarrow> now \<le> now' \<Longrightarrow> l \<le> l' \<Longrightarrow> half_time c now' l' h"
  by (auto simp: half_time_def late_def Let_def split: half_pc.splits)

text \<open>Idle verdicts: when a direction found the tunnel idle, a whole timeout had passed since every progress
  recorded by then, in either direction.\<close>

definition verdict_ok :: "tunnelClock \<Rightarrow> (side \<times> int) list \<Rightarrow> half \<Rightarrow> bool" where
  "verdict_ok c touches h \<longleftrightarrow>
     (case h_verdict h of
        None \<Rightarrow> \<forall>e. h_copied h = Some (Some e) \<longrightarrow> \<not> errors_is e ErrTunnelIdle
      | Some (t, n) \<Rightarrow> n \<le> length touches \<and> list_all (\<lambda>x. snd x + tc_timeout c \<le> t) (take n touches))"

lemma verdict_ok_more: "verdict_ok c touches h \<Longrightarrow> verdict_ok c (touches @ xs) h"
  by (auto simp: verdict_ok_def split: option.splits)

lemma verdict_ok_frame [simp]:
  "verdict_ok c ts (h\<lparr>h_pc := a\<rparr>) = verdict_ok c ts h" "verdict_ok c ts (h\<lparr>h_seen := b\<rparr>) = verdict_ok c ts h"
  "verdict_ok c ts (h\<lparr>h_round := d\<rparr>) = verdict_ok c ts h" "verdict_ok c ts (h\<lparr>h_rounds := e\<rparr>) = verdict_ok c ts h"
  "verdict_ok c ts (h\<lparr>h_total := f\<rparr>) = verdict_ok c ts h" "verdict_ok c ts (h\<lparr>h_sent := g\<rparr>) = verdict_ok c ts h"
  "verdict_ok c ts (h\<lparr>h_cw := i\<rparr>) = verdict_ok c ts h" "verdict_ok c ts (h\<lparr>h_log := j\<rparr>) = verdict_ok c ts h"
  by (simp_all add: verdict_ok_def split: option.splits)

lemma verdict_ok_endCopy [simp]: "foreign err \<Longrightarrow> verdict_ok c ts h \<Longrightarrow> verdict_ok c ts (endCopy err h)"
  by (auto simp: verdict_ok_def endCopy_def foreign_def split: option.splits)

definition time_inv :: "tunnelClock \<Rightarrow> tunnel \<Rightarrow> bool" where
  "time_inv c s \<longleftrightarrow>
     clock_ok c s \<and>
     (\<forall>sd. half_time c (tr_now s) (tc_last (tr_clock s)) (tr_half s sd) \<and> verdict_ok c (tr_touches s) (tr_half s sd))"

text \<open>A step of one direction that leaves the clock alone.\<close>

lemma time_inv_half:
  assumes "time_inv c s" "tr_now s' = tr_now s" "tr_clock s' = tr_clock s" "tr_touches s' = tr_touches s"
    and "\<And>d. d \<noteq> sd \<Longrightarrow> tr_half s' d = tr_half s d"
    and "half_time c (tr_now s) (tc_last (tr_clock s)) (tr_half s' sd)" "verdict_ok c (tr_touches s) (tr_half s' sd)"
  shows "time_inv c s'"
proof -
  have "half_time c (tr_now s) (tc_last (tr_clock s)) (tr_half s' d) \<and> verdict_ok c (tr_touches s) (tr_half s' d)" for d
    using assms by (cases "d = sd") (auto simp: time_inv_def)
  with assms(1-4) show ?thesis by (simp add: time_inv_def clock_ok_def)
qed

lemma setHalf_simps [simp]:
  "tr_now (setHalf sd h s) = tr_now s" "tr_clock (setHalf sd h s) = tr_clock s"
  "tr_touches (setHalf sd h s) = tr_touches s" "tr_half (setHalf sd h s) = (tr_half s)(sd := h)"
  "tr_conn (setHalf sd h s) = tr_conn s" "tr_log (setHalf sd h s) = tr_log s"
  by (simp_all add: setHalf_def)

lemma storeTouch_simps [simp]:
  "tr_now (storeTouch sd t s) = tr_now s" "tr_half (storeTouch sd t s) = tr_half s"
  "tr_conn (storeTouch sd t s) = tr_conn s" "tr_log (storeTouch sd t s) = tr_log s"
  "tr_clock (storeTouch sd t s) = (tr_clock s)\<lparr>tc_last := max (tc_last (tr_clock s)) t\<rparr>"
  "tr_touches (storeTouch sd t s) = tr_touches s @ [(sd, t)]"
  by (simp_all add: storeTouch_def)

lemma storeTouch_time:
  assumes "time_inv c s" "t \<le> tr_now s - tc_origin c"
  shows "time_inv c (storeTouch sd t s)"
proof -
  have "list_all (\<lambda>x. snd x \<le> max (tc_last (tr_clock s)) t) (tr_touches s)"
    using assms(1) by (auto simp: time_inv_def clock_ok_def list_all_iff)
  with assms show ?thesis
    by (auto simp: time_inv_def clock_ok_def intro: half_time_mono verdict_ok_more)
qed

lemma idled_verdict:
  assumes "clock_ok c s" "tc_timeout c \<le> quiet s"
  shows "verdict_ok c (tr_touches s) (idled s h)"
  using assms clock_exact [OF assms(1)]
  by (fastforce simp: verdict_ok_def idled_def endCopy_def clock_ok_def list_all_iff)

lemmas half_ops = goto_def again_def endCopy_def idled_def addChunk_def afterChunk_def logged_def

lemma foreign_None [simp]: "foreign None"
  by (simp add: foreign_def)

lemma endCopy_simps [simp]:
  "h_pc (endCopy err h) = HCopied err" "h_seen (endCopy err h) = h_seen h" "h_total (endCopy err h) = h_total h"
  "h_round (endCopy err h) = h_round h" "h_rounds (endCopy err h) = h_rounds h @ [h_round h]"
  "h_sent (endCopy err h) = h_sent h" "h_copied (endCopy err h) = Some err" "h_cw (endCopy err h) = h_cw h"
  "h_log (endCopy err h) = h_log h" "h_verdict (endCopy err h) = h_verdict h"
  by (simp_all add: endCopy_def)

lemma half_time_endCopy [simp]: "half_time c now l (endCopy err h) \<longleftrightarrow> h_seen h \<le> l"
  by (simp add: half_time_def endCopy_def Let_def)

lemma half_time_idled [simp]: "half_time c now l (idled s h) \<longleftrightarrow> h_seen h \<le> l"
  by (simp add: half_time_def idled_def endCopy_def Let_def)

lemma passTime_time:
  assumes "time_inv c s" "passTime t s = Some s'"
  shows "time_inv c s'"
proof -
  have s': "s' = s\<lparr>tr_now := t\<rparr>" "tr_now s \<le> t" "t - tc_origin (tr_clock s) < 2 ^ 63"
    using assms(2) by (auto simp: passTime_def split: if_splits)
  have "half_time c t (tc_last (tr_clock s)) (tr_half s sd)" for sd
    using assms(1) s'(2) by (auto simp: time_inv_def intro: half_time_mono)
  with assms(1) s' show ?thesis by (auto simp: time_inv_def clock_ok_def)
qed

lemma time_inv_dest:
  assumes "time_inv c s"
  shows "clock_ok c s" "half_time c (tr_now s) (tc_last (tr_clock s)) (tr_half s sd)"
    "verdict_ok c (tr_touches s) (tr_half s sd)"
  using assms by (auto simp: time_inv_def)

lemma halfStep_time:
  assumes inv: "time_inv c s" and step: "halfStep cw sd s = Some s'"
  shows "time_inv c s'"
proof -
  note i = time_inv_dest [OF inv] and half = time_inv_half [OF inv, where sd = sd and s' = s']
  note x = clock_exact [OF i(1)]
  have T: "tc_timeout (tr_clock s) = tc_timeout c" "0 < tc_timeout c" "0 \<le> quiet s"
    using i(1) x(2) by (simp_all add: clock_ok_def)
  show ?thesis
  proof (cases "h_pc (tr_half s sd)")
    case HCheck
    show ?thesis
    proof (cases "remaining (tr_clock s) (quiet s) \<le> 0")
      case True
      with HCheck step x idled_verdict [OF i(1)] show ?thesis
        by (intro half) (auto simp: halfStep_def Let_def)
    next
      case False
      with HCheck step x T i(3) [of sd] show ?thesis
        by (intro half) (auto simp: halfStep_def Let_def half_time_def)
    qed
  next
    case (HStamp t p err)
    with i(2) [of sd] have "t \<le> tr_now s - tc_origin c" by (simp add: half_time_def Let_def)
    from storeTouch_time [OF inv this] have inv1: "time_inv c (storeTouch sd t s)" .
    note i1 = time_inv_dest(2,3) [OF inv1, of sd]
    show ?thesis
      using HStamp step i1 by (intro time_inv_half [OF inv1, where sd = sd and s' = s'])
        (auto simp: halfStep_def goto_def half_time_def late_def Let_def)
  next
    case (HWroteStamp t rest cerr err)
    with i(2) [of sd] have "t \<le> tr_now s - tc_origin c" by (simp add: half_time_def Let_def)
    from storeTouch_time [OF inv this] have inv1: "time_inv c (storeTouch sd t s)" .
    note i1 = time_inv_dest(2,3) [OF inv1, of sd]
    show ?thesis
      using HWroteStamp step i1 by (intro time_inv_half [OF inv1, where sd = sd and s' = s'])
        (auto simp: halfStep_def afterChunk_def half_time_def late_def Let_def
          split: option.splits)
  next
    case HIdle
    show ?thesis
    proof (cases "idle (tr_clock s) (quiet s)")
      case True
      with HIdle step x idled_verdict [OF i(1)] i(2) [of sd] show ?thesis
        by (intro half) (auto simp: halfStep_def Let_def half_time_def [of c _ _ "tr_half s sd"])
    next
      case False
      with HIdle step x T i(2,3) [of sd] show ?thesis
        by (intro half) (auto simp: halfStep_def Let_def half_time_def again_def)
    qed
  next
    case (HCopied err)
    with step i(2,3) [of sd] show ?thesis
      by (intro half) (auto simp: halfStep_def Let_def half_time_def logged_def split: prod.splits option.splits)
  next
    case (HClose d e)
    with step i(2,3) [of sd] show ?thesis
      by (intro half) (auto simp: halfStep_def Let_def half_time_def logged_def goto_def split: prod.splits)
  qed (rule half; use step i(2,3) [of sd] T x(1) in \<open>auto simp: halfStep_def goto_def again_def half_time_def late_def
      timed_out_def Let_def split: option.splits if_splits\<close>)+
qed

lemma addChunk_simps [simp]:
  "h_pc (addChunk k h) = h_pc h" "h_seen (addChunk k h) = h_seen h" "h_total (addChunk k h) = h_total h"
  "h_rounds (addChunk k h) = h_rounds h" "h_sent (addChunk k h) = h_sent h" "h_copied (addChunk k h) = h_copied h"
  "h_cw (addChunk k h) = h_cw h" "h_log (addChunk k h) = h_log h" "h_verdict (addChunk k h) = h_verdict h"
  "cr_data (h_round (addChunk k h)) = cr_data (h_round h)" "cr_err (h_round (addChunk k h)) = cr_err (h_round h)"
  "cr_quiet (h_round (addChunk k h)) = cr_quiet (h_round h)"
  "io_chunks (cr_write (h_round (addChunk k h))) = io_chunks (cr_write (h_round h)) @ [k]"
  "verdict_ok c ts (addChunk k h) = verdict_ok c ts h"
  by (simp_all add: addChunk_def)

lemma foreign_no_progress [simp]: "foreign (Some (Sentinel ErrNoProgress))"
  by (simp add: foreign_def errors_is_def)

lemma world_time:
  assumes inv: "time_inv c s"
    and step: "readReturns data err sd s = Some s' \<or> armFails e io sd s = Some s' \<or> chunkReturns io sd s = Some s'"
  shows "time_inv c s'"
proof -
  note i = time_inv_dest(2,3) [OF inv, of sd] and half = time_inv_half [OF inv, where sd = sd and s' = s']
  from step consider "readReturns data err sd s = Some s'" | "armFails e io sd s = Some s'" | "chunkReturns io sd s = Some s'"
    by blast
  then show ?thesis
  proof cases
    case 1
    then show ?thesis
      by (intro half) (use i in \<open>auto simp: readReturns_def half_time_def late_def Let_def
        split: half_pc.splits if_splits\<close>)
  next
    case 2
    then show ?thesis
      by (intro half) (use i in \<open>auto simp: armFails_def half_time_def Let_def split: half_pc.splits if_splits\<close>)
  next
    case 3
    then show ?thesis
      by (intro half) (use i in \<open>auto simp: chunkReturns_def half_time_def late_def Let_def
        split: half_pc.splits io_result.splits if_splits option.splits\<close>)
  qed
qed

lemma time_inv_step: "time_inv c s \<Longrightarrow> tunnel_step s s' \<Longrightarrow> time_inv c s'"
  by (elim tunnel_stepE) (auto intro: passTime_time halfStep_time world_time)

lemma time_inv_start:
  assumes "0 < T" "T < 2 ^ 63"
  shows "time_inv (newTunnelClock T now) (tunnel_start conn peer T now)"
  using assms by (simp add: time_inv_def clock_ok_def tunnel_start_def newTunnelClock_def half_start_def half_time_def
      verdict_ok_def Let_def)

section \<open>The flow of bytes\<close>

text \<open>The connection a direction writes to, and its write.\<close>

abbreviation tunnelWrite :: "tunnelClock \<Rightarrow> conn_io \<Rightarrow> bytes \<Rightarrow> io_result \<times> tunnel_event list" where
  "tunnelWrite c \<equiv> connWrite \<lparr>tn_clock = Some c, tn_writeClosed = False\<rparr>"

definition relay :: "tunnelClock \<Rightarrow> conn_io copy_round \<Rightarrow> io_result \<times> tunnel_event list" where
  "relay c r = writeLoop (tc_timeout c) (cr_data r) (io_chunks (cr_write r))"

lemma relayed_tunnelWrite: "0 < tc_timeout c \<Longrightarrow> relayed (tunnelWrite c) r = relay c r"
  by (simp add: relayed_def relay_def connWrite_def)

text \<open>The rounds so far: the loop goes on after them, \<open>n\<close> bytes and the bytes \<open>bs\<close> further.\<close>

definition rounds_so_far :: "tunnelClock \<Rightarrow> conn_io copy_round list \<Rightarrow> nat \<Rightarrow> bytes \<Rightarrow> bool" where
  "rounds_so_far c rs n bs \<longleftrightarrow>
     bs = concat (map cr_data rs) \<and>
     (\<forall>rest. fst (copyLoop c (tunnelWrite c) (rs @ rest)) = progressed n (fst (copyLoop c (tunnelWrite c) rest)) \<and>
        delivered (snd (copyLoop c (tunnelWrite c) (rs @ rest))) = bs @ delivered (snd (copyLoop c (tunnelWrite c) rest)))"

text \<open>The transport writes so far of the buffer \<open>p\<close>: the write goes on at \<open>k\<close>.\<close>

definition chunks_so_far :: "int \<Rightarrow> bytes \<Rightarrow> (go_error option \<times> chunk_io) list \<Rightarrow> nat \<Rightarrow> bool" where
  "chunks_so_far T p cs k \<longleftrightarrow>
     (\<forall>rest. fst (writeLoop T p (cs @ rest)) = progressed k (fst (writeLoop T (drop k p) rest)) \<and>
        delivered (snd (writeLoop T p (cs @ rest))) = take k p @ delivered (snd (writeLoop T (drop k p) rest)))"

text \<open>In a round, with \<open>k\<close> bytes of its data written.\<close>

definition in_round :: "tunnelClock \<Rightarrow> half \<Rightarrow> nat \<Rightarrow> bool" where
  "in_round c h k \<longleftrightarrow>
     (\<exists>n bs. rounds_so_far c (h_rounds h) n bs \<and> h_total h = n + k \<and> h_sent h = bs @ take k (cr_data (h_round h))) \<and>
     k \<le> length (cr_data (h_round h)) \<and> remaining c (cr_quiet (h_round h)) > 0"

definition relayed_all :: "tunnelClock \<Rightarrow> half \<Rightarrow> bool" where
  "relayed_all c h \<longleftrightarrow>
     in_round c h (length (cr_data (h_round h))) \<and>
     fst (relay c (h_round h)) = Ret (length (cr_data (h_round h))) None \<and>
     delivered (snd (relay c (h_round h))) = cr_data (h_round h)"

definition writing :: "tunnelClock \<Rightarrow> half \<Rightarrow> bytes \<Rightarrow> go_error option \<Rightarrow> bool" where
  "writing c h p err \<longleftrightarrow>
     (\<exists>k. in_round c h k \<and> p = drop k (cr_data (h_round h)) \<and> cr_err (h_round h) = err \<and>
        chunks_so_far (tc_timeout c) (cr_data (h_round h)) (io_chunks (cr_write (h_round h))) k)"

definition wrote :: "tunnelClock \<Rightarrow> half \<Rightarrow> bytes \<Rightarrow> go_error option \<Rightarrow> go_error option \<Rightarrow> bool" where
  "wrote c h rest cerr err \<longleftrightarrow>
     (case cerr of
        None \<Rightarrow> writing c h rest err
      | Some e \<Rightarrow>
          (\<exists>k. in_round c h k \<and> fst (relay c (h_round h)) = Ret k (Some e) \<and>
             delivered (snd (relay c (h_round h))) = take k (cr_data (h_round h))))"

definition flow :: "tunnelClock \<Rightarrow> half \<Rightarrow> bool" where
  "flow c h \<longleftrightarrow>
     (case h_pc h of
        HCheck \<Rightarrow> rounds_so_far c (h_rounds h) (h_total h) (h_sent h)
      | HArm _ \<Rightarrow> in_round c h 0 \<and> io_chunks (cr_write (h_round h)) = []
      | HRead _ \<Rightarrow> in_round c h 0 \<and> io_chunks (cr_write (h_round h)) = []
      | HTouch p err \<Rightarrow> writing c h p err
      | HStamp _ p err \<Rightarrow> writing c h p err
      | HArmWrite p err \<Rightarrow> writing c h p err
      | HWrite _ p err \<Rightarrow> writing c h p err
      | HWrote rest cerr err \<Rightarrow> wrote c h rest cerr err
      | HWroteStamp _ rest cerr err \<Rightarrow> wrote c h rest cerr err
      | HAfter err \<Rightarrow> relayed_all c h \<and> cr_err (h_round h) = err
      | HIdle \<Rightarrow> relayed_all c h \<and> timed_out (cr_err (h_round h))
      | _ \<Rightarrow> (\<exists>e. h_copied h = Some e \<and> fst (copyLoop c (tunnelWrite c) (h_rounds h)) = Ret (h_total h) e \<and>
               delivered (snd (copyLoop c (tunnelWrite c) (h_rounds h))) = h_sent h \<and>
               prefix (h_sent h) (concat (map cr_data (h_rounds h))) \<and>
               (e = None \<longrightarrow> h_sent h = concat (map cr_data (h_rounds h)))))"

lemma chunks_so_far_0 [simp]: "chunks_so_far T p [] 0"
  by (simp add: chunks_so_far_def)

lemma rounds_so_far_Nil [simp]: "rounds_so_far c [] 0 []"
  by (simp add: rounds_so_far_def)

text \<open>The end of a round that goes on, and of the last one.\<close>

lemma flow_again:
  assumes T: "0 < tc_timeout c" and r: "relayed_all c h"
    and more: "cr_err (h_round h) = None \<or>
      timed_out (cr_err (h_round h)) \<and> \<not> idle c (cr_quiet_after (h_round h))"
  shows "flow c (again h)"
proof -
  let ?r = "h_round h"
  from r obtain n bs where n: "rounds_so_far c (h_rounds h) n bs" "h_total h = n + length (cr_data ?r)"
    "h_sent h = bs @ cr_data ?r" "remaining c (cr_quiet ?r) > 0"
    by (auto simp: relayed_all_def in_round_def)
  have "fst (copyLoop c (tunnelWrite c) (?r # rest)) = progressed (length (cr_data ?r)) (fst (copyLoop c (tunnelWrite c) rest)) \<and>
      delivered (snd (copyLoop c (tunnelWrite c) (?r # rest))) = cr_data ?r @ delivered (snd (copyLoop c (tunnelWrite c) rest))" for rest
    using r n(4) more by (auto simp: relayed_all_def relayed_tunnelWrite [OF T] timed_out_def Let_def split: option.splits prod.splits)
  moreover have "progressed n (progressed m x) = progressed (n + m) x" for m x by (cases x) simp_all
  ultimately have "rounds_so_far c (h_rounds h @ [?r]) (h_total h) (h_sent h)"
    using n(1-3) by (simp add: rounds_so_far_def)
  then show ?thesis by (simp add: flow_def again_def)
qed

lemma flow_end:
  assumes "rounds_so_far c (h_rounds h) n bs" "h_total h = n + k" "fst (copyLoop c (tunnelWrite c) [h_round h]) = Ret k e"
    "h_sent h = bs @ delivered (snd (copyLoop c (tunnelWrite c) [h_round h]))"
    and "prefix (delivered (snd (copyLoop c (tunnelWrite c) [h_round h]))) (cr_data (h_round h))"
    and "e = None \<longrightarrow> delivered (snd (copyLoop c (tunnelWrite c) [h_round h])) = cr_data (h_round h)"
  shows "flow c (endCopy e h)"
  using assms by (auto simp: flow_def rounds_so_far_def)

lemma flow_end_read:
  assumes T: "0 < tc_timeout c" and r: "relayed_all c h" and e: "cr_err (h_round h) = Some e"
    and res: "res = (if isTimeoutError e then Some (Sentinel ErrTunnelIdle) else if errors_is e EOF then None else Some e)"
    and q: "isTimeoutError e \<Longrightarrow> idle c (cr_quiet_after (h_round h))"
  shows "flow c (endCopy res h)"
proof -
  from r obtain n bs where n: "rounds_so_far c (h_rounds h) n bs" "h_total h = n + length (cr_data (h_round h))"
    "h_sent h = bs @ cr_data (h_round h)" "remaining c (cr_quiet (h_round h)) > 0"
    by (auto simp: relayed_all_def in_round_def)
  show ?thesis
    using r n(4) e q by (intro flow_end [OF n(1,2)])
      (auto simp: relayed_all_def relayed_tunnelWrite [OF T] Let_def n(3) res)
qed

lemma flow_end_write:
  assumes T: "0 < tc_timeout c" and r: "in_round c h k" "fst (relay c (h_round h)) = Ret k (Some e)"
    "delivered (snd (relay c (h_round h))) = take k (cr_data (h_round h))"
  shows "flow c (endCopy (Some e) h)"
proof -
  from r(1) obtain n bs where n: "rounds_so_far c (h_rounds h) n bs" "h_total h = n + k"
    "h_sent h = bs @ take k (cr_data (h_round h))" "remaining c (cr_quiet (h_round h)) > 0"
    by (auto simp: in_round_def)
  show ?thesis
    using r n(4) by (intro flow_end [OF n(1,2)]) (auto simp: relayed_tunnelWrite [OF T] Let_def n(3) take_is_prefix)
qed

text \<open>Bookkeeping that the flow does not depend on.\<close>

lemma flow_frame [simp]:
  "in_round c (h\<lparr>h_pc := a\<rparr>) k = in_round c h k" "relayed_all c (h\<lparr>h_pc := a\<rparr>) = relayed_all c h"
  "writing c (h\<lparr>h_pc := a\<rparr>) p err = writing c h p err" "wrote c (h\<lparr>h_pc := a\<rparr>) p cerr err = wrote c h p cerr err"
  "flow c (endCopy e (h\<lparr>h_verdict := v\<rparr>)) = flow c (endCopy e h)"
  by (simp_all add: in_round_def relayed_all_def writing_def wrote_def flow_def split: option.splits)

lemma relayed_all_quiet [simp]:
  "relayed_all c (h\<lparr>h_round := h_round h\<lparr>cr_quiet_after := q\<rparr>\<rparr>) = relayed_all c h"
  by (simp add: relayed_all_def in_round_def relay_def)

lemma new_round_simps [simp]:
  "cr_quiet (new_round q) = q" "cr_data (new_round q) = []" "cr_err (new_round q) = None"
  "io_chunks (cr_write (new_round q)) = []"
  by (simp_all add: new_round_def)

lemma wrote_all:
  assumes "writing c h [] err"
  shows "relayed_all c h" "cr_err (h_round h) = err"
proof -
  from assms obtain k where k: "in_round c h k" "k \<ge> length (cr_data (h_round h))" "cr_err (h_round h) = err"
    "chunks_so_far (tc_timeout c) (cr_data (h_round h)) (io_chunks (cr_write (h_round h))) k"
    by (auto simp: writing_def)
  then have "k = length (cr_data (h_round h))" by (simp add: in_round_def)
  with k show "relayed_all c h" "cr_err (h_round h) = err"
    by (auto simp: relayed_all_def relay_def chunks_so_far_def dest: spec [of _ "[]"])
qed

lemma afterChunk_flow:
  assumes "0 < tc_timeout c" "wrote c h rest cerr err"
  shows "flow c (afterChunk rest cerr err h)"
proof (cases cerr)
  case None
  with assms wrote_all [of c h err] show ?thesis by (auto simp: afterChunk_def wrote_def flow_def)
next
  case (Some e)
  with assms flow_end_write [OF assms(1), of h _ e] show ?thesis by (auto simp: afterChunk_def wrote_def)
qed

lemma halfStep_flow:
  assumes clock: "clock_ok c s" and fl: "flow c (tr_half s sd)" and step: "halfStep cw sd s = Some s'"
  shows "flow c (tr_half s' sd)"
proof -
  note x = clock_exact [OF clock]
  have T: "0 < tc_timeout c" using clock by (simp add: clock_ok_def)
  show ?thesis
  proof (cases "h_pc (tr_half s sd)")
    case HCheck
    with fl have r: "rounds_so_far c (h_rounds (tr_half s sd)) (h_total (tr_half s sd)) (h_sent (tr_half s sd))"
      by (simp add: flow_def)
    show ?thesis
    proof (cases "remaining c (quiet s) \<le> 0")
      case True
      let ?h = "tr_half s sd\<lparr>h_seen := tc_last (tr_clock s), h_round := new_round (quiet s)\<rparr>"
      have "flow c (endCopy (Some (Sentinel ErrTunnelIdle)) ?h)"
        by (rule flow_end [of _ _ "h_total ?h" "h_sent ?h" 0]) (use r True in simp_all)
      with HCheck step True x show ?thesis by (auto simp: halfStep_def Let_def idled_def)
    next
      case False
      with HCheck step r x show ?thesis by (auto simp: halfStep_def Let_def flow_def in_round_def)
    qed
  next
    case (HWroteStamp t rest cerr err)
    with fl have "wrote c (tr_half s sd) rest cerr err" by (simp add: flow_def)
    from afterChunk_flow [OF T this] HWroteStamp step show ?thesis by (auto simp: halfStep_def Let_def)
  next
    case (HAfter err)
    with fl have r: "relayed_all c (tr_half s sd)" "cr_err (h_round (tr_half s sd)) = err" by (simp_all add: flow_def)
    show ?thesis
    proof (cases err)
      case None
      with HAfter step flow_again [OF T r(1)] r(2) show ?thesis by (auto simp: halfStep_def Let_def)
    next
      case (Some e)
      with HAfter step r flow_end_read [OF T r(1), of e] show ?thesis
        by (auto simp: halfStep_def goto_def flow_def timed_out_def Let_def split: if_splits)
    qed
  next
    case HIdle
    let ?h = "tr_half s sd\<lparr>h_round := h_round (tr_half s sd)\<lparr>cr_quiet_after := quiet s\<rparr>\<rparr>"
    from HIdle fl have r: "relayed_all c ?h" "timed_out (cr_err (h_round (tr_half s sd)))" by (simp_all add: flow_def)
    from r(2) obtain e where e: "cr_err (h_round ?h) = Some e" "isTimeoutError e"
      by (auto simp: timed_out_def split: option.splits)
    show ?thesis
    proof (cases "idle c (quiet s)")
      case True
      with flow_end_read [OF T r(1) e(1), of "Some (Sentinel ErrTunnelIdle)"] HIdle step x e(2) show ?thesis
        by (auto simp: halfStep_def Let_def idled_def)
    next
      case False
      with flow_again [OF T r(1)] HIdle step x r(2) show ?thesis by (auto simp: halfStep_def Let_def)
    qed
  qed (use step fl in \<open>auto simp: halfStep_def goto_def logged_def flow_def Let_def split: prod.splits option.splits\<close>)
qed

lemma readReturns_flow:
  assumes fl: "flow c (tr_half s sd)" and step: "readReturns data err sd s = Some s'"
  shows "flow c (tr_half s' sd)"
proof -
  let ?h = "tr_half s sd"
  let ?g = "?h\<lparr>h_round := h_round ?h\<lparr>cr_data := data, cr_err := err\<rparr>\<rparr>"
  from step obtain dl where "h_pc ?h = HRead dl" and s': "tr_half s' sd =
      ?g\<lparr>h_pc := if data \<noteq> [] then HTouch data err else HAfter err\<rparr>"
    by (auto simp: readReturns_def Let_def split: half_pc.splits if_splits)
  with fl have r: "in_round c ?h 0" "io_chunks (cr_write (h_round ?h)) = []" by (simp_all add: flow_def)
  from r(1) have g: "in_round c ?g 0" by (simp add: in_round_def)
  show ?thesis
  proof (cases "data = []")
    case True
    with g s' show ?thesis by (simp add: flow_def relayed_all_def relay_def)
  next
    case False
    have "writing c ?g data err" unfolding writing_def by (intro exI [of _ 0]) (use g r(2) in simp)
    with False s' show ?thesis by (simp add: flow_def)
  qed
qed

text \<open>One more transport write.\<close>

lemma writeLoop_chunk:
  assumes "writeTunnelChunk T io = Ret n cerr" "n \<le> length p" "p \<noteq> []"
  shows "fst (writeLoop T p ((None, io) # rest)) =
      (if cerr \<noteq> None then Ret n cerr else if n = 0 then Ret 0 (Some (Sentinel ErrNoProgress))
       else progressed n (fst (writeLoop T (drop n p) rest)))"
    "delivered (snd (writeLoop T p ((None, io) # rest))) =
      take n p @ (if cerr \<noteq> None \<or> n = 0 then [] else delivered (snd (writeLoop T (drop n p) rest)))"
  using assms by (cases p; auto simp: Let_def split: prod.splits)+

lemma progressed_progressed: "progressed a (progressed b x) = progressed (a + b) x"
  by (cases x) simp_all

lemma chunk_written:
  assumes "chunks_so_far T d cs k" "writeTunnelChunk T io = Ret n cerr" "n \<le> length (drop k d)" "drop k d \<noteq> []"
  shows "cerr = None \<Longrightarrow> n > 0 \<Longrightarrow> chunks_so_far T d (cs @ [(None, io)]) (k + n)"
    "cerr \<noteq> None \<or> n = 0 \<Longrightarrow>
       fst (writeLoop T d (cs @ [(None, io)])) =
         Ret (k + n) (Some (case cerr of Some e \<Rightarrow> e | None \<Rightarrow> Sentinel ErrNoProgress)) \<and>
       delivered (snd (writeLoop T d (cs @ [(None, io)]))) = take (k + n) d"
proof -
  note more = writeLoop_chunk [OF assms(2-4)]
  show "cerr = None \<Longrightarrow> n > 0 \<Longrightarrow> chunks_so_far T d (cs @ [(None, io)]) (k + n)"
    using assms(1) more by (simp add: chunks_so_far_def progressed_progressed take_add add.commute)
  show "cerr \<noteq> None \<or> n = 0 \<Longrightarrow> fst (writeLoop T d (cs @ [(None, io)])) =
         Ret (k + n) (Some (case cerr of Some e \<Rightarrow> e | None \<Rightarrow> Sentinel ErrNoProgress)) \<and>
       delivered (snd (writeLoop T d (cs @ [(None, io)]))) = take (k + n) d"
    using assms(1) more [of "[]"] by (auto simp: chunks_so_far_def take_add)
qed

lemma in_round_chunk:
  assumes "in_round c h k" "n \<le> length (drop k (cr_data (h_round h)))"
  shows "in_round c (addChunk x h\<lparr>h_total := h_total h + n,
    h_sent := h_sent h @ take n (drop k (cr_data (h_round h)))\<rparr>) (k + n)"
  using assms by (auto simp: in_round_def take_add)

lemma chunkReturns_flow:
  assumes T: "0 < tc_timeout c" and Ts: "tc_timeout (tr_clock s) = tc_timeout c"
    and time: "half_time c now l (tr_half s sd)"
    and fl: "flow c (tr_half s sd)" and step: "chunkReturns io sd s = Some s'"
  shows "flow c (tr_half s' sd)"
proof -
  let ?h = "tr_half s sd"
  let ?d = "cr_data (h_round ?h)"
  from step obtain dl p err n cerr where pc: "h_pc ?h = HWrite dl p err"
    and ret: "writeTunnelChunk (tc_timeout c) io = Ret n cerr" "n \<le> length p"
    by (auto simp: chunkReturns_def Let_def Ts split: half_pc.splits io_result.splits if_splits)
  from pc time have ne: "p \<noteq> []" by (simp add: half_time_def Let_def)
  from pc fl obtain k where k: "in_round c ?h k" "p = drop k ?d" "cr_err (h_round ?h) = err"
    "chunks_so_far (tc_timeout c) ?d (io_chunks (cr_write (h_round ?h))) k"
    by (auto simp: flow_def writing_def)
  define g where "g = addChunk (None, io) ?h\<lparr>h_total := h_total ?h + n, h_sent := h_sent ?h @ take n p\<rparr>"
  have s': "tr_half s' sd = (if n > 0 then g\<lparr>h_pc := HWrote (drop n p) cerr err\<rparr>
      else endCopy (Some (case cerr of Some e \<Rightarrow> e | None \<Rightarrow> Sentinel ErrNoProgress)) g)"
    using step pc ret by (auto simp: chunkReturns_def Let_def Ts g_def split: if_splits)
  have g: "in_round c g (k + n)" "h_round g = h_round (addChunk (None, io) ?h)"
    using in_round_chunk [OF k(1), of n "(None, io)"] ret(2) k(2) by (simp_all add: g_def)
  note w = chunk_written [OF k(4) ret(1) ret(2) [unfolded k(2)] ne [unfolded k(2)]]
  have stop: "fst (relay c (h_round g)) = Ret (k + n) (Some (case cerr of Some e \<Rightarrow> e | None \<Rightarrow> Sentinel ErrNoProgress))"
      "delivered (snd (relay c (h_round g))) = take (k + n) (cr_data (h_round g))" if "cerr \<noteq> None \<or> n = 0"
    using w(2) [OF that] by (simp_all add: relay_def g(2))
  show ?thesis
  proof (cases "n > 0")
    case True
    have "wrote c g (drop n p) cerr err"
    proof (cases cerr)
      case None
      with True w(1) g k(2,3) show ?thesis
        by (auto simp: wrote_def writing_def intro!: exI [of _ "k + n"]) (simp add: add.commute)
    next
      case (Some e)
      with stop g(1) show ?thesis by (auto simp: wrote_def)
    qed
    with True s' show ?thesis by (simp add: flow_def)
  next
    case False
    with s' flow_end_write [OF T g(1) stop(1) stop(2)] show ?thesis by simp
  qed
qed

lemma armFails_flow:
  assumes T: "0 < tc_timeout c" and time: "half_time c now l (tr_half s sd)"
    and fl: "flow c (tr_half s sd)" and step: "armFails e io sd s = Some s'"
  shows "flow c (tr_half s' sd)"
proof -
  let ?h = "tr_half s sd"
  from step obtain p err where pc: "h_pc ?h = HArmWrite p err"
    and s': "tr_half s' sd = endCopy (Some e) (addChunk (Some e, io) ?h)"
    by (auto simp: armFails_def split: half_pc.splits if_splits)
  from pc time have ne: "p \<noteq> []" by (simp add: half_time_def Let_def)
  from pc fl obtain k where k: "in_round c ?h k" "p = drop k (cr_data (h_round ?h))"
    "chunks_so_far (tc_timeout c) (cr_data (h_round ?h)) (io_chunks (cr_write (h_round ?h))) k"
    by (auto simp: flow_def writing_def)
  have "writeLoop (tc_timeout c) p [(Some e, io)] = (Ret 0 (Some e), [])" using ne by (cases p) simp_all
  with k have w: "fst (relay c (h_round (addChunk (Some e, io) ?h))) = Ret k (Some e)"
    "delivered (snd (relay c (h_round (addChunk (Some e, io) ?h)))) = take k (cr_data (h_round (addChunk (Some e, io) ?h)))"
    by (simp_all add: relay_def chunks_so_far_def)
  have "in_round c (addChunk (Some e, io) ?h) k" using k(1) by (simp add: in_round_def)
  from flow_end_write [OF T this w] s' show ?thesis by simp
qed

section \<open>Half-close and teardown\<close>

lemma shuffles_snoc:
  "zs \<in> shuffles xs ys \<Longrightarrow> zs @ ws \<in> shuffles (xs @ ws) ys \<and> zs @ ws \<in> shuffles xs (ys @ ws)"
proof (induction xs ys arbitrary: zs rule: shuffles.induct)
  case (1 ys)
  have "ys @ ws \<in> shuffles ws ys" by (induction ys) (auto simp: Cons_in_shuffles_rightI)
  with 1 show ?case by simp
next
  case (2 xs)
  have "xs @ ws \<in> shuffles xs ws" by (induction xs) (auto simp: Cons_in_shuffles_leftI)
  with 2 show ?case by simp
next
  case (3 x xs y ys)
  then show ?case by (auto intro: Cons_in_shuffles_leftI Cons_in_shuffles_rightI)
qed

text \<open>A tracked plain connection is not changed by closing it.\<close>

definition tracked :: "(side \<Rightarrow> net_conn) \<Rightarrow> bool" where
  "tracked conn \<longleftrightarrow> (\<forall>sd. case conn sd of Tracked _ _ \<Rightarrow> True | _ \<Rightarrow> False)"

lemma tracked_same:
  assumes "tracked conn"
  shows "snd (snd (forwardHalf sd (conn d) copy cw)) = conn d" "snd (closeConn sd (conn d)) = conn d"
  using assms [unfolded tracked_def, rule_format, of d]
  by (auto simp: forwardHalf_def closeWrite_def closeConn_def split: net_conn.splits prod.splits)

definition half_log :: "(side \<Rightarrow> net_conn) \<Rightarrow> side \<Rightarrow> half \<Rightarrow> bool" where
  "half_log conn sd h \<longleftrightarrow>
     (case h_pc h of
        HCopied e \<Rightarrow> h_log h = [] \<and> h_copied h = Some e
      | HClose d x \<Rightarrow>
          (\<exists>e. h_copied h = Some e \<and> fst (forwardHalf sd (conn sd) e (h_cw h)) = Some x \<and>
             h_log h = fst (snd (forwardHalf sd (conn sd) e (h_cw h))) @
               (if d = ClientSide then [] else fst (closeConn ClientSide (conn ClientSide))))
      | HDone x \<Rightarrow>
          (\<exists>e. h_copied h = Some e \<and>
             h_log h = forward sd (conn sd) (conn ClientSide) (conn PeerSide) e (h_cw h))
      | _ \<Rightarrow> h_log h = [])"

definition log_inv :: "(side \<Rightarrow> net_conn) \<Rightarrow> tunnel \<Rightarrow> bool" where
  "log_inv conn s \<longleftrightarrow>
     tracked conn \<and> tr_conn s = conn \<and> (\<forall>sd. half_log conn sd (tr_half s sd)) \<and>
     tr_log s \<in> shuffles (h_log (tr_half s PeerSide)) (h_log (tr_half s ClientSide))"

lemma log_inv_half:
  assumes "log_inv conn s" "tr_conn s' = tr_conn s" "\<And>d. d \<noteq> sd \<Longrightarrow> tr_half s' d = tr_half s d"
    and "half_log conn sd (tr_half s' sd)" "h_log (tr_half s' sd) = h_log (tr_half s sd) @ evs" "tr_log s' = tr_log s @ evs"
  shows "log_inv conn s'"
proof -
  have "half_log conn d (tr_half s' d)" for d using assms by (cases "d = sd") (auto simp: log_inv_def)
  moreover have "tr_log s' \<in> shuffles (h_log (tr_half s' PeerSide)) (h_log (tr_half s' ClientSide))"
    using assms shuffles_snoc [of "tr_log s" "h_log (tr_half s PeerSide)" "h_log (tr_half s ClientSide)" evs]
    by (cases sd) (simp_all add: log_inv_def)
  ultimately show ?thesis using assms(1,2) by (simp add: log_inv_def)
qed

lemma halfStep_log:
  assumes inv: "log_inv conn s" and step: "halfStep cw sd s = Some s'"
  shows "log_inv conn s'"
proof -
  let ?h = "tr_half s sd"
  from inv have tr: "tracked conn" "tr_conn s = conn" and l: "half_log conn sd ?h" by (auto simp: log_inv_def)
  note half = log_inv_half [OF inv, where sd = sd and s' = s']
  show ?thesis
  proof (cases "h_pc ?h")
    case (HCopied e)
    obtain x evs conn1 where f: "forwardHalf sd (conn sd) e cw = (x, evs, conn1)"
      by (cases "forwardHalf sd (conn sd) e cw")
    with tracked_same(1) [OF tr(1), of sd sd e cw] have "conn1 = conn sd" by simp
    with HCopied step l f tr(2) show ?thesis
      by (intro half [of evs])
        (auto simp: halfStep_def half_log_def logged_def forward_def Let_def split: option.splits)
  next
    case (HClose d x)
    have "d = ClientSide \<or> d = PeerSide" by (cases d) simp_all
    with HClose step l tr(2) tracked_same(2) [OF tr(1), of d d] show ?thesis
      by (intro half [of "fst (closeConn d (conn d))"])
        (auto simp: halfStep_def half_log_def logged_def goto_def forward_def Let_def split: prod.splits)
  qed (rule half [of "[]"]; use step l in \<open>auto simp: halfStep_def half_log_def storeTouch_def goto_def again_def idled_def
      afterChunk_def Let_def split: option.splits if_splits\<close>)+
qed

lemma world_log:
  assumes inv: "log_inv conn s"
    and step: "readReturns data err sd s = Some s' \<or> armFails e io sd s = Some s' \<or> chunkReturns io sd s = Some s'"
  shows "log_inv conn s'"
  by (rule log_inv_half [OF inv, where sd = sd and s' = s' and evs = "[]"])
    (use step inv [unfolded log_inv_def, THEN conjunct2, THEN conjunct2, THEN conjunct1, THEN spec, of sd] in
      \<open>auto simp: readReturns_def armFails_def chunkReturns_def half_log_def Let_def
        split: half_pc.splits if_splits io_result.splits\<close>)

section \<open>The invariant\<close>

definition tunnel_inv :: "tunnelClock \<Rightarrow> (side \<Rightarrow> net_conn) \<Rightarrow> tunnel \<Rightarrow> bool" where
  "tunnel_inv c conn s \<longleftrightarrow> time_inv c s \<and> (\<forall>sd. flow c (tr_half s sd)) \<and> log_inv conn s"

lemma step_other:
  "halfStep cw sd s = Some s' \<Longrightarrow> d \<noteq> sd \<Longrightarrow> tr_half s' d = tr_half s d"
  "readReturns data err sd s = Some s' \<Longrightarrow> d \<noteq> sd \<Longrightarrow> tr_half s' d = tr_half s d"
  "armFails e io sd s = Some s' \<Longrightarrow> d \<noteq> sd \<Longrightarrow> tr_half s' d = tr_half s d"
  "chunkReturns io sd s = Some s' \<Longrightarrow> d \<noteq> sd \<Longrightarrow> tr_half s' d = tr_half s d"
  by (auto simp: halfStep_def readReturns_def armFails_def chunkReturns_def goto_def logged_def Let_def
      split: half_pc.splits option.splits if_splits prod.splits io_result.splits)

lemma flow_step:
  assumes inv: "time_inv c s" "\<forall>sd. flow c (tr_half s sd)" and step: "tunnel_step s s'"
  shows "flow c (tr_half s' d)"
proof -
  note i = time_inv_dest [OF inv(1)]
  have T: "0 < tc_timeout c" "tc_timeout (tr_clock s) = tc_timeout c" using i(1) by (simp_all add: clock_ok_def)
  from step show ?thesis
  proof (cases rule: tunnel_step.cases)
    case (time t)
    then show ?thesis using inv(2) by (auto simp: passTime_def split: if_splits)
  next
    case (prog cw sd)
    with step_other(1) halfStep_flow [OF i(1)] inv(2) show ?thesis by (cases "d = sd") auto
  next
    case (read data err sd)
    with step_other(2) readReturns_flow inv(2) show ?thesis by (cases "d = sd") metis+
  next
    case (arm e io sd)
    with step_other(3) armFails_flow [OF T(1) i(2)] inv(2) show ?thesis by (cases "d = sd") metis+
  next
    case (chunk io sd)
    with step_other(4) chunkReturns_flow [OF T i(2)] inv(2) show ?thesis by (cases "d = sd") metis+
  qed
qed

lemma passTime_log: "log_inv conn s \<Longrightarrow> passTime t s = Some s' \<Longrightarrow> log_inv conn s'"
  by (auto simp: passTime_def log_inv_def split: if_splits)

lemma log_step: "log_inv conn s \<Longrightarrow> tunnel_step s s' \<Longrightarrow> log_inv conn s'"
  by (elim tunnel_stepE) (blast intro: passTime_log halfStep_log world_log)+

lemma tunnel_inv_step: "tunnel_inv c conn s \<Longrightarrow> tunnel_step s s' \<Longrightarrow> tunnel_inv c conn s'"
  by (auto simp: tunnel_inv_def intro: time_inv_step flow_step log_step)

abbreviation conns :: "bool \<Rightarrow> bool \<Rightarrow> int \<Rightarrow> int \<Rightarrow> side \<Rightarrow> net_conn" where
  "conns a b T now \<equiv> tr_conn (tunnel_start (PlainNet a) (PlainNet b) T now)"

lemma tunnel_inv_start:
  assumes "0 < T" "T < 2 ^ 63"
  shows "tunnel_inv (newTunnelClock T now) (conns a b T now) (tunnel_start (PlainNet a) (PlainNet b) T now)"
  using time_inv_start [OF assms, of now "PlainNet a" "PlainNet b"] assms(1)
  by (simp add: tunnel_inv_def log_inv_def tunnel_start_def half_start_def flow_def half_log_def tracked_def
      trackTunnelActivity_def newTunnelClock_def Let_def split: side.splits)

interpretation tunnel: transition_system "tunnel_start (PlainNet a) (PlainNet b) T now" tunnel_step
    "\<lambda>s. 0 < T \<and> T < 2 ^ 63 \<longrightarrow> tunnel_inv (newTunnelClock T now) (conns a b T now) s" for a b T now
  by unfold_locales (auto intro: tunnel_inv_start tunnel_inv_step)

section \<open>Silence\<close>

text \<open>The peers send nothing more: a read returns no bytes, only an error, a timeout or the end of the
  input. Time passes before a step, or not.\<close>

inductive silent_act :: "tunnel \<Rightarrow> tunnel \<Rightarrow> bool" where
  "halfStep cw sd s = Some s' \<Longrightarrow> silent_act s s'"
| "readReturns [] (Some e) sd s = Some s' \<Longrightarrow> silent_act s s'"
| "armFails e io sd s = Some s' \<Longrightarrow> silent_act s s'"
| "chunkReturns io sd s = Some s' \<Longrightarrow> silent_act s s'"

definition silent_step :: "tunnel \<Rightarrow> tunnel \<Rightarrow> bool" where
  "silent_step s s' \<longleftrightarrow> (\<exists>t s1. passTime t s = Some s1 \<and> silent_act s1 s')"

text \<open>What happens without any peer: a goroutine takes its next step, or the deadline of its read or write
  comes and the call fails with a timeout.\<close>

definition deadlineErr :: go_error where
  "deadlineErr = NetErr ''i/o timeout'' True None"

definition fullSocket :: chunk_io where
  "fullSocket = Descriptor None None [WouldBlock (Some deadlineErr)]"

definition past_write :: "side \<Rightarrow> tunnel \<Rightarrow> bool" where
  "past_write sd s \<longleftrightarrow> (case h_pc (tr_half s sd) of HWrite dl _ _ \<Rightarrow> dl \<le> tr_now s | _ \<Rightarrow> False)"

definition tunnel_own :: "tunnel \<Rightarrow> tunnel \<Rightarrow> bool" where
  "tunnel_own s s' \<longleftrightarrow>
     (\<exists>t s1 sd. passTime t s = Some s1 \<and>
        (halfStep None sd s1 = Some s' \<or> readReturns [] (Some deadlineErr) sd s1 = Some s' \<or>
         past_write sd s1 \<and> chunkReturns fullSocket sd s1 = Some s'))"

fun touches_left :: "half_pc \<Rightarrow> nat" where
  "touches_left (HTouch p _) = Suc (length p)"
| "touches_left (HStamp _ p _) = Suc (length p)"
| "touches_left (HArmWrite p _) = length p"
| "touches_left (HWrite _ p _) = length p"
| "touches_left (HWrote rest _ _) = Suc (length rest)"
| "touches_left (HWroteStamp _ rest _ _) = Suc (length rest)"
| "touches_left _ = 0"

text \<open>The rank of a direction. A direction whose last look at the clock is out of date goes through one more
  round; only the records of progress still to come, at most one per byte in flight, can make it so.\<close>

fun pc_rank :: "nat \<Rightarrow> half_pc \<Rightarrow> nat" where
  "pc_rank k HCheck = 8"
| "pc_rank k (HArm _) = 7 + k"
| "pc_rank k (HRead _) = 6 + k"
| "pc_rank k (HTouch _ _) = 15"
| "pc_rank k (HStamp _ _ _) = 14"
| "pc_rank k (HArmWrite _ _) = 17"
| "pc_rank k (HWrite _ _ _) = 16"
| "pc_rank k (HWrote _ _ _) = 15"
| "pc_rank k (HWroteStamp _ _ _ _) = 14"
| "pc_rank k (HAfter None) = 9"
| "pc_rank k (HAfter (Some _)) = 5 + k"
| "pc_rank k HIdle = 4 + k"
| "pc_rank k (HCopied _) = 3"
| "pc_rank k (HClose ClientSide _) = 2"
| "pc_rank k (HClose PeerSide _) = 1"
| "pc_rank k (HDone _) = 0"

definition half_rank :: "int \<Rightarrow> half \<Rightarrow> nat" where
  "half_rank l h = 16 * touches_left (h_pc h) + pc_rank (if h_seen h = l then 0 else 8) (h_pc h)"

definition tunnel_rank :: "tunnel \<Rightarrow> nat" where
  "tunnel_rank s =
     half_rank (tc_last (tr_clock s)) (tr_half s ClientSide) + half_rank (tc_last (tr_clock s)) (tr_half s PeerSide)"

lemma pc_rank_stale: "pc_rank k pc \<le> pc_rank 0 pc + k"
  by (cases "(k, pc)" rule: pc_rank.cases) simp_all

lemma pc_rank_mono: "pc_rank 0 pc \<le> pc_rank k pc"
  by (cases "(k, pc)" rule: pc_rank.cases) simp_all

lemma half_rank_stale: "half_rank l' h \<le> half_rank l h + 8"
  using pc_rank_stale [of 8 "h_pc h"] pc_rank_mono [of "h_pc h" 8] by (simp add: half_rank_def)

lemma pc_rank_bound: "pc_rank (if b then 0 else 8) pc \<le> 17"
  by (cases "(0 :: nat, pc)" rule: pc_rank.cases) simp_all

text \<open>Either the clock is untouched and the direction's rank falls, or a record of progress was stored and it
  falls by more than the other direction's can rise.\<close>

lemma tunnel_rank_less:
  assumes "\<And>d. d \<noteq> sd \<Longrightarrow> tr_half s' d = tr_half s d"
    and "tc_last (tr_clock s') = tc_last (tr_clock s) \<and>
        half_rank (tc_last (tr_clock s)) (tr_half s' sd) < half_rank (tc_last (tr_clock s)) (tr_half s sd) \<or>
      half_rank (tc_last (tr_clock s')) (tr_half s' sd) + 8 < half_rank (tc_last (tr_clock s)) (tr_half s sd)"
  shows "tunnel_rank s' < tunnel_rank s"
proof -
  have d: "d = sd \<or> tr_half s' d = tr_half s d" for d using assms(1) by blast
  note st = half_rank_stale [of "tc_last (tr_clock s')" _ "tc_last (tr_clock s)"]
  show ?thesis
    using assms(2) d [of ClientSide] d [of PeerSide] st [of "tr_half s ClientSide"] st [of "tr_half s PeerSide"]
      assms(1) [of ClientSide] assms(1) [of PeerSide]
    by (cases sd) (auto simp: tunnel_rank_def)
qed

lemma halfStep_rank:
  assumes inv: "time_inv c s" and step: "halfStep cw sd s = Some s'"
  shows "tunnel_rank s' < tunnel_rank s"
proof (rule tunnel_rank_less [OF step_other(1) [OF step]])
  note i = time_inv_dest(2) [OF inv, of sd] and x = clock_exact [OF time_inv_dest(1) [OF inv]]
  have s': "s' = the (halfStep cw sd s)" using step by simp
  have stale: "\<not> idle (tr_clock s) (quiet s) \<Longrightarrow> h_pc (tr_half s sd) = HIdle \<Longrightarrow>
      h_seen (tr_half s sd) \<noteq> tc_last (tr_clock s)"
    using i x by (auto simp: half_time_def Let_def)
  show "tc_last (tr_clock s') = tc_last (tr_clock s) \<and>
        half_rank (tc_last (tr_clock s)) (tr_half s' sd) < half_rank (tc_last (tr_clock s)) (tr_half s sd) \<or>
      half_rank (tc_last (tr_clock s')) (tr_half s' sd) + 8 < half_rank (tc_last (tr_clock s)) (tr_half s sd)"
  proof (cases "h_pc (tr_half s sd)")
    case HIdle
    show ?thesis
    proof (cases "idle (tr_clock s) (quiet s)")
      case True
      with HIdle step have "s' = setHalf sd (idled s (tr_half s sd\<lparr>h_round := h_round (tr_half s sd)
          \<lparr>cr_quiet_after := quiet s\<rparr>\<rparr>)) s" by (simp add: halfStep_def Let_def)
      with HIdle show ?thesis by (simp add: half_rank_def idled_def)
    next
      case False
      from False HIdle step have "s' = setHalf sd (again (tr_half s sd\<lparr>h_round := h_round (tr_half s sd)
          \<lparr>cr_quiet_after := quiet s\<rparr>\<rparr>)) s" by (simp add: halfStep_def Let_def)
      with HIdle stale [OF False HIdle] show ?thesis by (simp add: half_rank_def again_def)
    qed
  next
    case (HAfter err)
    then show ?thesis
      by (cases err) (simp_all add: s' halfStep_def Let_def half_rank_def goto_def again_def)
  next
    case (HClose d e)
    then show ?thesis
      by (cases d) (simp_all add: s' halfStep_def Let_def half_rank_def goto_def logged_def split: prod.splits)
  next
    case (HWroteStamp t rest cerr err)
    then show ?thesis
      by (cases err) (simp_all add: s' halfStep_def Let_def half_rank_def afterChunk_def split: option.splits)
  next
    case (HCopied err)
    then show ?thesis
      by (simp add: s' halfStep_def Let_def half_rank_def logged_def split: prod.splits option.splits)
  qed (use step in \<open>simp_all add: s' halfStep_def Let_def half_rank_def goto_def idled_def\<close>)
qed

lemma world_rank:
  assumes inv: "time_inv c s"
    and step: "readReturns [] (Some e) sd s = Some s' \<or> armFails e io sd s = Some s' \<or> chunkReturns io sd s = Some s'"
  shows "tunnel_rank s' < tunnel_rank s"
proof (rule tunnel_rank_less [where sd = sd])
  show "tr_half s' d = tr_half s d" if "d \<noteq> sd" for d using step step_other(2-4) that by metis
  have "half_rank (tc_last (tr_clock s)) (tr_half s' sd) < half_rank (tc_last (tr_clock s)) (tr_half s sd)"
    "tr_clock s' = tr_clock s"
    using step by (auto simp: readReturns_def armFails_def chunkReturns_def half_rank_def Let_def
        split: half_pc.splits if_splits io_result.splits)
  then show "tc_last (tr_clock s') = tc_last (tr_clock s) \<and>
        half_rank (tc_last (tr_clock s)) (tr_half s' sd) < half_rank (tc_last (tr_clock s)) (tr_half s sd) \<or>
      half_rank (tc_last (tr_clock s')) (tr_half s' sd) + 8 < half_rank (tc_last (tr_clock s)) (tr_half s sd)" by simp
qed

lemma silent_act_step: "silent_act s s' \<Longrightarrow> tunnel_step s s'"
  by (auto elim!: silent_act.cases intro: tunnel_step.intros)

lemma silent_step_inv: "tunnel_inv c conn s \<Longrightarrow> silent_step s s' \<Longrightarrow> tunnel_inv c conn s'"
  unfolding silent_step_def by (blast intro: tunnel_inv_step tunnel_step.time silent_act_step)

lemma silent_step_rank:
  assumes "tunnel_inv c conn s" "silent_step s s'"
  shows "tunnel_rank s' < tunnel_rank s"
proof -
  from assms(2) obtain t s1 where s1: "passTime t s = Some s1" "silent_act s1 s'" by (auto simp: silent_step_def)
  from s1(1) assms(1) have "time_inv c s1" by (auto simp: tunnel_inv_def intro: passTime_time)
  with s1(2) have "tunnel_rank s' < tunnel_rank s1"
    by (cases rule: silent_act.cases) (blast intro: halfStep_rank world_rank)+
  also have "tunnel_rank s1 = tunnel_rank s" using s1(1) by (auto simp: passTime_def tunnel_rank_def split: if_splits)
  finally show ?thesis .
qed

text \<open>The tunnel is over, or so old that its clock is about to saturate.\<close>

definition tunnel_over :: "tunnel \<Rightarrow> bool" where
  "tunnel_over s \<longleftrightarrow> (\<forall>sd. case h_pc (tr_half s sd) of HDone _ \<Rightarrow> True | _ \<Rightarrow> False)"

definition clock_exhausted :: "tunnel \<Rightarrow> bool" where
  "clock_exhausted s \<longleftrightarrow> tr_now s - tc_origin (tr_clock s) + tc_timeout (tr_clock s) \<ge> 2 ^ 63"

lemma deadlineErr_simps [simp]: "isTimeoutError deadlineErr" "foreign (Some deadlineErr)" "timed_out (Some deadlineErr)"
  by (simp_all add: deadlineErr_def isTimeoutError_def foreign_def errors_is_def timed_out_def)

lemma fullSocket_chunk [simp]: "writeTunnelChunk T fullSocket = Ret 0 (Some deadlineErr)"
  by (simp add: fullSocket_def)

lemma wait_until:
  assumes "time_inv c s" "\<not> clock_exhausted s" "dl \<le> tr_now s + tc_timeout c"
  shows "passTime (max (tr_now s) dl) s = Some (s\<lparr>tr_now := max (tr_now s) dl\<rparr>)"
  using assms by (auto simp: passTime_def clock_exhausted_def time_inv_def clock_ok_def)

lemma tunnel_progress:
  assumes inv: "time_inv c s" and live: "\<not> tunnel_over s" "\<not> clock_exhausted s"
  shows "\<exists>s'. tunnel_own s s'"
proof -
  from live(1) obtain sd where nd: "\<nexists>e. h_pc (tr_half s sd) = HDone e"
    by (auto simp: tunnel_over_def split: half_pc.splits)
  have now: "passTime (tr_now s) s = Some s"
    using inv by (simp add: passTime_def time_inv_def clock_ok_def)
  note i = time_inv_dest(2) [OF inv, of sd]
  show ?thesis
  proof (cases "\<exists>s'. halfStep None sd s = Some s'")
    case True
    with now show ?thesis by (auto simp: tunnel_own_def)
  next
    case False
    then have "(\<exists>dl. h_pc (tr_half s sd) = HRead dl) \<or> (\<exists>dl p err. h_pc (tr_half s sd) = HWrite dl p err)"
      using nd by (cases "h_pc (tr_half s sd)") (auto simp: halfStep_def Let_def split: prod.splits option.splits if_splits)
    then show ?thesis
    proof (elim disjE exE)
      fix dl assume read: "h_pc (tr_half s sd) = HRead dl"
      with i have "dl \<le> tr_now s + tc_timeout c" by (simp add: half_time_def Let_def)
      note w = wait_until [OF inv live(2) this]
      have "\<exists>s'. readReturns [] (Some deadlineErr) sd (s\<lparr>tr_now := max (tr_now s) dl\<rparr>) = Some s'"
        using read by (simp add: readReturns_def Let_def)
      with w show ?thesis unfolding tunnel_own_def by blast
    next
      fix dl p err assume wt: "h_pc (tr_half s sd) = HWrite dl p err"
      with i have "dl \<le> tr_now s + tc_timeout c" by (simp add: half_time_def Let_def)
      note w = wait_until [OF inv live(2) this]
      have "\<exists>s'. chunkReturns fullSocket sd (s\<lparr>tr_now := max (tr_now s) dl\<rparr>) = Some s'"
        "past_write sd (s\<lparr>tr_now := max (tr_now s) dl\<rparr>)"
        using wt by (simp_all add: chunkReturns_def past_write_def Let_def)
      with w show ?thesis unfolding tunnel_own_def by blast
    qed
  qed
qed

lemma tunnel_own_silent: "tunnel_own s s' \<Longrightarrow> silent_step s s'"
  unfolding tunnel_own_def silent_step_def by (blast intro: silent_act.intros)

interpretation silent: ranked_system "tunnel_start (PlainNet a) (PlainNet b) T now" silent_step
    "\<lambda>s. 0 < T \<and> T < 2 ^ 63 \<longrightarrow> tunnel_inv (newTunnelClock T now) (conns a b T now) s"
    "\<lambda>s. 0 < T \<and> T < 2 ^ 63" tunnel_rank "\<lambda>s. tunnel_over s \<or> clock_exhausted s" tunnel_own for a b T now
proof unfold_locales
  fix s s'
  assume i: "0 < T \<and> T < 2 ^ 63 \<longrightarrow> tunnel_inv (newTunnelClock T now) (conns a b T now) s" "0 < T \<and> T < 2 ^ 63"
  show "s' \<noteq> s" if "tunnel_own s s'"
    using silent_step_rank [OF _ tunnel_own_silent [OF that]] i by blast
  show "s' = s \<or> tunnel_rank s' < tunnel_rank s" if "silent_step s s'"
    using silent_step_rank [OF _ that] i by blast
  show "\<exists>s'. tunnel_own s s'" if "\<not> (tunnel_over s \<or> clock_exhausted s)"
    using tunnel_progress [of "newTunnelClock T now" s] i that by (auto simp: tunnel_inv_def)
qed (auto intro: tunnel_inv_start silent_step_inv tunnel_own_silent)

text \<open>What a finished direction has done.\<close>

lemma half_result:
  assumes "tunnel_inv c cs s" "0 < tc_timeout c" "tunnel_over s"
  shows "\<exists>e. h_copied (tr_half s sd) = Some e \<and>
      fst (idleCopy (tunnelWrite c) c (h_rounds (tr_half s sd))) = Ret (h_total (tr_half s sd)) e \<and>
      h_sent (tr_half s sd) = delivered (snd (idleCopy (tunnelWrite c) c (h_rounds (tr_half s sd)))) \<and>
      prefix (h_sent (tr_half s sd)) (concat (map cr_data (h_rounds (tr_half s sd)))) \<and>
      (e = None \<longrightarrow> h_sent (tr_half s sd) = concat (map cr_data (h_rounds (tr_half s sd)))) \<and>
      h_log (tr_half s sd) = forward sd (cs sd) (cs ClientSide) (cs PeerSide) e (h_cw (tr_half s sd))"
proof -
  obtain x where x: "h_pc (tr_half s sd) = HDone x"
    using assms(3) by (cases "h_pc (tr_half s sd)") (auto simp: tunnel_over_def dest: spec [of _ sd])
  have "flow c (tr_half s sd)" "half_log cs sd (tr_half s sd)"
    using assms(1) by (auto simp: tunnel_inv_def log_inv_def)
  with x assms(2) show ?thesis by (auto simp: flow_def half_log_def idleCopy_def)
qed

section \<open>Properties\<close>

text \<open>C7: Every interleaving of a tunnel is one that its functions describe. When \<^verbatim>\<open>forwardTunnel\<close> has
  returned, each direction has delivered what \<^verbatim>\<open>idleCopy\<close> delivers for the reads, writes and quiet times it
  met, which is a prefix of the bytes it read, and all of them if it ended without an error; and the
  connections were half-closed and closed in one of the ways that \<^verbatim>\<open>forwardTunnel\<close> allows after these
  results.\<close>

theorem tunnel_refines:
  assumes "0 < T" "T < 2 ^ 63" "tunnel_reach a b T now s" "tunnel_over s"
  shows "let c = newTunnelClock T now; up = tr_half s PeerSide; down = tr_half s ClientSide
    in tr_log s \<in> forwardTunnel (PlainNet a) (PlainNet b) T now (fst (idleCopy (tunnelWrite c) c (h_rounds up)))
         (fst (idleCopy (tunnelWrite c) c (h_rounds down))) (h_cw up) (h_cw down) \<and>
       (\<forall>h \<in> {up, down}.
          h_sent h = delivered (snd (idleCopy (tunnelWrite c) c (h_rounds h))) \<and>
          prefix (h_sent h) (concat (map cr_data (h_rounds h))) \<and>
          (h_copied h = Some None \<longrightarrow> h_sent h = concat (map cr_data (h_rounds h))))"
proof -
  define c where "c = newTunnelClock T now"
  have inv: "tunnel_inv c (conns a b T now) s"
    using tunnel.reach_inv [OF assms(3)] assms(1,2) by (simp add: c_def)
  have "0 < tc_timeout c" using assms(1) by (simp add: c_def newTunnelClock_def)
  note f = half_result [OF inv this assms(4)]
  obtain eu ed where
    u: "fst (idleCopy (tunnelWrite c) c (h_rounds (tr_half s PeerSide))) = Ret (h_total (tr_half s PeerSide)) eu"
      "h_log (tr_half s PeerSide) = forward PeerSide (conns a b T now PeerSide) (conns a b T now ClientSide)
         (conns a b T now PeerSide) eu (h_cw (tr_half s PeerSide))"
    and d: "fst (idleCopy (tunnelWrite c) c (h_rounds (tr_half s ClientSide))) = Ret (h_total (tr_half s ClientSide)) ed"
      "h_log (tr_half s ClientSide) = forward ClientSide (conns a b T now ClientSide) (conns a b T now ClientSide)
         (conns a b T now PeerSide) ed (h_cw (tr_half s ClientSide))"
    using f [of PeerSide] f [of ClientSide] by blast
  have "tr_log s \<in> shuffles (h_log (tr_half s PeerSide)) (h_log (tr_half s ClientSide))"
    using inv by (simp add: tunnel_inv_def log_inv_def)
  then have "tr_log s \<in> forwardTunnel (PlainNet a) (PlainNet b) T now
     (fst (idleCopy (tunnelWrite c) c (h_rounds (tr_half s PeerSide))))
     (fst (idleCopy (tunnelWrite c) c (h_rounds (tr_half s ClientSide))))
     (h_cw (tr_half s PeerSide)) (h_cw (tr_half s ClientSide))"
    unfolding u d by (simp add: forwardTunnel_def tunnel_start_def Let_def)
  with f [of PeerSide] f [of ClientSide] show ?thesis unfolding Let_def c_def [symmetric] by auto
qed

text \<open>A tunnel in which the client's greeting is relayed, the client then closes its side, and the idle timeout
  of 100 ns ends the other direction.\<close>

definition sample_greeting :: "(tunnel \<Rightarrow> tunnel option) list" where
  "sample_greeting =
     [halfStep None PeerSide, halfStep None PeerSide, halfStep None ClientSide, halfStep None ClientSide, passTime 5,
      readReturns ''hi'' (Some (Sentinel EOF)) PeerSide, halfStep None PeerSide, passTime 7, halfStep None PeerSide,
      halfStep None PeerSide, chunkReturns (Descriptor None None [Wrote 2]) PeerSide, halfStep None PeerSide]"

definition sample_timeout :: "(tunnel \<Rightarrow> tunnel option) list" where
  "sample_timeout =
     [halfStep None PeerSide, halfStep None PeerSide, halfStep None PeerSide, passTime 103,
      readReturns [] (Some deadlineErr) ClientSide, halfStep None ClientSide, halfStep None ClientSide,
      halfStep None ClientSide, halfStep None ClientSide, passTime 107, readReturns [] (Some deadlineErr) ClientSide,
      halfStep None ClientSide, halfStep None ClientSide, halfStep None ClientSide, halfStep None ClientSide,
      halfStep None ClientSide]"

lemma sample_steps: "f \<in> set (sample_greeting @ sample_timeout) \<Longrightarrow> f s = Some s' \<Longrightarrow> tunnel_step s s'"
  by (auto simp: sample_greeting_def sample_timeout_def intro: tunnel_step.intros)

lemma sample_tunnel:
  "\<exists>s. play (sample_greeting @ sample_timeout) (tunnel_start (PlainNet True) (PlainNet True) 100 0) = Some s \<and>
     tunnel_reach True True 100 0 s \<and>
     h_pc (tr_half s PeerSide) = HDone None \<and> h_pc (tr_half s ClientSide) = HDone (Some (Sentinel ErrTunnelIdle)) \<and>
     h_sent (tr_half s PeerSide) = ''hi'' \<and> h_copied (tr_half s ClientSide) = Some (Some (Sentinel ErrTunnelIdle)) \<and>
     tr_touches s = [(PeerSide, 5), (PeerSide, 7)] \<and> h_verdict (tr_half s ClientSide) = Some (107, 2) \<and>
     tr_log s = [HalfClose PeerSide, CloseConn ClientSide, CloseConn PeerSide]"
proof -
  have "case play (sample_greeting @ sample_timeout) (tunnel_start (PlainNet True) (PlainNet True) 100 0) of
      None \<Rightarrow> False
    | Some s \<Rightarrow>
        h_pc (tr_half s PeerSide) = HDone None \<and> h_pc (tr_half s ClientSide) = HDone (Some (Sentinel ErrTunnelIdle)) \<and>
        h_sent (tr_half s PeerSide) = ''hi'' \<and> h_copied (tr_half s ClientSide) = Some (Some (Sentinel ErrTunnelIdle)) \<and>
        tr_touches s = [(PeerSide, 5), (PeerSide, 7)] \<and> h_verdict (tr_half s ClientSide) = Some (107, 2) \<and>
        tr_log s = [HalfClose PeerSide, CloseConn ClientSide, CloseConn PeerSide]"
    by code_simp
  moreover have "tunnel_reach True True 100 0 s"
    if "play (sample_greeting @ sample_timeout) (tunnel_start (PlainNet True) (PlainNet True) 100 0) = Some s" for s
    by (rule play_reach [OF that reach_init]) (rule sample_steps)
  ultimately show ?thesis by (auto split: option.splits)
qed

theorem tunnel_refines_witness:
  "\<exists>s. tunnel_over s \<and> h_sent (tr_half s PeerSide) = ''hi'' \<and>
     tr_log s = [HalfClose PeerSide, CloseConn ClientSide, CloseConn PeerSide] \<and>
     prefix ''hi'' (concat (map cr_data (h_rounds (tr_half s PeerSide))))"
proof -
  from sample_tunnel obtain s where s: "tunnel_reach True True 100 0 s" "h_pc (tr_half s PeerSide) = HDone None"
    "h_pc (tr_half s ClientSide) = HDone (Some (Sentinel ErrTunnelIdle))" "h_sent (tr_half s PeerSide) = ''hi''"
    "tr_log s = [HalfClose PeerSide, CloseConn ClientSide, CloseConn PeerSide]" by blast
  have over: "tunnel_over s" unfolding tunnel_over_def
  proof
    fix sd show "case h_pc (tr_half s sd) of HDone _ \<Rightarrow> True | _ \<Rightarrow> False" using s(2,3) by (cases sd) simp_all
  qed
  from tunnel_refines [OF _ _ s(1) this]
  have "prefix (h_sent (tr_half s PeerSide)) (concat (map cr_data (h_rounds (tr_half s PeerSide))))"
    unfolding Let_def by auto
  with over s(4,5) show ?thesis by auto
qed

text \<open>C8: No tunnel is cut while it is in use. If a direction ended with the idle timeout, then at the moment it
  found the tunnel idle, a whole timeout had passed since every progress recorded by then, in this or the
  other direction: bytes that keep moving one way keep the whole tunnel open.\<close>

theorem tunnel_idle_quiet:
  assumes "0 < T" "T < 2 ^ 63" "tunnel_reach a b T now s"
    and "h_copied (tr_half s sd) = Some (Some e)" "errors_is e ErrTunnelIdle"
  shows "\<exists>t n. h_verdict (tr_half s sd) = Some (t, n) \<and> n \<le> length (tr_touches s) \<and>
    (\<forall>x \<in> set (take n (tr_touches s)). snd x + T \<le> t)"
proof -
  have "verdict_ok (newTunnelClock T now) (tr_touches s) (tr_half s sd)"
    using tunnel.reach_inv [OF assms(3)] assms(1,2) by (auto simp: tunnel_inv_def time_inv_def)
  with assms(4,5) show ?thesis
    by (auto simp: verdict_ok_def list_all_iff newTunnelClock_def split: option.splits)
qed

theorem tunnel_idle_quiet_witness:
  "\<exists>s :: tunnel. h_verdict (tr_half s ClientSide) = Some (107, 2) \<and> tr_touches s = [(PeerSide, 5), (PeerSide, 7)] \<and>
     (\<forall>x \<in> set (tr_touches s). snd x + 100 \<le> 107)"
proof -
  from sample_tunnel obtain s where s: "tunnel_reach True True 100 0 s"
    "h_copied (tr_half s ClientSide) = Some (Some (Sentinel ErrTunnelIdle))"
    "tr_touches s = [(PeerSide, 5), (PeerSide, 7)]" "h_verdict (tr_half s ClientSide) = Some (107, 2)" by blast
  have "errors_is (Sentinel ErrTunnelIdle) ErrTunnelIdle" by (simp add: errors_is_def)
  from tunnel_idle_quiet [OF _ _ s(1,2) this] s(3,4) have "\<forall>x \<in> set (tr_touches s). snd x + 100 \<le> 107" by simp
  with s(3,4) show ?thesis by blast
qed



end
