(* ===== verification/Idle_Shutdown.thy ===== *)
theory Idle_Shutdown
  imports Transition
begin

text \<open>
  The shutdown of one client connection, where two goroutines meet: the session, which waits for the
  next request in \<^verbatim>\<open>readRequest\<close>, and the watcher that \<^verbatim>\<open>handleClientCtx\<close> starts, which closes an idle
  connection in \<^verbatim>\<open>beginShutdown\<close> (src/internal/proxy/forward.go). They share the flag \<^verbatim>\<open>idle\<close> under the
  mutex \<^verbatim>\<open>mu\<close>. The model takes one step per lock operation, test or assignment, and the environment
  cancels the context and makes the blocked read return whenever it likes. The invariant shows that
  shutdown never closes a connection under a request that is being served, and never misses an idle one.
\<close>

section \<open>The two goroutines\<close>

text \<open>The session: before \<^verbatim>\<open>readRequest\<close> locks, holding the lock before the test of the context,
  holding it after the test, blocked in \<^verbatim>\<open>http.ReadRequest\<close>, after the read (with its success), holding
  the lock again, before the second test, serving a request, and finished.\<close>

datatype session_pc =
  AtLock | AtTest | AtIdle | Reading | GotRequest bool | Relocked bool | AtRetest bool | Serving | Finished

text \<open>The watcher: in its select, before the lock of \<^verbatim>\<open>beginShutdown\<close>, holding it, before the deferred
  unlock, and finished.\<close>

datatype watch_pc = Watching | WantLock | Holding | Unlocking | WatchDone

datatype holder = BySession | ByWatcher

record conn_state =
  cn_done :: bool
  cn_mu :: "holder option"
  cn_idle :: bool
  cn_closed :: bool
  cn_session :: session_pc
  cn_watch :: watch_pc

definition conn_start :: conn_state where
  "conn_start = \<lparr>cn_done = False, cn_mu = None, cn_idle = False, cn_closed = False, cn_session = AtLock,
     cn_watch = Watching\<rparr>"

text \<open>The session's own next step; \<open>None\<close> while it is blocked on the lock or in the read, and when it
  has finished. \<open>serve_again\<close> is whether the connection carries a further request.\<close>

definition readRequestStep :: "conn_state \<Rightarrow> bool \<Rightarrow> conn_state option" where
  "readRequestStep s serve_again =
     (case cn_session s of
        AtLock \<Rightarrow> if cn_mu s = None then Some (s\<lparr>cn_mu := Some BySession, cn_session := AtTest\<rparr>) else None
      | AtTest \<Rightarrow>
          if cn_done s then Some (s\<lparr>cn_mu := None, cn_session := Finished\<rparr>)
          else Some (s\<lparr>cn_session := AtIdle\<rparr>)
      | AtIdle \<Rightarrow> Some (s\<lparr>cn_idle := True, cn_mu := None, cn_session := Reading\<rparr>)
      | Reading \<Rightarrow> None
      | GotRequest ok \<Rightarrow>
          if cn_mu s = None then Some (s\<lparr>cn_mu := Some BySession, cn_session := Relocked ok\<rparr>) else None
      | Relocked ok \<Rightarrow> Some (s\<lparr>cn_idle := False, cn_mu := None, cn_session := AtRetest ok\<rparr>)
      | AtRetest ok \<Rightarrow>
          if cn_done s \<or> \<not> ok then Some (s\<lparr>cn_session := Finished\<rparr>)
          else Some (s\<lparr>cn_session := Serving\<rparr>)
      | Serving \<Rightarrow> Some (s\<lparr>cn_session := (if serve_again then AtLock else Finished)\<rparr>)
      | Finished \<Rightarrow> None)"

definition beginShutdown :: "conn_state \<Rightarrow> conn_state option" where
  "beginShutdown s =
     (case cn_watch s of
        WantLock \<Rightarrow> if cn_mu s = None then Some (s\<lparr>cn_mu := Some ByWatcher, cn_watch := Holding\<rparr>) else None
      | Holding \<Rightarrow>
          Some (if cn_idle s then s\<lparr>cn_closed := True, cn_watch := Unlocking\<rparr> else s\<lparr>cn_watch := Unlocking\<rparr>)
      | Unlocking \<Rightarrow> Some (s\<lparr>cn_mu := None, cn_watch := WatchDone\<rparr>)
      | _ \<Rightarrow> None)"

text \<open>The watcher's select: the context is done, or the session has returned and closed \<^verbatim>\<open>stopWatch\<close>.\<close>

definition watchSelect :: "conn_state \<Rightarrow> conn_state option" where
  "watchSelect s =
     (if cn_watch s = Watching \<and> cn_done s then Some (s\<lparr>cn_watch := WantLock\<rparr>)
      else if cn_watch s = Watching \<and> cn_session s = Finished then Some (s\<lparr>cn_watch := WatchDone\<rparr>)
      else None)"

section \<open>Runs\<close>

text \<open>A blocked read returns a request only while the connection is open; it may fail at any time.\<close>

inductive conn_step :: "conn_state \<Rightarrow> conn_state \<Rightarrow> bool" where
  cancel: "conn_step s (s\<lparr>cn_done := True\<rparr>)"
| session: "readRequestStep s serve_again = Some s' \<Longrightarrow> conn_step s s'"
| arrive: "cn_session s = Reading \<Longrightarrow> \<not> cn_closed s \<Longrightarrow> conn_step s (s\<lparr>cn_session := GotRequest True\<rparr>)"
| fail: "cn_session s = Reading \<Longrightarrow> conn_step s (s\<lparr>cn_session := GotRequest False\<rparr>)"
| select: "watchSelect s = Some s' \<Longrightarrow> conn_step s s'"
| shutdown: "beginShutdown s = Some s' \<Longrightarrow> conn_step s s'"

inductive_cases conn_stepE: "conn_step s s'"

abbreviation conn_reach :: "conn_state \<Rightarrow> bool" where
  "conn_reach \<equiv> reach conn_start conn_step"

section \<open>The invariant\<close>

fun session_holds :: "session_pc \<Rightarrow> bool" where
  "session_holds AtTest = True"
| "session_holds AtIdle = True"
| "session_holds (Relocked _) = True"
| "session_holds _ = False"

fun watcher_holds :: "watch_pc \<Rightarrow> bool" where
  "watcher_holds Holding = True"
| "watcher_holds Unlocking = True"
| "watcher_holds _ = False"

fun waiting :: "session_pc \<Rightarrow> bool" where
  "waiting Reading = True"
| "waiting (GotRequest _) = True"
| "waiting (Relocked _) = True"
| "waiting _ = False"

text \<open>The lock is held by whoever is in its critical section; the flag is set exactly while the session
  waits; the connection is closed only after the context was done and never while a request is served;
  and once the watcher has acted on a done context, a waiting session has lost its connection.\<close>

definition conn_inv :: "conn_state \<Rightarrow> bool" where
  "conn_inv s \<longleftrightarrow>
     (cn_mu s = Some BySession \<longleftrightarrow> session_holds (cn_session s)) \<and>
     (cn_mu s = Some ByWatcher \<longleftrightarrow> watcher_holds (cn_watch s)) \<and>
     (cn_idle s \<longleftrightarrow> waiting (cn_session s)) \<and>
     (cn_closed s \<longrightarrow> cn_done s \<and> cn_session s \<noteq> Serving) \<and>
     (cn_closed s \<longrightarrow> cn_session s \<notin> {AtIdle}) \<and>
     (cn_watch s \<noteq> Watching \<and> cn_session s \<noteq> Finished \<longrightarrow> cn_done s) \<and>
     (cn_watch s \<in> {Unlocking, WatchDone} \<and> (waiting (cn_session s) \<or> cn_session s = AtIdle) \<longrightarrow> cn_closed s)"

lemma conn_inv_start: "conn_inv conn_start"
  by (simp add: conn_inv_def conn_start_def)

lemma readRequestStep_inv: "conn_inv s \<Longrightarrow> readRequestStep s g = Some s' \<Longrightarrow> conn_inv s'"
  by (cases "cn_session s"; cases "cn_watch s";
      clarsimp simp: conn_inv_def readRequestStep_def split: if_splits)

lemma watchSelect_inv: "conn_inv s \<Longrightarrow> watchSelect s = Some s' \<Longrightarrow> conn_inv s'"
  by (cases "cn_session s"; cases "cn_watch s"; clarsimp simp: conn_inv_def watchSelect_def split: if_splits)

lemma beginShutdown_inv: "conn_inv s \<Longrightarrow> beginShutdown s = Some s' \<Longrightarrow> conn_inv s'"
  by (cases "cn_session s"; cases "cn_watch s"; clarsimp simp: conn_inv_def beginShutdown_def split: if_splits)

lemma conn_step_inv: "conn_step s s' \<Longrightarrow> conn_inv s \<Longrightarrow> conn_inv s'"
proof (induction rule: conn_step.induct)
  case (session s g s')
  then show ?case by (auto intro: readRequestStep_inv)
next
  case (select s s')
  then show ?case by (auto intro: watchSelect_inv)
next
  case (shutdown s s')
  then show ?case by (auto intro: beginShutdown_inv)
qed (auto simp: conn_inv_def)

lemma close_step:
  "conn_step s s' \<Longrightarrow> conn_inv s \<Longrightarrow> \<not> cn_closed s \<Longrightarrow> cn_closed s' \<Longrightarrow> waiting (cn_session s) \<and> cn_done s"
  by (erule conn_stepE)
    (auto simp: conn_inv_def readRequestStep_def watchSelect_def beginShutdown_def
      split: session_pc.splits watch_pc.splits if_splits)

section \<open>Bounded shutdown\<close>

text \<open>How far a cancelled connection is from its end.\<close>

fun session_rank :: "session_pc \<Rightarrow> nat" where
  "session_rank Serving = 8"
| "session_rank AtLock = 7"
| "session_rank AtTest = 6"
| "session_rank AtIdle = 5"
| "session_rank Reading = 4"
| "session_rank (GotRequest _) = 3"
| "session_rank (Relocked _) = 2"
| "session_rank (AtRetest _) = 1"
| "session_rank Finished = 0"

fun watch_rank :: "watch_pc \<Rightarrow> nat" where
  "watch_rank Watching = 4"
| "watch_rank WantLock = 3"
| "watch_rank Holding = 2"
| "watch_rank Unlocking = 1"
| "watch_rank WatchDone = 0"

definition conn_rank :: "conn_state \<Rightarrow> nat" where
  "conn_rank s = session_rank (cn_session s) + watch_rank (cn_watch s)"

text \<open>A step that needs neither the client nor the read timeout: one of the goroutines moves, or the
  read of a closed connection fails.\<close>

definition own_move :: "conn_state \<Rightarrow> conn_state \<Rightarrow> bool" where
  "own_move s s' \<longleftrightarrow>
     readRequestStep s True = Some s' \<or> watchSelect s = Some s' \<or> beginShutdown s = Some s' \<or>
     cn_session s = Reading \<and> cn_closed s \<and> s' = s\<lparr>cn_session := GotRequest False\<rparr>"

lemma step_rank: "conn_step s s' \<Longrightarrow> cn_done s \<Longrightarrow> s' = s \<or> conn_rank s' < conn_rank s"
  by (erule conn_stepE)
    (auto simp: conn_rank_def readRequestStep_def watchSelect_def beginShutdown_def
      split: session_pc.splits watch_pc.splits if_splits)

lemma conn_rank_bound: "conn_rank s \<le> 12"
proof -
  have "session_rank (cn_session s) \<le> 8" by (cases "cn_session s") simp_all
  moreover have "watch_rank (cn_watch s) \<le> 4" by (cases "cn_watch s") simp_all
  ultimately show ?thesis unfolding conn_rank_def by linarith
qed

lemma own_move_exists:
  assumes "conn_inv s" "cn_done s" "cn_session s \<noteq> Finished"
  shows "\<exists>s'. own_move s s'"
proof (cases "watchSelect s = None \<and> beginShutdown s = None \<and> readRequestStep s True = None")
  case True
  then have w: "cn_watch s = WatchDone \<or> cn_watch s = WantLock \<and> cn_mu s \<noteq> None"
    using assms by (cases "cn_watch s") (auto simp: watchSelect_def beginShutdown_def split: if_splits)
  then have "cn_mu s \<noteq> Some ByWatcher" using assms(1) by (auto simp: conn_inv_def)
  then have mu: "cn_mu s = None \<or> cn_mu s = Some BySession" by (metis holder.exhaust option.exhaust)
  with True assms have "cn_session s = Reading"
    by (cases "cn_session s") (auto simp: readRequestStep_def conn_inv_def split: if_splits)
  moreover from this w mu assms(1) have "cn_closed s" by (auto simp: conn_inv_def)
  ultimately show ?thesis by (auto simp: own_move_def)
qed (auto simp: own_move_def)

lemma own_move_step: "own_move s s' \<Longrightarrow> conn_step s s'"
  by (auto simp: own_move_def intro: conn_step.intros)

lemma own_move_changes: "own_move s s' \<Longrightarrow> s' \<noteq> s"
proof -
  assume "own_move s s'"
  then have "conn_rank s' \<noteq> conn_rank s"
    by (auto simp: own_move_def conn_rank_def readRequestStep_def watchSelect_def beginShutdown_def
        split: session_pc.splits watch_pc.splits if_splits)
  then show ?thesis by blast
qed

lemma done_stays: "conn_step s s' \<Longrightarrow> cn_done s \<Longrightarrow> cn_done s'"
  by (erule conn_stepE)
    (auto simp: readRequestStep_def watchSelect_def beginShutdown_def
      split: session_pc.splits watch_pc.splits if_splits)

text \<open>The cancelled connection is a ranked system.\<close>

interpretation conn: ranked_system conn_start conn_step conn_inv cn_done conn_rank
    "\<lambda>s. cn_session s = Finished" own_move
  by unfold_locales
    (auto intro: conn_inv_start done_stays own_move_step own_move_exists dest: conn_step_inv step_rank own_move_changes)

section \<open>Properties\<close>

text \<open>C13: Shutdown never cuts off a request in service. In every interleaving of the session, the
  watcher, the client and the cancellation, the watcher closes the connection only after the context was
  cancelled and only while the session waits for a request; and from a closed connection no request is
  ever served, not even one that arrived at the same moment.\<close>

theorem shutdown_spares_busy:
  assumes "conn_reach s" "conn_step s s'" "cn_closed s'"
  shows "(cn_closed s \<or> waiting (cn_session s)) \<and> cn_done s' \<and> cn_session s' \<noteq> Serving"
  using conn.reach_inv [OF reach_next [OF assms(1,2)]] assms(3)
    close_step [OF assms(2) conn.reach_inv [OF assms(1)]]
  by (auto simp: conn_inv_def)

text \<open>A run in which the connection is closed while the session waits.\<close>

definition sample_waiting :: conn_state where
  "sample_waiting = conn_start\<lparr>cn_done := True, cn_idle := True, cn_session := Reading, cn_watch := Holding,
     cn_mu := Some ByWatcher\<rparr>"

definition sample_schedule :: "(conn_state \<Rightarrow> conn_state option) list" where
  "sample_schedule =
     [\<lambda>s. readRequestStep s True, \<lambda>s. readRequestStep s True, \<lambda>s. readRequestStep s True,
      \<lambda>s. Some (s\<lparr>cn_done := True\<rparr>), watchSelect, beginShutdown]"

lemma sample_waiting_reach: "conn_reach sample_waiting"
proof (rule play_reach [OF _ reach_init])
  show "play sample_schedule conn_start = Some sample_waiting"
    by (simp add: sample_schedule_def conn_start_def sample_waiting_def readRequestStep_def watchSelect_def
        beginShutdown_def)
qed (auto simp: sample_schedule_def intro: conn_step.intros)

theorem shutdown_spares_busy_witness:
  "(cn_closed sample_waiting \<or> waiting (cn_session sample_waiting)) \<and>
   cn_done (sample_waiting\<lparr>cn_closed := True, cn_watch := Unlocking\<rparr>) \<and>
   cn_session (sample_waiting\<lparr>cn_closed := True, cn_watch := Unlocking\<rparr>) \<noteq> Serving"
  by (rule shutdown_spares_busy [OF sample_waiting_reach shutdown])
    (simp_all add: beginShutdown_def sample_waiting_def)



end
