(* ===== verification/Serve_Loop.thy ===== *)
theory Serve_Loop
  imports Transition
begin

text \<open>
  The accept loop and the drain of src/internal/proxy/server.go. \<^verbatim>\<open>Serve\<close> runs three kinds of goroutines:
  the acceptor, which starts a session per connection, the sessions (Client_Session describes one), and
  \<^verbatim>\<open>Serve\<close> itself, which waits for cancellation, closes the listener, waits for the acceptor and then
  drains. The model is a step relation over their program counters and the counter of the wait group.
  Sessions end when they like, \<^verbatim>\<open>Accept\<close> succeeds or fails as it likes while the listener is open.
\<close>

section \<open>The retry schedule\<close>

text \<open>Durations in nanoseconds.\<close>

definition acceptBackoffInitial :: int where "acceptBackoffInitial = 5 * 1000000"
definition acceptBackoffMax :: int where "acceptBackoffMax = 1000000000"

record acceptBackoff =
  ab_delay :: int

definition nextBackoff :: "acceptBackoff \<Rightarrow> acceptBackoff" where
  "nextBackoff b =
     (if ab_delay b = 0 then b\<lparr>ab_delay := acceptBackoffInitial\<rparr>
      else if 2 * ab_delay b > acceptBackoffMax then b\<lparr>ab_delay := acceptBackoffMax\<rparr>
      else b\<lparr>ab_delay := 2 * ab_delay b\<rparr>)"

definition resetBackoff :: "acceptBackoff \<Rightarrow> acceptBackoff" where
  "resetBackoff b = b\<lparr>ab_delay := 0\<rparr>"

section \<open>The goroutines of Serve\<close>

text \<open>The acceptor: blocked in \<^verbatim>\<open>Accept\<close>, holding an accepted connection before \<^verbatim>\<open>wg.Go\<close>, after a failed
  \<^verbatim>\<open>Accept\<close> before the test of the context, waiting for the retry timer, and ended with \<^verbatim>\<open>acceptDone\<close>
  closed.\<close>

datatype accept_pc = Accepting | Accepted | AcceptFailed | Backing int | AcceptDone

text \<open>\<^verbatim>\<open>Serve\<close>: waiting for the context, before \<^verbatim>\<open>l.Close\<close>, waiting for the acceptor, draining, and
  returned, drained or at the drain timeout.\<close>

datatype serve_pc = WaitCancel | Closing | WaitAcceptor | Draining | Drained | DrainTimeout

record server =
  sv_done :: bool
  sv_listening :: bool
  sv_backoff :: acceptBackoff
  sv_accept :: accept_pc
  sv_main :: serve_pc
  sv_active :: nat
  sv_started :: nat
  sv_finished :: nat

definition serve_start :: server where
  "serve_start = \<lparr>sv_done = False, sv_listening = True, sv_backoff = \<lparr>ab_delay = 0\<rparr>, sv_accept = Accepting,
     sv_main = WaitCancel, sv_active = 0, sv_started = 0, sv_finished = 0\<rparr>"

text \<open>The acceptor's steps. \<open>ok\<close> is whether a pending \<^verbatim>\<open>Accept\<close> succeeds; on a closed listener it fails.
  \<open>fired\<close> is whether the retry timer has fired; the select takes the context when it is done and the
  timer has not.\<close>

definition acceptStep :: "bool \<Rightarrow> bool \<Rightarrow> server \<Rightarrow> server option" where
  "acceptStep ok fired s =
     (case sv_accept s of
        Accepting \<Rightarrow>
          if ok \<and> sv_listening s then Some (s\<lparr>sv_backoff := resetBackoff (sv_backoff s), sv_accept := Accepted\<rparr>)
          else Some (s\<lparr>sv_accept := AcceptFailed\<rparr>)
      | Accepted \<Rightarrow>
          Some (s\<lparr>sv_active := Suc (sv_active s), sv_started := Suc (sv_started s), sv_accept := Accepting\<rparr>)
      | AcceptFailed \<Rightarrow>
          if sv_done s then Some (s\<lparr>sv_accept := AcceptDone\<rparr>)
          else let b = nextBackoff (sv_backoff s)
               in Some (s\<lparr>sv_backoff := b, sv_accept := Backing (ab_delay b)\<rparr>)
      | Backing _ \<Rightarrow>
          if fired then Some (s\<lparr>sv_accept := Accepting\<rparr>)
          else if sv_done s then Some (s\<lparr>sv_accept := AcceptDone\<rparr>)
          else None
      | AcceptDone \<Rightarrow> None)"

text \<open>\<^verbatim>\<open>Serve\<close> itself. \<open>expired\<close> is whether the drain timer has fired; when the wait group is empty too,
  the select may take either branch.\<close>

definition serveStep :: "bool \<Rightarrow> server \<Rightarrow> server option" where
  "serveStep expired s =
     (case sv_main s of
        WaitCancel \<Rightarrow> if sv_done s then Some (s\<lparr>sv_main := Closing\<rparr>) else None
      | Closing \<Rightarrow> Some (s\<lparr>sv_listening := False, sv_main := WaitAcceptor\<rparr>)
      | WaitAcceptor \<Rightarrow> if sv_accept s = AcceptDone then Some (s\<lparr>sv_main := Draining\<rparr>) else None
      | Draining \<Rightarrow>
          if expired then Some (s\<lparr>sv_main := DrainTimeout\<rparr>)
          else if sv_active s = 0 then Some (s\<lparr>sv_main := Drained\<rparr>)
          else None
      | _ \<Rightarrow> None)"

definition sessionEnds :: "server \<Rightarrow> server option" where
  "sessionEnds s =
     (if sv_active s > 0 then Some (s\<lparr>sv_active := sv_active s - 1, sv_finished := Suc (sv_finished s)\<rparr>) else None)"

inductive serve_step :: "server \<Rightarrow> server \<Rightarrow> bool" where
  cancelled: "serve_step s (s\<lparr>sv_done := True\<rparr>)"
| acceptor: "acceptStep ok fired s = Some s' \<Longrightarrow> serve_step s s'"
| server: "serveStep expired s = Some s' \<Longrightarrow> serve_step s s'"
| session_end: "sessionEnds s = Some s' \<Longrightarrow> serve_step s s'"

inductive_cases serve_stepE: "serve_step s s'"

abbreviation serve_reach :: "server \<Rightarrow> bool" where
  "serve_reach \<equiv> reach serve_start serve_step"

section \<open>The invariant\<close>

definition delay_ok :: "int \<Rightarrow> bool" where
  "delay_ok d \<longleftrightarrow> acceptBackoffInitial \<le> d \<and> d \<le> acceptBackoffMax"

fun past_close :: "serve_pc \<Rightarrow> bool" where
  "past_close WaitCancel = False"
| "past_close Closing = False"
| "past_close _ = True"

fun past_accept :: "serve_pc \<Rightarrow> bool" where
  "past_accept Draining = True"
| "past_accept Drained = True"
| "past_accept DrainTimeout = True"
| "past_accept _ = False"

definition serve_inv :: "server \<Rightarrow> bool" where
  "serve_inv s \<longleftrightarrow>
     sv_started s = sv_active s + sv_finished s \<and>
     (sv_main s \<noteq> WaitCancel \<longrightarrow> sv_done s) \<and>
     (sv_accept s = AcceptDone \<longrightarrow> sv_done s) \<and>
     (past_close (sv_main s) \<longleftrightarrow> \<not> sv_listening s) \<and>
     (past_accept (sv_main s) \<longrightarrow> sv_accept s = AcceptDone) \<and>
     (sv_main s = Drained \<longrightarrow> sv_active s = 0) \<and>
     (ab_delay (sv_backoff s) = 0 \<or> delay_ok (ab_delay (sv_backoff s))) \<and>
     (case sv_accept s of Backing d \<Rightarrow> delay_ok d | _ \<Rightarrow> True)"

lemma nextBackoff_ok: "ab_delay b = 0 \<or> delay_ok (ab_delay b) \<Longrightarrow> delay_ok (ab_delay (nextBackoff b))"
  by (auto simp: nextBackoff_def delay_ok_def acceptBackoffInitial_def acceptBackoffMax_def)

lemma acceptStep_inv: "serve_inv s \<Longrightarrow> acceptStep ok fired s = Some s' \<Longrightarrow> serve_inv s'"
  using nextBackoff_ok [of "sv_backoff s"]
  by (cases "sv_accept s"; cases "sv_main s";
      clarsimp simp: serve_inv_def acceptStep_def resetBackoff_def Let_def split: if_splits)

lemma serveStep_inv: "serve_inv s \<Longrightarrow> serveStep expired s = Some s' \<Longrightarrow> serve_inv s'"
  by (cases "sv_main s"; clarsimp simp: serve_inv_def serveStep_def split: if_splits)

lemma sessionEnds_inv: "serve_inv s \<Longrightarrow> sessionEnds s = Some s' \<Longrightarrow> serve_inv s'"
  by (clarsimp simp: serve_inv_def sessionEnds_def split: if_splits)

lemma serve_step_inv: "serve_step s s' \<Longrightarrow> serve_inv s \<Longrightarrow> serve_inv s'"
proof (induction rule: serve_step.induct)
  case (cancelled s)
  then show ?case by (simp add: serve_inv_def)
qed (blast intro: acceptStep_inv serveStep_inv sessionEnds_inv)+

lemma serve_inv_start: "serve_inv serve_start"
  by (simp add: serve_inv_def serve_start_def)

lemma listening_step: "serve_step s s' \<Longrightarrow> sv_listening s' \<Longrightarrow> sv_listening s"
  by (elim serve_stepE)
    (auto simp: acceptStep_def serveStep_def sessionEnds_def Let_def
      split: serve_pc.splits accept_pc.splits if_splits)

section \<open>Bounded shutdown\<close>

text \<open>How far \<^verbatim>\<open>Serve\<close> is from returning once the listener is closed.\<close>

fun accept_rank :: "accept_pc \<Rightarrow> nat" where
  "accept_rank Accepted = 5"
| "accept_rank (Backing _) = 4"
| "accept_rank Accepting = 3"
| "accept_rank AcceptFailed = 2"
| "accept_rank AcceptDone = 0"

fun main_rank :: "serve_pc \<Rightarrow> nat" where
  "main_rank WaitAcceptor = 2"
| "main_rank Draining = 1"
| "main_rank _ = 0"

definition serve_rank :: "server \<Rightarrow> nat" where
  "serve_rank s = accept_rank (sv_accept s) + main_rank (sv_main s) + sv_active s"

text \<open>A move of the acceptor that waits neither for a connection nor for the retry timer, or a move of
  \<^verbatim>\<open>Serve\<close> that needs the drain timeout only while sessions are active.\<close>

definition serve_own :: "server \<Rightarrow> server \<Rightarrow> bool" where
  "serve_own s s' \<longleftrightarrow> acceptStep False False s = Some s' \<or> serveStep (sv_active s > 0) s = Some s'"

lemma closed_past: "serve_inv s \<Longrightarrow> \<not> sv_listening s \<Longrightarrow> past_close (sv_main s) \<and> sv_done s"
  by (auto simp: serve_inv_def elim: past_close.elims)

lemma serve_rank_step:
  assumes "serve_inv s" "\<not> sv_listening s" "serve_step s s'"
  shows "s' = s \<or> serve_rank s' < serve_rank s"
  using assms(2,3) closed_past [OF assms(1,2)]
  by (elim serve_stepE)
    (auto simp: serve_rank_def acceptStep_def serveStep_def sessionEnds_def Let_def
      split: serve_pc.splits accept_pc.splits if_splits)

lemma serve_own_changes:
  assumes "serve_own s s'"
  shows "s' \<noteq> s"
proof -
  from assms have "sv_main s' \<noteq> sv_main s \<or> sv_accept s' \<noteq> sv_accept s"
    by (auto simp: serve_own_def acceptStep_def serveStep_def Let_def
        split: serve_pc.splits accept_pc.splits if_splits)
  then show ?thesis by blast
qed

lemma serve_progress:
  assumes "serve_inv s" "\<not> sv_listening s" "sv_main s \<notin> {Drained, DrainTimeout}"
  shows "\<exists>s'. serve_own s s'"
  using closed_past [OF assms(1,2)] assms(3)
  by (cases "sv_main s"; cases "sv_accept s") (auto simp: serve_own_def acceptStep_def serveStep_def Let_def)

interpretation serve: ranked_system serve_start serve_step serve_inv "\<lambda>s. \<not> sv_listening s" serve_rank
    "\<lambda>s. sv_main s \<in> {Drained, DrainTimeout}" serve_own
proof unfold_locales
  show "serve_own s s' \<Longrightarrow> serve_step s s'" for s s'
    by (auto simp: serve_own_def intro: serve_step.intros)
qed (use serve_inv_start serve_step_inv listening_step serve_rank_step serve_own_changes serve_progress in blast)+

section \<open>Properties\<close>

lemma nextBackoff_delay:
  "ab_delay (nextBackoff b) =
     (if ab_delay b = 0 then acceptBackoffInitial else min (2 * ab_delay b) acceptBackoffMax)"
  by (simp add: nextBackoff_def)

text \<open>The retry schedule of the accept loop is the documented one. The wait after the \<open>k\<close>-th error in
  a row since the last success is five milliseconds doubled \<open>k\<close> times, capped at one second; whatever
  happened before, a success resets it.\<close>

lemma acceptBackoff_schedule:
  "ab_delay ((nextBackoff ^^ Suc k) (resetBackoff b)) = min (acceptBackoffInitial * 2 ^ k) acceptBackoffMax"
proof (induction k)
  case 0
  then show ?case
    by (simp add: nextBackoff_def resetBackoff_def acceptBackoffInitial_def acceptBackoffMax_def)
next
  case (Suc k)
  have "(1::int) \<le> 2 ^ k" by simp
  then have "ab_delay ((nextBackoff ^^ Suc k) (resetBackoff b)) \<noteq> 0"
    unfolding Suc by (simp add: acceptBackoffInitial_def acceptBackoffMax_def min_def)
  then have "ab_delay ((nextBackoff ^^ Suc (Suc k)) (resetBackoff b)) =
      min (2 * min (acceptBackoffInitial * 2 ^ k) acceptBackoffMax) acceptBackoffMax"
    using Suc by (simp add: nextBackoff_delay)
  then show ?case by (simp add: acceptBackoffInitial_def acceptBackoffMax_def min_def)
qed

text \<open>C15: Draining is sound. Once \<^verbatim>\<open>Serve\<close> has started to drain, no further session is ever started, in
  any interleaving, so the wait group never grows while it is being waited for; when \<^verbatim>\<open>Serve\<close> reports
  that all connections are drained, every session it ever started has finished; and the listener stays
  closed from the moment it was closed.\<close>

theorem serve_drains:
  assumes "serve_reach s" "serve_step s s'"
  shows "(past_accept (sv_main s) \<longrightarrow> sv_started s' = sv_started s \<and> sv_active s' \<le> sv_active s) \<and>
    (sv_main s' = Drained \<longrightarrow> sv_started s' = sv_finished s') \<and> (sv_listening s' \<longrightarrow> sv_listening s)"
proof -
  from serve.reach_inv [OF assms(1)] have inv: "serve_inv s" .
  with serve_step_inv [OF assms(2)] have inv': "serve_inv s'" by blast
  have "past_accept (sv_main s) \<Longrightarrow> sv_accept s = AcceptDone" using inv by (simp add: serve_inv_def)
  with assms(2) have "past_accept (sv_main s) \<longrightarrow> sv_started s' = sv_started s \<and> sv_active s' \<le> sv_active s"
    by (elim serve_stepE)
      (auto simp: acceptStep_def serveStep_def sessionEnds_def split: serve_pc.splits if_splits)
  moreover have "sv_main s' = Drained \<longrightarrow> sv_started s' = sv_finished s'" using inv' by (simp add: serve_inv_def)
  ultimately show ?thesis using listening_step [OF assms(2)] by blast
qed

text \<open>A run that accepts a connection, is cancelled and drains.\<close>

definition sample_moves :: "(server \<Rightarrow> server option) list" where
  "sample_moves = [acceptStep True False, acceptStep True False, \<lambda>s. Some (s\<lparr>sv_done := True\<rparr>), serveStep False,
     serveStep False, acceptStep False False, acceptStep False False, serveStep False, sessionEnds]"

definition sample_server :: server where
  "sample_server = the (play sample_moves serve_start)"

lemma sample_server_reach: "serve_reach sample_server"
proof (rule play_reach [OF _ reach_init])
  have "play sample_moves serve_start \<noteq> None" by code_simp
  then show "play sample_moves serve_start = Some sample_server" unfolding sample_server_def by auto
  show "serve_step s s'" if "f \<in> set sample_moves" "f s = Some s'" for f s s'
    using that by (auto simp: sample_moves_def intro: serve_step.intros)
qed

theorem serve_drains_witness:
  "\<exists>s'. serveStep False sample_server = Some s' \<and> sv_main s' = Drained \<and> sv_started s' = sv_finished s' \<and> sv_started s' = 1"
proof -
  have c: "case serveStep False sample_server of Some s' \<Rightarrow> sv_main s' = Drained \<and> sv_started s' = 1 | None \<Rightarrow> False"
    by code_simp
  then obtain s' where s': "serveStep False sample_server = Some s'" "sv_main s' = Drained" "sv_started s' = 1"
    by (auto split: option.splits)
  from serve_drains [OF sample_server_reach server [OF s'(1)]] s' show ?thesis by auto
qed

text \<open>C31: \<^verbatim>\<open>Serve\<close> returns. Once the listener is closed, no run of the acceptor, the sessions and \<^verbatim>\<open>Serve\<close>
  has more moves than the sessions then active and seven more; and wherever a run stands, \<^verbatim>\<open>Serve\<close> has
  returned, or the acceptor can move without waiting for a connection or a retry timer, or \<^verbatim>\<open>Serve\<close> can
  move, where the drain timeout is needed only while sessions are active.\<close>

theorem serve_returns:
  assumes "serve_reach s" "\<not> sv_listening s" "(moves serve_step ^^ n) s s'"
  shows "n \<le> sv_active s + 7 \<and>
    (sv_main s' \<in> {Drained, DrainTimeout} \<or> (\<exists>t. serve_own s' t \<and> moves serve_step s' t))"
proof
  have "accept_rank (sv_accept s) \<le> 5" by (cases "sv_accept s") simp_all
  moreover have "main_rank (sv_main s) \<le> 2" by (cases "sv_main s") simp_all
  ultimately show "n \<le> sv_active s + 7"
    using serve.run_bounded [OF assms(3) serve.reach_inv [OF assms(1)] assms(2)] by (simp add: serve_rank_def)
  show "sv_main s' \<in> {Drained, DrainTimeout} \<or> (\<exists>t. serve_own s' t \<and> moves serve_step s' t)"
    by (rule serve.run_ends [OF assms(3) serve.reach_inv [OF assms(1)] assms(2)])
qed

theorem serve_returns_witness:
  "\<exists>t. serve_own sample_server t \<and> moves serve_step sample_server t"
proof -
  have "\<not> sv_listening sample_server" "sv_main sample_server \<notin> {Drained, DrainTimeout}" by code_simp+
  with serve_returns [OF sample_server_reach, of 0 sample_server] show ?thesis by simp
qed

end
