(* ===== verification/Exchange_Race.thy ===== *)
theory Exchange_Race
  imports Response_Check Transition
begin

text \<open>
  The concurrent half of \<^verbatim>\<open>exchangeRequest\<close> in src/internal/proxy/response.go: while a client that expects
  100 Continue still sends its body, one goroutine uploads the request and another reads responses. They
  meet on the channel \<^verbatim>\<open>written\<close> and wake each other by moving deadlines of the two connections into the
  past. The model takes one step per channel operation, deadline change and result of a blocked call; the
  peers let the upload return and deliver responses whenever they like. The read of an interim response
  and its relay to the client are one step. Every interleaving is shown to end in one of the outcomes that
  \<open>exchangeRequest\<close> of Response_Check describes, so that its properties hold for all of them.
\<close>

section \<open>The two goroutines\<close>

text \<open>The uploader: in \<^verbatim>\<open>writeRequest\<close>, about to wake the reader after a failure, about to send on the
  channel, finished.\<close>

datatype upload_pc = Writing | Waking go_error | Posting "go_error option" | Uploaded

text \<open>The reader: in \<^verbatim>\<open>readThroughInterim\<close>, before the select, before each of the two deadline changes that
  cancel the upload, waiting for the channel, before each of the two that undo them, before the reset of
  the upstream's read deadline, before the final test, and returned.\<close>

datatype race_pc =
  RRead | RSelect | RCancelClient | RCancelUpstream | RJoin | RUndoClient | RUndoUpstream | RReset | RFix
  | RReturned exchange

text \<open>The named results of \<^verbatim>\<open>exchangeRequest\<close> are \<open>rc_resp\<close> to \<open>rc_err\<close>. \<open>rc_wire\<close> is what the upstream will
  still send. \<open>rc_seen\<close>, \<open>rc_late\<close> and \<open>rc_upErr\<close> record what the reads returned, whether the select took
  the default branch, and how the upload ended; no step depends on them.\<close>

record race =
  rc_up :: upload_pc
  rc_main :: race_pc
  rc_chan :: "go_error option option"
  rc_dl :: deadlines
  rc_wire :: "(go_error + response) list"
  rc_written :: "string list"
  rc_resp :: "response option"
  rc_requestErr :: "go_error option"
  rc_clientErr :: "go_error option"
  rc_err :: "go_error option"
  rc_seen :: "(go_error + response) list"
  rc_late :: bool
  rc_upErr :: "go_error option"

definition race_start :: "(go_error + response) list \<Rightarrow> race" where
  "race_start wire =
     \<lparr>rc_up = Writing, rc_main = RRead, rc_chan = None, rc_dl = no_deadlines, rc_wire = wire, rc_written = [],
      rc_resp = None, rc_requestErr = None, rc_clientErr = None, rc_err = None,
      rc_seen = [], rc_late = False, rc_upErr = None\<rparr>"

text \<open>\<^verbatim>\<open>writeRequest\<close> returns.\<close>

definition uploadReturns :: "go_error option \<Rightarrow> race \<Rightarrow> race option" where
  "uploadReturns r s =
     (if rc_up s = Writing
      then Some (s\<lparr>rc_upErr := r, rc_up := (case r of None \<Rightarrow> Posting None | Some e \<Rightarrow> Waking e)\<rparr>) else None)"

definition uploadStep :: "race \<Rightarrow> race option" where
  "uploadStep s =
     (case rc_up s of
        Waking e \<Rightarrow> Some (s\<lparr>rc_dl := rc_dl s\<lparr>dl_upstreamRead := True\<rparr>, rc_up := Posting (Some e)\<rparr>)
      | Posting r \<Rightarrow> if rc_chan s = None then Some (s\<lparr>rc_chan := Some r, rc_up := Uploaded\<rparr>) else None
      | _ \<Rightarrow> None)"

text \<open>One round of \<^verbatim>\<open>readThroughInterim\<close> with the result of \<^verbatim>\<open>readOne\<close>.\<close>

definition onRead :: "request \<Rightarrow> (nat \<Rightarrow> go_error option) \<Rightarrow> go_error + response \<Rightarrow> race \<Rightarrow> race" where
  "onRead req wr x s =
     (let s1 = s\<lparr>rc_seen := rc_seen s @ [x]\<rparr>
      in case x of
           Inl e \<Rightarrow> s1\<lparr>rc_err := Some e, rc_main := RSelect\<rparr>
         | Inr resp \<Rightarrow>
             if \<not> isInterimResponse resp then s1\<lparr>rc_resp := Some resp, rc_main := RSelect\<rparr>
             else if validateResponseHeaderBytes resp \<noteq> None then
               s1\<lparr>rc_err := Some (Sentinel ErrMalformedResponse), rc_main := RSelect\<rparr>
             else (case relayInterimResponse req resp of
                     None \<Rightarrow> s1
                   | Some bs \<Rightarrow>
                       (case wr (length (rc_written s)) of
                          Some werr \<Rightarrow> s1\<lparr>rc_clientErr := Some werr, rc_main := RSelect\<rparr>
                        | None \<Rightarrow> s1\<lparr>rc_written := rc_written s @ [bs]\<rparr>)))"

definition readArrives :: "request \<Rightarrow> (nat \<Rightarrow> go_error option) \<Rightarrow> race \<Rightarrow> race option" where
  "readArrives req wr s =
     (case rc_wire s of
        x # rest \<Rightarrow> if rc_main s = RRead then Some (onRead req wr x (s\<lparr>rc_wire := rest\<rparr>)) else None
      | [] \<Rightarrow> None)"

text \<open>A read under a deadline in the past fails with a timeout, whatever the connection holds.\<close>

definition readTimeout :: go_error where
  "readTimeout = NetErr ''i/o timeout'' True None"

definition readExpires :: "request \<Rightarrow> (nat \<Rightarrow> go_error option) \<Rightarrow> race \<Rightarrow> race option" where
  "readExpires req wr s =
     (if rc_main s = RRead \<and> dl_upstreamRead (rc_dl s) then Some (onRead req wr (Inl readTimeout) s) else None)"

definition closeResp :: "response option \<Rightarrow> response option" where
  "closeResp r = map_option (resp_Close_update (\<lambda>_. True)) r"

text \<open>The rest of \<^verbatim>\<open>exchangeRequest\<close>.\<close>

definition exchangeStep :: "race \<Rightarrow> race option" where
  "exchangeStep s =
     (case rc_main s of
        RSelect \<Rightarrow>
          (case rc_chan s of
             Some r \<Rightarrow> Some (s\<lparr>rc_requestErr := r, rc_chan := None, rc_main := RReset\<rparr>)
           | None \<Rightarrow> Some (s\<lparr>rc_late := True, rc_main := RCancelClient\<rparr>))
      | RCancelClient \<Rightarrow> Some (s\<lparr>rc_dl := rc_dl s\<lparr>dl_clientRead := True\<rparr>, rc_main := RCancelUpstream\<rparr>)
      | RCancelUpstream \<Rightarrow> Some (s\<lparr>rc_dl := rc_dl s\<lparr>dl_upstreamWrite := True\<rparr>, rc_main := RJoin\<rparr>)
      | RJoin \<Rightarrow>
          (case rc_chan s of
             None \<Rightarrow> None
           | Some None \<Rightarrow> Some (s\<lparr>rc_requestErr := None, rc_chan := None, rc_main := RUndoClient\<rparr>)
           | Some (Some e) \<Rightarrow>
               Some (s\<lparr>rc_requestErr := (if rc_resp s = None then None else Some e), rc_chan := None,
                       rc_main := RReset\<rparr>))
      | RUndoClient \<Rightarrow> Some (s\<lparr>rc_dl := rc_dl s\<lparr>dl_clientRead := False\<rparr>, rc_main := RUndoUpstream\<rparr>)
      | RUndoUpstream \<Rightarrow>
          Some (s\<lparr>rc_dl := rc_dl s\<lparr>dl_upstreamWrite := False\<rparr>, rc_resp := closeResp (rc_resp s), rc_main := RReset\<rparr>)
      | RReset \<Rightarrow> Some (s\<lparr>rc_dl := rc_dl s\<lparr>dl_upstreamRead := False\<rparr>, rc_main := RFix\<rparr>)
      | RFix \<Rightarrow>
          let (resp, werr) =
                (if rc_resp s \<noteq> None \<and> rc_requestErr s \<noteq> None then (closeResp (rc_resp s), None)
                 else (rc_resp s, rc_requestErr s))
          in Some (s\<lparr>rc_main := RReturned \<lparr>ex_resp = resp, ex_requestErr = werr, ex_clientErr = rc_clientErr s,
               ex_err = rc_err s, ex_written = rc_written s, ex_rest = rc_wire s, ex_deadlines = rc_dl s\<rparr>\<rparr>)
      | _ \<Rightarrow> None)"

inductive race_step :: "request \<Rightarrow> (nat \<Rightarrow> go_error option) \<Rightarrow> race \<Rightarrow> race \<Rightarrow> bool" for req wr where
  returns: "uploadReturns r s = Some s' \<Longrightarrow> race_step req wr s s'"
| uploader: "uploadStep s = Some s' \<Longrightarrow> race_step req wr s s'"
| arrives: "readArrives req wr s = Some s' \<Longrightarrow> race_step req wr s s'"
| expires: "readExpires req wr s = Some s' \<Longrightarrow> race_step req wr s s'"
| reader: "exchangeStep s = Some s' \<Longrightarrow> race_step req wr s s'"

inductive_cases race_stepE: "race_step req wr s s'"

abbreviation race_reach :: "request \<Rightarrow> (nat \<Rightarrow> go_error option) \<Rightarrow> (go_error + response) list \<Rightarrow> race \<Rightarrow> bool" where
  "race_reach req wr wire \<equiv> reach (race_start wire) (race_step req wr)"

section \<open>The invariant\<close>

fun joined :: "race_pc \<Rightarrow> bool" where
  "joined RUndoClient = True"
| "joined RUndoUpstream = True"
| "joined RReset = True"
| "joined RFix = True"
| "joined (RReturned _) = True"
| "joined _ = False"

text \<open>The upload and its channel: until the reader has received, exactly one of the uploader and the
  channel holds the result; afterwards the uploader is finished and the channel empty.\<close>

definition upload_inv :: "race \<Rightarrow> bool" where
  "upload_inv s \<longleftrightarrow>
     (case rc_up s of
        Writing \<Rightarrow> rc_chan s = None \<and> \<not> joined (rc_main s) \<and> rc_upErr s = None
      | Waking e \<Rightarrow> rc_chan s = None \<and> \<not> joined (rc_main s) \<and> rc_upErr s = Some e
      | Posting r \<Rightarrow> rc_chan s = None \<and> \<not> joined (rc_main s) \<and> rc_upErr s = r
      | Uploaded \<Rightarrow> rc_chan s = (if joined (rc_main s) then None else Some (rc_upErr s)))"

text \<open>The deadlines that are in the past, by where the goroutines stand.\<close>

definition wakes :: "race \<Rightarrow> bool" where
  "wakes s \<longleftrightarrow> rc_upErr s \<noteq> None \<and> (case rc_up s of Posting _ \<Rightarrow> True | Uploaded \<Rightarrow> True | _ \<Rightarrow> False)"

definition deadlines_at :: "race \<Rightarrow> deadlines" where
  "deadlines_at s =
     (let cut = rc_late s \<and> rc_upErr s \<noteq> None
      in case rc_main s of
           RRead \<Rightarrow> no_deadlines\<lparr>dl_upstreamRead := wakes s\<rparr>
         | RSelect \<Rightarrow> no_deadlines\<lparr>dl_upstreamRead := wakes s\<rparr>
         | RCancelClient \<Rightarrow> no_deadlines\<lparr>dl_upstreamRead := wakes s\<rparr>
         | RCancelUpstream \<Rightarrow> \<lparr>dl_clientRead = True, dl_upstreamWrite = False, dl_upstreamRead = wakes s\<rparr>
         | RJoin \<Rightarrow> \<lparr>dl_clientRead = True, dl_upstreamWrite = True, dl_upstreamRead = wakes s\<rparr>
         | RUndoClient \<Rightarrow> \<lparr>dl_clientRead = True, dl_upstreamWrite = True, dl_upstreamRead = False\<rparr>
         | RUndoUpstream \<Rightarrow> \<lparr>dl_clientRead = False, dl_upstreamWrite = True, dl_upstreamRead = False\<rparr>
         | RReset \<Rightarrow> \<lparr>dl_clientRead = cut, dl_upstreamWrite = cut, dl_upstreamRead = rc_upErr s \<noteq> None\<rparr>
         | RFix \<Rightarrow> \<lparr>dl_clientRead = cut, dl_upstreamWrite = cut, dl_upstreamRead = False\<rparr>
         | RReturned ex \<Rightarrow> \<lparr>dl_clientRead = cut, dl_upstreamWrite = cut, dl_upstreamRead = False\<rparr>)"

text \<open>Whether the branch the select took has been decided, and which.\<close>

definition late_inv :: "race \<Rightarrow> bool" where
  "late_inv s \<longleftrightarrow>
     (case rc_main s of
        RRead \<Rightarrow> \<not> rc_late s | RSelect \<Rightarrow> \<not> rc_late s
      | RCancelClient \<Rightarrow> rc_late s | RCancelUpstream \<Rightarrow> rc_late s | RJoin \<Rightarrow> rc_late s
      | RUndoClient \<Rightarrow> rc_late s \<and> rc_upErr s = None | RUndoUpstream \<Rightarrow> rc_late s \<and> rc_upErr s = None
      | _ \<Rightarrow> True)"

text \<open>The sequential reading of what was seen so far. While the reader reads, it is where
  \<open>readThroughInterim\<close> is after those responses; afterwards it has that function's results.\<close>

definition reading_inv :: "request \<Rightarrow> (nat \<Rightarrow> go_error option) \<Rightarrow> race \<Rightarrow> bool" where
  "reading_inv req wr s \<longleftrightarrow>
     rc_resp s = None \<and> rc_requestErr s = None \<and> rc_clientErr s = None \<and> rc_err s = None \<and>
     (\<forall>rest. readThroughInterim req wr (rc_seen s @ rest) [] = readThroughInterim req wr rest (rc_written s))"

definition has_read :: "request \<Rightarrow> (nat \<Rightarrow> go_error option) \<Rightarrow> race \<Rightarrow> response option \<Rightarrow> bool" where
  "has_read req wr s resp \<longleftrightarrow>
     (\<exists>out. readThroughInterim req wr (rc_seen s @ rc_wire s) [] =
        \<lparr>rr_outcome = out, rr_written = rc_written s, rr_rest = rc_wire s\<rparr> \<and>
        of_outcome out = (resp, rc_clientErr s, rc_err s))"

definition cut_resp :: "race \<Rightarrow> response option \<Rightarrow> response option" where
  "cut_resp s resp = (if rc_late s \<and> rc_upErr s = None then closeResp resp else resp)"

definition cut_err :: "race \<Rightarrow> response option \<Rightarrow> go_error option" where
  "cut_err s resp = (if rc_late s \<and> resp = None then None else rc_upErr s)"

definition result_inv :: "request \<Rightarrow> (nat \<Rightarrow> go_error option) \<Rightarrow> race \<Rightarrow> bool" where
  "result_inv req wr s \<longleftrightarrow>
     (case rc_main s of
        RRead \<Rightarrow> reading_inv req wr s
      | RReturned ex \<Rightarrow>
          ex = exchangeAsync req wr (Upload (rc_late s) (rc_upErr s)) (rc_seen s @ rc_wire s) \<and>
          ex_rest ex = rc_wire s \<and> ex_deadlines ex = rc_dl s
      | RReset \<Rightarrow> (\<exists>resp. has_read req wr s resp \<and> rc_resp s = cut_resp s resp \<and> rc_requestErr s = cut_err s resp)
      | RFix \<Rightarrow> (\<exists>resp. has_read req wr s resp \<and> rc_resp s = cut_resp s resp \<and> rc_requestErr s = cut_err s resp)
      | _ \<Rightarrow> has_read req wr s (rc_resp s) \<and> rc_requestErr s = None)"

text \<open>What was seen is what the upstream sent, cut short by a timeout only after the upload failed.\<close>

definition seen_inv :: "(go_error + response) list \<Rightarrow> race \<Rightarrow> bool" where
  "seen_inv wire s \<longleftrightarrow>
     (\<exists>pre. wire = pre @ rc_wire s \<and>
        (rc_seen s = pre \<or> rc_main s \<noteq> RRead \<and> rc_upErr s \<noteq> None \<and> rc_seen s = pre @ [Inl readTimeout]))"

definition race_inv :: "request \<Rightarrow> (nat \<Rightarrow> go_error option) \<Rightarrow> (go_error + response) list \<Rightarrow> race \<Rightarrow> bool" where
  "race_inv req wr wire s \<longleftrightarrow>
     upload_inv s \<and> rc_dl s = deadlines_at s \<and> late_inv s \<and> result_inv req wr s \<and> seen_inv wire s"

lemmas race_inv_defs = upload_inv_def deadlines_at_def wakes_def late_inv_def

text \<open>The parts that only the reader's results depend on.\<close>

lemma reading_frame [simp]:
  "reading_inv req wr (s\<lparr>rc_up := u\<rparr>) = reading_inv req wr s"
  "reading_inv req wr (s\<lparr>rc_upErr := e\<rparr>) = reading_inv req wr s"
  "reading_inv req wr (s\<lparr>rc_dl := d\<rparr>) = reading_inv req wr s"
  "reading_inv req wr (s\<lparr>rc_chan := c\<rparr>) = reading_inv req wr s"
  by (simp_all add: reading_inv_def)

lemma has_read_frame [simp]:
  "has_read req wr (s\<lparr>rc_up := u\<rparr>) r = has_read req wr s r"
  "has_read req wr (s\<lparr>rc_upErr := e\<rparr>) r = has_read req wr s r"
  "has_read req wr (s\<lparr>rc_dl := d\<rparr>) r = has_read req wr s r"
  "has_read req wr (s\<lparr>rc_chan := c\<rparr>) r = has_read req wr s r"
  "has_read req wr (s\<lparr>rc_main := m\<rparr>) r = has_read req wr s r"
  "has_read req wr (s\<lparr>rc_late := l\<rparr>) r = has_read req wr s r"
  "has_read req wr (s\<lparr>rc_requestErr := q\<rparr>) r = has_read req wr s r"
  "has_read req wr (s\<lparr>rc_resp := v\<rparr>) r = has_read req wr s r"
  by (simp_all add: has_read_def)

lemma cut_frame [simp]:
  "cut_resp (s\<lparr>rc_dl := d\<rparr>) r = cut_resp s r" "cut_resp (s\<lparr>rc_main := m\<rparr>) r = cut_resp s r"
  "cut_err (s\<lparr>rc_dl := d\<rparr>) r = cut_err s r" "cut_err (s\<lparr>rc_main := m\<rparr>) r = cut_err s r"
  by (simp_all add: cut_resp_def cut_err_def)

lemma race_inv_start: "race_inv req wr wire (race_start wire)"
  by (simp add: race_inv_def race_start_def race_inv_defs result_inv_def reading_inv_def seen_inv_def no_deadlines_def)

lemma uploadReturns_inv:
  assumes "race_inv req wr wire s" "uploadReturns r s = Some s'"
  shows "race_inv req wr wire s'"
proof -
  from assms(2) have s': "s' = s\<lparr>rc_upErr := r, rc_up := (case r of None \<Rightarrow> Posting None | Some e \<Rightarrow> Waking e)\<rparr>"
    and w: "rc_up s = Writing" by (auto simp: uploadReturns_def split: if_splits)
  from assms(1) w have n: "\<not> joined (rc_main s)" "rc_upErr s = None" "rc_chan s = None"
    by (auto simp: race_inv_def upload_inv_def)
  have "upload_inv s'" using n by (cases r) (simp_all add: s' upload_inv_def)
  moreover have "rc_dl s' = deadlines_at s'" "late_inv s'"
    using assms(1) n w by (cases r; cases "rc_main s"; simp add: s' race_inv_def race_inv_defs)+
  moreover have "result_inv req wr s'"
    using assms(1) n by (cases "rc_main s") (simp_all add: s' race_inv_def result_inv_def)
  moreover have "seen_inv wire s'" using assms(1) n by (auto simp: s' race_inv_def seen_inv_def)
  ultimately show ?thesis by (simp add: race_inv_def)
qed

lemma uploadStep_inv:
  assumes "race_inv req wr wire s" "uploadStep s = Some s'"
  shows "race_inv req wr wire s'"
proof -
  have up: "(\<exists>e. rc_up s = Waking e) \<or> (\<exists>r. rc_up s = Posting r)"
    using assms(2) by (auto simp: uploadStep_def split: upload_pc.splits)
  then have n: "\<not> joined (rc_main s)" "rc_chan s = None" using assms(1) by (auto simp: race_inv_def upload_inv_def)
  have f: "rc_main s' = rc_main s" "rc_wire s' = rc_wire s" "rc_seen s' = rc_seen s" "rc_upErr s' = rc_upErr s"
    using assms(2) by (auto simp: uploadStep_def split: upload_pc.splits if_splits)
  have "upload_inv s'"
    using assms n by (auto simp: race_inv_def upload_inv_def uploadStep_def split: upload_pc.splits)
  moreover have "rc_dl s' = deadlines_at s'" "late_inv s'"
    using assms n up by (cases "rc_main s"; auto simp: race_inv_def race_inv_defs uploadStep_def no_deadlines_def)+
  moreover have "result_inv req wr s'"
    using assms n up by (cases "rc_main s") (auto simp: race_inv_def result_inv_def uploadStep_def)
  moreover have "seen_inv wire s'" using assms(1) by (simp add: f race_inv_def seen_inv_def)
  ultimately show ?thesis by (simp add: race_inv_def)
qed

lemma onRead_frame:
  "rc_up (onRead req wr x s) = rc_up s" "rc_chan (onRead req wr x s) = rc_chan s" "rc_dl (onRead req wr x s) = rc_dl s"
  "rc_wire (onRead req wr x s) = rc_wire s" "rc_late (onRead req wr x s) = rc_late s"
  "rc_upErr (onRead req wr x s) = rc_upErr s" "rc_seen (onRead req wr x s) = rc_seen s @ [x]"
  "rc_main (onRead req wr x s) = rc_main s \<or> rc_main (onRead req wr x s) = RSelect"
  by (simp_all add: onRead_def Let_def split: sum.split option.split)

lemma onRead_result:
  assumes "reading_inv req wr s" "rc_main s = RRead"
  shows "result_inv req wr (onRead req wr x s)"
proof -
  from assms(1) have r: "readThroughInterim req wr (rc_seen s @ x # rest) [] = readThroughInterim req wr (x # rest) (rc_written s)"
    for rest by (simp add: reading_inv_def)
  show ?thesis
  proof (cases x)
    case (Inl e)
    with r assms show ?thesis by (simp add: onRead_def result_inv_def has_read_def reading_inv_def)
  next
    case (Inr resp)
    with r assms show ?thesis
      by (auto simp: onRead_def result_inv_def has_read_def reading_inv_def Let_def split: option.splits)
  qed
qed

lemma onRead_inv:
  assumes "upload_inv s" "rc_dl s = deadlines_at s" "late_inv s" "reading_inv req wr s" "rc_main s = RRead"
  shows "upload_inv (onRead req wr x s) \<and> rc_dl (onRead req wr x s) = deadlines_at (onRead req wr x s) \<and>
    late_inv (onRead req wr x s) \<and> result_inv req wr (onRead req wr x s)"
  using onRead_result [OF assms(4,5)] assms onRead_frame(8) [of req wr x s]
  by (cases "rc_up s") (auto simp: race_inv_defs onRead_frame)

lemma readArrives_inv:
  assumes "race_inv req wr wire s" "readArrives req wr s = Some s'"
  shows "race_inv req wr wire s'"
proof -
  from assms(2) obtain x rest where x: "rc_wire s = x # rest" "rc_main s = RRead"
    "s' = onRead req wr x (s\<lparr>rc_wire := rest\<rparr>)"
    by (auto simp: readArrives_def split: list.splits if_splits)
  let ?s = "s\<lparr>rc_wire := rest\<rparr>"
  have "upload_inv ?s" "rc_dl ?s = deadlines_at ?s" "late_inv ?s" "reading_inv req wr ?s" "rc_main ?s = RRead"
    using assms(1) x(2) by (cases "rc_up s"; simp add: race_inv_def race_inv_defs result_inv_def reading_inv_def)+
  from onRead_inv [OF this] x(3) have "upload_inv s' \<and> rc_dl s' = deadlines_at s' \<and> late_inv s' \<and> result_inv req wr s'"
    by simp
  moreover have "seen_inv wire s'" using assms(1) x by (auto simp: race_inv_def seen_inv_def onRead_frame)
  ultimately show ?thesis by (simp add: race_inv_def)
qed

lemma readExpires_inv:
  assumes "race_inv req wr wire s" "readExpires req wr s = Some s'"
  shows "race_inv req wr wire s'"
proof -
  from assms(2) have x: "rc_main s = RRead" "dl_upstreamRead (rc_dl s)" "s' = onRead req wr (Inl readTimeout) s"
    by (auto simp: readExpires_def split: if_splits)
  from assms(1) x(1) have i: "upload_inv s" "rc_dl s = deadlines_at s" "late_inv s" "reading_inv req wr s"
    "seen_inv wire s" by (simp_all add: race_inv_def result_inv_def)
  from i(2) x(1,2) have "rc_upErr s \<noteq> None" by (simp add: deadlines_at_def wakes_def)
  with i(5) x(1,3) have "seen_inv wire s'" by (auto simp: seen_inv_def onRead_def)
  with onRead_inv [OF i(1-4) x(1)] x(3) show ?thesis by (simp add: race_inv_def)
qed

lemma RFix_result:
  assumes "has_read req wr s resp" "rc_resp s = cut_resp s resp" "rc_requestErr s = cut_err s resp"
    and "rc_dl s = \<lparr>dl_clientRead = rc_late s \<and> rc_upErr s \<noteq> None, dl_upstreamWrite = rc_late s \<and> rc_upErr s \<noteq> None,
      dl_upstreamRead = False\<rparr>"
    and "(r, werr) = (if rc_resp s \<noteq> None \<and> rc_requestErr s \<noteq> None then (closeResp (rc_resp s), None)
      else (rc_resp s, rc_requestErr s))"
  shows "\<lparr>ex_resp = r, ex_requestErr = werr, ex_clientErr = rc_clientErr s, ex_err = rc_err s,
      ex_written = rc_written s, ex_rest = rc_wire s, ex_deadlines = rc_dl s\<rparr> =
    exchangeAsync req wr (Upload (rc_late s) (rc_upErr s)) (rc_seen s @ rc_wire s)"
proof -
  from assms(1) obtain out where out: "readThroughInterim req wr (rc_seen s @ rc_wire s) [] =
      \<lparr>rr_outcome = out, rr_written = rc_written s, rr_rest = rc_wire s\<rparr>"
    "of_outcome out = (resp, rc_clientErr s, rc_err s)" by (auto simp: has_read_def)
  show ?thesis
    using assms(2-5)
    by (cases "rc_late s"; cases "rc_upErr s"; cases resp)
      (simp_all add: exchangeAsync_def out cut_resp_def cut_err_def closeResp_def no_deadlines_def)
qed

lemma exchangeStep_frame:
  assumes "exchangeStep s = Some s'"
  shows "rc_wire s' = rc_wire s" "rc_seen s' = rc_seen s" "rc_upErr s' = rc_upErr s" "rc_up s' = rc_up s"
    "rc_main s' \<noteq> RRead"
  using assms by (auto simp: exchangeStep_def Let_def split: race_pc.splits option.splits if_splits)

lemma exchangeStep_result:
  assumes "race_inv req wr wire s" "exchangeStep s = Some s'"
  shows "result_inv req wr s'"
proof (cases "rc_main s")
  case RFix
  from RFix assms(1) obtain resp where r: "has_read req wr s resp" "rc_resp s = cut_resp s resp"
    "rc_requestErr s = cut_err s resp" by (auto simp: race_inv_def result_inv_def)
  from RFix assms(1) have dl: "rc_dl s = \<lparr>dl_clientRead = rc_late s \<and> rc_upErr s \<noteq> None,
      dl_upstreamWrite = rc_late s \<and> rc_upErr s \<noteq> None, dl_upstreamRead = False\<rparr>"
    by (simp add: race_inv_def deadlines_at_def Let_def)
  let ?p = "if rc_resp s \<noteq> None \<and> rc_requestErr s \<noteq> None then (closeResp (rc_resp s), None)
    else (rc_resp s, rc_requestErr s)"
  obtain v werr where p: "(v, werr) = ?p" by (metis surj_pair)
  from RFix assms(2) p [symmetric] have "s' = s\<lparr>rc_main := RReturned \<lparr>ex_resp = v, ex_requestErr = werr,
      ex_clientErr = rc_clientErr s, ex_err = rc_err s, ex_written = rc_written s, ex_rest = rc_wire s,
      ex_deadlines = rc_dl s\<rparr>\<rparr>"
    by (simp only: exchangeStep_def race_pc.case Let_def prod.case option.inject)
  with RFix_result [OF r dl p, symmetric] show ?thesis by (simp add: result_inv_def)
next
  case RReset
  from RReset assms(1) obtain resp where "has_read req wr s resp" "rc_resp s = cut_resp s resp"
    "rc_requestErr s = cut_err s resp" by (auto simp: race_inv_def result_inv_def)
  with RReset assms(2) show ?thesis by (auto simp: result_inv_def exchangeStep_def)
next
  case RUndoUpstream
  with assms have "has_read req wr s (rc_resp s)" "rc_late s" "rc_upErr s = None" "rc_requestErr s = None"
    by (simp_all add: race_inv_def result_inv_def late_inv_def)
  with RUndoUpstream assms(2) show ?thesis
    by (auto simp: result_inv_def exchangeStep_def cut_resp_def cut_err_def intro!: exI [of _ "rc_resp s"])
qed (use assms in \<open>auto simp: race_inv_def race_inv_defs result_inv_def exchangeStep_def cut_resp_def cut_err_def
  split: option.splits upload_pc.splits if_splits\<close>)

lemma exchangeStep_inv:
  assumes "race_inv req wr wire s" "exchangeStep s = Some s'"
  shows "race_inv req wr wire s'"
proof -
  note f = exchangeStep_frame [OF assms(2)]
  have "upload_inv s'"
    using assms by (cases "rc_main s"; cases "rc_up s")
      (auto simp: race_inv_def upload_inv_def exchangeStep_def Let_def split: option.splits if_splits)
  moreover have "rc_dl s' = deadlines_at s'" "late_inv s'"
    using assms by (cases "rc_main s"; cases "rc_up s";
      auto simp: race_inv_def race_inv_defs exchangeStep_def no_deadlines_def Let_def split: option.splits if_splits)+
  moreover have "seen_inv wire s'" using assms(1) f by (auto simp: race_inv_def seen_inv_def)
  ultimately show ?thesis using exchangeStep_result [OF assms] by (simp add: race_inv_def)
qed

lemma race_step_inv: "race_inv req wr wire s \<Longrightarrow> race_step req wr s s' \<Longrightarrow> race_inv req wr wire s'"
  by (erule race_stepE)
    (auto intro: uploadReturns_inv uploadStep_inv readArrives_inv readExpires_inv exchangeStep_inv)

section \<open>Bounded runs\<close>

text \<open>The exchange no longer needs its peers: the reader has a result, or the upload has failed.\<close>

definition settled :: "race \<Rightarrow> bool" where
  "settled s \<longleftrightarrow> rc_main s \<noteq> RRead \<or> rc_upErr s \<noteq> None"

definition race_over :: "race \<Rightarrow> bool" where
  "race_over s \<longleftrightarrow> (case rc_main s of RReturned _ \<Rightarrow> True | _ \<Rightarrow> False)"

fun up_rank :: "upload_pc \<Rightarrow> nat" where
  "up_rank Writing = 3"
| "up_rank (Waking _) = 2"
| "up_rank (Posting _) = 1"
| "up_rank Uploaded = 0"

fun race_pc_rank :: "race_pc \<Rightarrow> nat" where
  "race_pc_rank RRead = 9"
| "race_pc_rank RSelect = 8"
| "race_pc_rank RCancelClient = 7"
| "race_pc_rank RCancelUpstream = 6"
| "race_pc_rank RJoin = 5"
| "race_pc_rank RUndoClient = 4"
| "race_pc_rank RUndoUpstream = 3"
| "race_pc_rank RReset = 2"
| "race_pc_rank RFix = 1"
| "race_pc_rank (RReturned _) = 0"

definition race_rank :: "race \<Rightarrow> nat" where
  "race_rank s = up_rank (rc_up s) + race_pc_rank (rc_main s) + length (rc_wire s)"

text \<open>A move that needs no peer: one of the goroutines' own steps, a read whose deadline is in the past,
  or an upload both of whose connections have theirs in the past.\<close>

definition race_own :: "request \<Rightarrow> (nat \<Rightarrow> go_error option) \<Rightarrow> race \<Rightarrow> race \<Rightarrow> bool" where
  "race_own req wr s s' \<longleftrightarrow>
     uploadStep s = Some s' \<or> exchangeStep s = Some s' \<or> readExpires req wr s = Some s' \<or>
     dl_clientRead (rc_dl s) \<and> dl_upstreamWrite (rc_dl s) \<and> uploadReturns (Some readTimeout) s = Some s'"

lemma race_rank_step: "race_step req wr s s' \<Longrightarrow> race_rank s' < race_rank s"
proof (erule race_stepE)
  show "uploadReturns r s = Some s' \<Longrightarrow> race_rank s' < race_rank s" for r
    by (cases r) (auto simp: uploadReturns_def race_rank_def split: if_splits)
  show "uploadStep s = Some s' \<Longrightarrow> race_rank s' < race_rank s"
    by (auto simp: uploadStep_def race_rank_def split: upload_pc.splits if_splits)
  show "readArrives req wr s = Some s' \<Longrightarrow> race_rank s' < race_rank s"
    using onRead_frame(8) [of req wr "hd (rc_wire s)" "s\<lparr>rc_wire := tl (rc_wire s)\<rparr>"]
    by (auto simp: readArrives_def race_rank_def onRead_frame split: list.splits if_splits)
  show "readExpires req wr s = Some s' \<Longrightarrow> race_rank s' < race_rank s"
    by (auto simp: readExpires_def race_rank_def onRead_def split: if_splits)
  show "exchangeStep s = Some s' \<Longrightarrow> race_rank s' < race_rank s"
    by (auto simp: exchangeStep_def race_rank_def Let_def split: race_pc.splits option.splits if_splits)
qed

lemma race_own_step: "race_own req wr s s' \<Longrightarrow> race_step req wr s s'"
  by (auto simp: race_own_def intro: race_step.intros)

lemma settled_step: "race_inv req wr wire s \<Longrightarrow> settled s \<Longrightarrow> race_step req wr s s' \<Longrightarrow> settled s'"
proof (erule race_stepE)
  assume inv: "race_inv req wr wire s" and "settled s"
  then show "uploadReturns r s = Some s' \<Longrightarrow> settled s'" for r
    by (auto simp: uploadReturns_def settled_def race_inv_def upload_inv_def split: if_splits)
  show "uploadStep s = Some s' \<Longrightarrow> settled s'"
    using \<open>settled s\<close> by (auto simp: uploadStep_def settled_def split: upload_pc.splits if_splits)
  show "readArrives req wr s = Some s' \<Longrightarrow> settled s'"
    using \<open>settled s\<close> by (auto simp: readArrives_def settled_def onRead_frame split: list.splits if_splits)
  show "readExpires req wr s = Some s' \<Longrightarrow> settled s'"
    by (auto simp: readExpires_def settled_def onRead_def split: if_splits)
  show "exchangeStep s = Some s' \<Longrightarrow> settled s'"
    by (auto simp: settled_def dest: exchangeStep_frame(5))
qed

lemma race_progress:
  assumes inv: "race_inv req wr wire s" and "settled s" "\<not> race_over s"
  shows "\<exists>s'. race_own req wr s s'"
proof (cases "uploadStep s = None \<and> exchangeStep s = None")
  case True
  from True inv have up: "rc_up s = Writing \<or> rc_up s = Uploaded"
    by (cases "rc_up s") (auto simp: uploadStep_def race_inv_def upload_inv_def)
  from True assms(3) have "rc_main s = RRead \<or> rc_main s = RJoin"
    by (cases "rc_main s") (auto simp: exchangeStep_def race_over_def Let_def split: option.splits if_splits)
  then show ?thesis
  proof
    assume m: "rc_main s = RRead"
    with assms(2) have "rc_upErr s \<noteq> None" by (simp add: settled_def)
    with up inv have "wakes s" by (auto simp: wakes_def race_inv_def upload_inv_def)
    with m inv have "dl_upstreamRead (rc_dl s)" by (simp add: race_inv_def deadlines_at_def)
    with m show ?thesis by (auto simp: race_own_def readExpires_def)
  next
    assume m: "rc_main s = RJoin"
    with True inv have "rc_up s \<noteq> Uploaded"
      by (auto simp: exchangeStep_def race_inv_def upload_inv_def split: option.splits)
    with up have w: "rc_up s = Writing" by blast
    from m inv have "dl_clientRead (rc_dl s)" "dl_upstreamWrite (rc_dl s)" by (simp_all add: race_inv_def deadlines_at_def)
    with w show ?thesis by (auto simp: race_own_def uploadReturns_def)
  qed
qed (auto simp: race_own_def)

interpretation race: ranked_system "race_start wire" "race_step req wr" "race_inv req wr wire" settled race_rank
    race_over "race_own req wr" for wire req wr
proof unfold_locales
  show "s' \<noteq> s" if "race_own req wr s s'" for s s'
    using race_rank_step [OF race_own_step [OF that]] by auto
qed (auto intro: race_inv_start race_step_inv settled_step race_own_step race_progress dest: race_rank_step)

section \<open>Properties\<close>


text \<open>A client that withholds its body and is answered 417: the upload is cancelled.\<close>

definition race_request :: request where
  "race_request = \<lparr>req_Method = ''POST'', req_Host = ''a.b'', req_RequestURI = ''http://a.b/'',
     req_Proto = ''HTTP/1.1'', req_ProtoMajor = 1, req_ProtoMinor = 1, req_Header = [(''Expect'', [''100-continue''])],
     req_TransferEncoding = [], req_Trailer = None, req_Close = False, req_Body = Body ''x''\<rparr>"

definition race_417 :: "(race \<Rightarrow> race option) list" where
  "race_417 =
     [readArrives race_request (\<lambda>k. None), readArrives race_request (\<lambda>k. None), exchangeStep, exchangeStep, exchangeStep,
      uploadReturns (Some readTimeout), uploadStep, uploadStep, exchangeStep, exchangeStep, exchangeStep]"

definition wire_417 :: "(go_error + response) list" where
  "wire_417 = [Inr (sample_response 103), Inr (sample_response 417), Inr (sample_response 200)]"




text \<open>The price of the wake-up: an answer that has arrived but not been read when the upload fails is lost.
  The upstream answers 413 and stops reading; the uploader notices first and expires the read.\<close>

definition race_413 :: "(race \<Rightarrow> race option) list" where
  "race_413 =
     [uploadReturns (Some (Sentinel EPIPE)), uploadStep, readExpires race_request (\<lambda>k. None), uploadStep,
      exchangeStep, exchangeStep, exchangeStep]"

lemma early_response_lost:
  "\<exists>s ex. race_reach race_request (\<lambda>k. None) [Inr (sample_response 413)] s \<and> rc_main s = RReturned ex \<and>
     ex_resp ex = None \<and> ex_requestErr ex = Some (Sentinel EPIPE) \<and> ex_rest ex = [Inr (sample_response 413)]"
proof -
  have "case play race_413 (race_start [Inr (sample_response 413)]) of
      Some s \<Rightarrow> (case rc_main s of RReturned ex \<Rightarrow> ex_resp ex = None \<and> ex_requestErr ex = Some (Sentinel EPIPE) \<and>
        ex_rest ex = [Inr (sample_response 413)] | _ \<Rightarrow> False) | None \<Rightarrow> False" by code_simp
  then obtain s ex where s: "play race_413 (race_start [Inr (sample_response 413)]) = Some s" "rc_main s = RReturned ex"
    "ex_resp ex = None" "ex_requestErr ex = Some (Sentinel EPIPE)" "ex_rest ex = [Inr (sample_response 413)]"
    by (auto split: option.splits race_pc.splits)
  have "race_reach race_request (\<lambda>k. None) [Inr (sample_response 413)] s"
    by (rule play_reach [OF s(1) reach_init]) (auto simp: race_413_def intro: race_step.intros)
  with s show ?thesis by blast
qed

end
