(* ===== verification/Spec2Isabelle.thy ===== *)
theory Spec2Isabelle
  imports Session_Service Cli Tunnel_Run Idle_Shutdown Serve_Loop Exchange_Race
begin

text \<open>
  A verification library for spnego-proxy, a local HTTP proxy that adds SPNEGO authentication to requests
  forwarded to an upstream proxy. The program is written in Go; the sources are src/main.go, src/cli.go,
  src/version.go and the package src/internal/proxy.

  \<^bold>\<open>The program and its theories.\<close> The start of the program parses flags, builds a token provider and a
  configuration, listens, and hands the listener to \<^verbatim>\<open>Serve\<close>. \<^verbatim>\<open>Serve\<close> accepts client connections, runs
  one session per connection and drains them on shutdown. A session reads requests, validates them, and
  relays each to the upstream proxy (with a token on the first request of an upstream connection),
  directly to a host of the no-proxy list, or turns a CONNECT request into a tunnel.

  \<^item> Go_Prelude, Go_Values, Host_Port, Http_Header, Ip_Addr: what the program uses of Go's library (strings, numbers,
    \<^verbatim>\<open>net.SplitHostPort\<close>, \<^verbatim>\<open>http.Header\<close>, \<^verbatim>\<open>netip\<close> and \<^verbatim>\<open>net.IPNet\<close>, \<^verbatim>\<open>strconv.ParseInt\<close> and
    \<^verbatim>\<open>time.ParseDuration\<close> with the functions that print their values), with the host helpers of dial.go and
    direct.go and the constants of headers_const.go. Strings are byte strings; Go's lower-casing of
    non-ASCII text is an argument.
  \<^item> Transition: runs of goroutines as a step relation. The locale \<open>transition_system\<close> gives invariants of
    all reachable states, its extension \<open>ranked_system\<close> that every run is bounded and can be completed by
    the program's own moves. Idle_Shutdown, Serve_Loop, Breaker_Lock, Exchange_Race and Tunnel_Run
    interpret them.
  \<^item> Proxy_Errors: errors.go, errors_proxy.go and the error classification of connect.go. Errors are
    values with a chain of causes.
  \<^item> Header_Rules: headers.go. Hop-by-hop sanitisation is exact, Via keeps one value, forwarding headers.
  \<^item> Access_Config, No_Proxy: config.go and noproxy.go. Both compiled lists mean what their text says.
  \<^item> Response_Check: response.go. Validation of responses, interim responses, and one request/response
    exchange as a function of how its upload ends.
  \<^item> Exchange_Race: the goroutines of \<^verbatim>\<open>exchangeRequest\<close> for a client that expects 100 Continue, one step per
    channel operation and deadline change; every interleaving ends as Response_Check describes.
  \<^item> Upstream_Dial: the rest of dial.go.
  \<^item> Client_Session: session.go, forward.go, direct.go and \<^verbatim>\<open>handleConnectTunnel\<close>. The record
    \<^verbatim>\<open>ClientSession\<close> is the state; every operation is a function on it that also appends to a trace of
    what the session does. The world (peers, clock, tokens, cancellation, and the dynamic type of the
    client's connection, which decides what keep-alive and half-close do) is the record \<open>env\<close>, asked at
    moments counted along the trace. The keep-alive loops are total functions: each round consumes a
    request of the client's input.
  \<^item> Session_Protocol, Session_Safety, Session_Service: an abstract protocol machine that every trace
    follows (a refinement, proved operation by operation), what follows from it for requests, tunnels,
    shutdown and connections, and that requests are in fact served in a cooperating environment.
  \<^item> Token_Provider, Gokrb5_Provider: the providers of auth_gss_darwin.go, auth_notdarwin.go,
    auth_nocgo_darwin.go and auth_gokrb5.go and the breaker of circuit_breaker.go. The interface
    \<^verbatim>\<open>TokenProvider\<close> is the locale \<open>token_provider\<close>, interpreted for both providers, for the breaker
    around each, and for the source that the flags choose.
  \<^item> Breaker_Lock: \<^verbatim>\<open>GetToken\<close> of circuit_breaker.go called by any number of sessions at once, over its
    mutex; the calls are serialisable, so what holds of a sequence of calls holds of all interleavings.
  \<^item> Tunnel_Clock: the lock-free idle clock of connect.go under arbitrary schedules, one atomic operation
    per step.
  \<^item> Tunnel_IO: \<^verbatim>\<open>idleCopy\<close>, \<^verbatim>\<open>forwardHalf\<close> and \<^verbatim>\<open>forwardTunnel\<close> of connect.go and the tracked
    connection of tunnel_write.go, tunnel_write_unix.go and tunnel_write_other.go. The contract of
    \<^verbatim>\<open>io.Writer\<close> is the locale \<open>io_writer\<close>, interpreted for the tracked connection; the copy loops are
    verified inside it. The clock's answers enter as the quiet times it returned.
  \<^item> Tunnel_Run: a whole tunnel as the interleaving of its two goroutines over the shared clock, one step
    per use of the clock, change of a deadline, read, transport write and close. Every run has an outcome
    that the functions of Tunnel_IO describe.
  \<^item> Idle_Shutdown: \<^verbatim>\<open>readRequest\<close> against \<^verbatim>\<open>beginShutdown\<close> in forward.go, interleaved over the mutex.
  \<^item> Serve_Loop: server.go, as a step relation over its goroutines.
  \<^item> Cli: cli.go, version.go and main.go.
  \<^item> This theory: properties that follow a flag of the command line to what a running proxy does.

  \<^bold>\<open>What is shown.\<close> Requests are sent only after validation, to where routing says, with a credential
  exactly where one belongs; answers and requests alternate and in a cooperating environment every request
  is answered; no connection leaks; tunnels open only after a granted CONNECT, deliver what they read, are
  ended as idle only after a timeout without progress in both directions, do end when their peers fall
  silent, and are torn down completely; shutdown spares requests in service and misses no
  idle connection; \<^verbatim>\<open>Serve\<close> drains and returns. Concurrent token requests behave as if made one
  after the other; login attempts are limited by the breaker and by the password guard; credentials and
  relayed header lines cannot split a message. Requests leave with well-formed headers and without
  hop-by-hop fields. The race of an upload with an early response has only the outcomes of the sequential
  description and cannot deadlock. Values survive the command line. Every property with a hypothesis
  is followed by a theorem that applies it to a concrete input.

  \<^bold>\<open>Bounds.\<close> Loops that wait for the world consume a script of its answers, one entry per attempt, and are
  \<open>Running\<close> (or \<open>None\<close>) when it is used up; separate theorems show that they return: five rounds suffice
  for the buffered write, a round that finds the clock idle for the copy loop. Runs of goroutines are
  bounded by a rank: twelve moves for the shutdown of a connection, the active sessions and seven for
  \<^verbatim>\<open>Serve\<close>, the responses still to come and twelve for an exchange, sixteen for each byte in flight or
  record of progress pending and 34 for a tunnel whose peers are silent (a tunnel is taken to be younger
  than the 292 years after which \<^verbatim>\<open>time.Since\<close> saturates). Durations and counters are
  integers with Go's 64-bit wrap written out where a subtraction could wrap, the breaker's threshold is a
  32-bit word, and the conversions are shown to be exact for validated flags.

  \<^bold>\<open>Assumptions.\<close> Third-party code is an argument: gokrb5 is the record \<open>krb5\<close>, sony/gobreaker a pair of
  operations that satisfy \<open>documented_breaker\<close> (its documented states, with an instance), the GSS binding a
  function from the principal name to its result structure. Network, TLS, files and terminal are arguments
  as well. Within one session the model is sequential; its two concurrent parts, the upload of a request
  and the shutdown watcher, enter it as answers of the environment and are the subjects of Exchange_Race
  and Idle_Shutdown.

  \<^bold>\<open>Not modelled.\<close> gss_darwin.c and gss_darwin.h (C code over the macOS framework); the bytes of the HTTP
  wire format as read and written by net/http, except where the program writes them itself; the text of log
  lines and usage messages; the connection limiter, except that its connections have a type of their own,
  and the signal handler; the pool of copy buffers, which only saves allocations; the TLS record layer
  between the copy loop and the transport in Tunnel_Run, whose connections are plain ones (Tunnel_IO covers
  the teardown of TLS connections); doc.go, tests, formal/, documentation and build files.
\<close>

section \<open>From the command line to the session\<close>

text \<open>A concrete start: password authentication, an allowlist, TLS to the upstream.\<close>

definition sample_args :: "string list" where
  "sample_args = [''-proxy'', ''proxy:8080'', ''-user'', ''u'', ''-realm'', ''R'', ''-config'', ''krb5.conf'',
     ''-password-file'', ''/pw'', ''-allowed-ips'', ''10.0.0.0/8'', ''-upstream-tls'', ''-cb-threshold=2'',
     ''-cb-timeout'', ''0.5m'']"

definition sample_system :: system where
  "sample_system = \<lparr>sys_platform = NotDarwin, sys_os = sample_os ''secret'', sys_loadConfig = (\<lambda>f. None),
     sys_key = replicate 32 CHR ''k'', sys_rand = (\<lambda>n. Some (replicate n CHR ''a'')),
     sys_readFile = (\<lambda>f. Inl (Plain ''no file'')), sys_pem = (\<lambda>b. False), sys_getenv = (\<lambda>v. []),
     sys_lower = id, sys_listen = (\<lambda>a. None)\<rparr>"

definition sample_main :: "(breaker_view, nat) outcome" where
  "sample_main = main sample_system (\<lambda>s. Closed 0) [] [] sample_args"

lemma sample_flags: "\<exists>c. parseFlags sample_args = Inr c \<and> c_AllowedIPs c = ''10.0.0.0/8'' \<and>
    c_UpstreamTLS c \<and> c_UpstreamCA c = [] \<and> c_Proxy c = ''proxy:8080'' \<and> c_CBThreshold c = 2 \<and> c_CBTimeout c = 30000000000"
proof -
  have "case parseFlags sample_args of
      Inr c \<Rightarrow> c_AllowedIPs c = ''10.0.0.0/8'' \<and> c_UpstreamTLS c \<and> c_UpstreamCA c = [] \<and> c_Proxy c = ''proxy:8080'' \<and>
        c_CBThreshold c = 2 \<and> c_CBTimeout c = 30000000000
    | Inl _ \<Rightarrow> False" by code_simp
  then show ?thesis by (auto split: sum.splits)
qed

lemma sample_served: "\<exists>cfg provider lim drain. sample_main = Served cfg provider lim drain"
proof -
  have "case sample_main of Served _ _ _ _ \<Rightarrow> True | _ \<Rightarrow> False" by code_simp
  then show ?thesis by (auto split: outcome.splits)
qed

text \<open>C25: The allowlist flag is enforced. In a proxy started from any command line with a non-empty
  -allowed-ips list, a client whose address no entry of that list covers gets the 403 answer, its
  input is discarded, and the connection closed; nothing else happens: no request is parsed, no token is
  acquired and nothing is dialled.\<close>

theorem started_denies_unlisted:
  assumes "main sys new version commit args = Served cfg provider lim drain"
    and "parseFlags args = Inr c" and "SplitCSV (c_AllowedIPs c) \<noteq> []"
    and "\<not> (\<exists>e\<in>set (SplitCSV (c_AllowedIPs c)). \<exists>a n. entry_prefix e = Some (a, n) \<and>
      covers (net_meaning a n) (parseIP (extractHost addr)))"
  shows "handleClientCtx cfg env addr reqs = EError errClientDenied # EDrain # closeClient env"
proof -
  from main_Served [OF assms(1)] assms(2) obtain pseudonym where
    p: "GenerateViaPseudonym (sys_rand sys) = Some pseudonym" "buildConfig sys c pseudonym = Inr cfg"
    by (metis sum.inject(2))
  from unlisted_client_denied [OF _ buildConfig_Inr(1) [OF p(2)] assms(3,4)] pseudonym_nonempty [OF p(1)]
    buildConfig_Inr(2) [OF p(2)] show ?thesis by blast
qed

theorem started_denies_unlisted_witness:
  "\<exists>cfg provider lim drain. sample_main = Served cfg provider lim drain \<and>
     handleClientCtx cfg (sample_env None) ''11.0.0.1:5'' sample_requests =
       [EError errClientDenied, EDrain, EClientCloseWrite, EClientClose]"
proof -
  obtain c where c: "parseFlags sample_args = Inr c" "c_AllowedIPs c = ''10.0.0.0/8''"
    using sample_flags by blast
  obtain cfg provider lim drain where m: "sample_main = Served cfg provider lim drain" using sample_served by blast
  have csv: "SplitCSV ''10.0.0.0/8'' = [''10.0.0.0/8'']"
    and e: "entry_prefix ''10.0.0.0/8'' = Some (V4 [10, 0, 0, 0], 8)"
    and no: "\<not> covers (net_meaning (V4 [10, 0, 0, 0]) 8) (parseIP (extractHost ''11.0.0.1:5''))"
    by code_simp+
  from started_denies_unlisted [OF m [unfolded sample_main_def] c(1), of "''11.0.0.1:5''" "sample_env None" sample_requests]
    c(2) csv e no m show ?thesis by (auto simp: closeClient_def sample_env_def)
qed

text \<open>C26: The upstream TLS flag is enforced. In a proxy started with -upstream-tls, every connection to
  the upstream that the session layer is given has completed a TLS handshake, at version 1.2 or later,
  that verified the host of the -proxy flag against the roots of the -upstream-ca file (the system roots
  without one); verification is off only under -upstream-tls-insecure, and there is no fall back to a
  plain connection.\<close>

theorem started_verifies_upstream:
  assumes "main sys new version commit args = Served cfg provider lim drain"
    and "parseFlags args = Inr c" and "c_UpstreamTLS c"
    and "do_result (dialUpstream dial handshake now (cfg_Upstream cfg) (cfg_UpstreamTLS cfg)) = Inr conn"
  shows "\<exists>tc ctx raw. conn = TLSConn tc raw \<and> handshake tc ctx raw = None \<and>
    tc_MinVersion tc = versionTLS12 \<and> tc_ServerName tc = extractHost (c_Proxy c) \<and>
    tc_InsecureSkipVerify tc = c_UpstreamTLSInsecure c \<and>
    (case tc_RootCAs tc of
       None \<Rightarrow> c_UpstreamCA c = []
     | Some ca \<Rightarrow> c_UpstreamCA c \<noteq> [] \<and> sys_readFile sys (c_UpstreamCA c) = Inr ca \<and> sys_pem sys ca)"
proof -
  from main_Served [OF assms(1)] assms(2) obtain pseudonym where p: "buildConfig sys c pseudonym = Inr cfg"
    by (metis sum.inject(2))
  have "Enabled \<lparr>Enabled = c_UpstreamTLS c, CAFile = c_UpstreamCA c, InsecureSkipVerify = c_UpstreamTLSInsecure c,
      TLSConfig = None, Dialer = Some \<lparr>nd_Timeout = c_DialTimeout c, nd_Deadline = None\<rparr>\<rparr>" using assms(3) by simp
  from dialUpstream_verified [OF buildConfig_Inr(5) [OF p] this assms(4)] show ?thesis
    by (simp only: buildConfig_Inr(3) [OF p] UpstreamTLSConfig.simps)
qed

theorem started_verifies_upstream_witness:
  "\<exists>cfg provider lim drain tc. sample_main = Served cfg provider lim drain \<and>
     do_result (dialUpstream (\<lambda>d t a. Inr (0::nat)) (\<lambda>t d r. None) 0 (cfg_Upstream cfg) (cfg_UpstreamTLS cfg)) =
       Inr (TLSConn tc 0) \<and> tc_ServerName tc = extractHost ''proxy:8080''"
proof -
  let ?dial = "\<lambda>cfg. do_result (dialUpstream (\<lambda>d t a. Inr (0::nat)) (\<lambda>t d r. None) 0 (cfg_Upstream cfg) (cfg_UpstreamTLS cfg))"
  obtain c where c: "parseFlags sample_args = Inr c" "c_UpstreamTLS c" "c_Proxy c = ''proxy:8080''"
    using sample_flags by blast
  have d: "case sample_main of Served cfg _ _ _ \<Rightarrow> (case ?dial cfg of Inr (TLSConn _ n) \<Rightarrow> n = 0 | _ \<Rightarrow> False) | _ \<Rightarrow> False"
    by code_simp
  obtain cfg provider lim drain where m: "sample_main = Served cfg provider lim drain" using sample_served by blast
  from d obtain tc where t: "?dial cfg = Inr (TLSConn tc 0)"
    unfolding m outcome.case by (auto split: sum.splits upstream_conn.splits)
  from started_verifies_upstream [OF m [unfolded sample_main_def] c(1,2) t] c(3) t m show ?thesis by auto
qed

text \<open>C14: The lockout protection the operator asked for is the one that runs. In a proxy started with
  -cb-threshold n and -cb-timeout d, whatever sessions ask for tokens and however their calls interleave,
  n failed attempts in a row at the credential backend are followed by a pause: the next attempt, finished
  or still in flight, starts more than d after the end of the last of them. The values survive validation
  and the conversion to 32 bits unchanged. The circuit breaker library is assumed to behave as
  documented.\<close>

theorem started_limits_attempts:
  assumes "main sys new version commit args = Served cfg provider lim drain"
    and "parseFlags args = Inr c"
    and "documented_breaker gb new view (cbSettings (cb_threshold provider) (c_CBTimeout c))"
    and "reach (lock_start now provider) (mutex_step gb (sourceGetToken mac)) s"
    and "attempts s = xs @ fs @ y # ys"
    and "int (length fs) = c_CBThreshold c" "list_all (\<lambda>(start, end, ok). \<not> ok) fs"
  shows "fst y > fst (snd (last fs)) + c_CBTimeout c"
proof -
  from main_Served [OF assms(1)] assms(2) have
    v: "validateFlags c = None" and b: "buildProvider sys new c = Inr provider"
    by (metis sum.inject(2))+
  let ?th = "word_of_int (c_CBThreshold c) :: 32 word"
  from buildProvider_Inr [OF b] obtain inner where
    p: "provider = NewCircuitBreakerTokenProvider new inner ?th (c_CBTimeout c)" by blast
  then have th: "cb_threshold provider = ?th" by simp
  note t = validated_threshold [OF v]
  have nz: "?th \<noteq> 0" using t(1,2) by (metis uint_0_eq less_irrefl)
  have len: "length fs = unat ?th" using t(1) assms(6) by (metis nat_int nat_uint_eq)
  have all: "list_all (\<lambda>a. \<not> snd (snd a)) fs" using assms(7) by (simp add: case_prod_unfold)
  show ?thesis
    by (rule breaker_limits_attempts [OF assms(3) [unfolded th] nz t(3) assms(4) [unfolded p] assms(5) len all])
qed

text \<open>Two callers with a wrong password, and a third call after the cooldown.\<close>

type_synonym sample_lock =
  "(breaker_view, nat token_source, (nat, nat) krb_io \<times> (string \<Rightarrow> gss_result) \<times> string) token_lock"

definition sample_world :: "(nat, nat) krb_io \<times> (string \<Rightarrow> gss_result) \<times> string" where
  "sample_world = (sample_io ''bad'' 0, (\<lambda>spn. \<lparr>gr_error_code = 1, gr_error_msg = [], gr_data = None\<rparr>), [])"

definition start_gb :: "breaker_view gobreaker" where
  "start_gb = view_breaker (cbSettings 2 30000000000)"

definition sample_calls :: "(sample_lock \<Rightarrow> sample_lock option) list" where
  "sample_calls =
     [callGetToken 0, callGetToken 1, lockMu 0, beginExecute start_gb 0,
      endExecute start_gb (sourceGetToken (\<lambda>k m. m)) sample_world 0, unlockMu 0, lockMu 1, beginExecute start_gb 1,
      endExecute start_gb (sourceGetToken (\<lambda>k m. m)) sample_world 1, unlockMu 1,
      \<lambda>s. if tl_now s \<le> 30000000001 then Some (s\<lparr>tl_now := 30000000001\<rparr>) else None,
      callGetToken 0, lockMu 0, beginExecute start_gb 0]"

lemma sample_calls_steps:
  "f \<in> set sample_calls \<Longrightarrow> f a = Some b \<Longrightarrow> mutex_step start_gb (sourceGetToken (\<lambda>k m. m)) a b"
  by (auto simp: sample_calls_def intro: mutex_step.intros split: if_splits)

theorem started_limits_attempts_witness:
  "\<exists>c cfg provider lim drain s. parseFlags sample_args = Inr c \<and>
     sample_main = Served cfg provider lim drain \<and> play sample_calls (lock_start 0 provider) = Some s \<and>
     attempts s = [(0, 0, False), (0, 0, False), (30000000001, 30000000001, False)] \<and> 30000000001 > c_CBTimeout c"
proof -
  obtain c where c: "parseFlags sample_args = Inr c" "c_CBThreshold c = 2" "c_CBTimeout c = 30000000000"
    using sample_flags by blast
  obtain cfg provider lim drain where m: "sample_main = Served cfg provider lim drain" using sample_served by blast
  have "case sample_main of Served _ provider _ _ \<Rightarrow> cb_threshold provider = 2 \<and>
      map_option attempts (play sample_calls (lock_start 0 provider)) =
        Some [(0, 0, False), (0, 0, False), (30000000001, 30000000001, False)] | _ \<Rightarrow> False"
    by code_simp
  then obtain s where s: "cb_threshold provider = 2" "play sample_calls (lock_start 0 provider) = Some s"
    "attempts s = [(0, 0, False), (0, 0, False), (30000000001, 30000000001, False)]" unfolding m outcome.case by auto
  have r: "reach (lock_start 0 provider) (mutex_step start_gb (sourceGetToken (\<lambda>k m. m))) s"
    by (rule play_reach [OF s(2) reach_init]) (rule sample_calls_steps)
  have doc: "documented_breaker start_gb (\<lambda>s. Closed 0) id (cbSettings (cb_threshold provider) (c_CBTimeout c))"
    unfolding s(1) c(3) start_gb_def by (rule view_breaker_documented)
  have "attempts s = [] @ [(0, 0, False), (0, 0, False)] @ (30000000001, 30000000001, False) # []" using s(3) by simp
  from started_limits_attempts [OF m [unfolded sample_main_def] c(1) doc r this] c(2)
  have "c_CBTimeout c < 30000000001" by simp
  with m s c(1) show ?thesis by blast
qed

section \<open>From the provider to the wire\<close>

text \<open>A session gets its tokens from the provider, as one of the callers of a run.\<close>

definition provided_by ::
    "'b gobreaker \<Rightarrow> (bytes \<Rightarrow> bytes \<Rightarrow> bytes) \<Rightarrow> ('b, 'c token_source) CircuitBreakerTokenProvider \<Rightarrow>
     ('b, 'c token_source, ('c, 't) krb_io \<times> (string \<Rightarrow> gss_result) \<times> string) token_lock \<Rightarrow> env \<Rightarrow> bool" where
  "provided_by gb mac provider s env \<longleftrightarrow>
     (\<exists>now. reach (lock_start now provider) (mutex_step gb (sourceGetToken mac)) s) \<and>
     (\<forall>t token. env_token env t = Inr token \<longrightarrow> (\<exists>i. (i, Inr token) \<in> set (map (apsnd resultOf) (tl_log s))))"

definition good_world :: "(nat, nat) krb_io \<times> (string \<Rightarrow> gss_result) \<times> string" where
  "good_world = (sample_io ''good'' 0, snd sample_world)"

definition good_calls :: "(sample_lock \<Rightarrow> sample_lock option) list" where
  "good_calls = [callGetToken 0, lockMu 0, beginExecute start_gb 0,
     endExecute start_gb (sourceGetToken (\<lambda>k m. m)) good_world 0, unlockMu 0]"

lemma good_calls_steps:
  "f \<in> set good_calls \<Longrightarrow> f a = Some b \<Longrightarrow> mutex_step start_gb (sourceGetToken (\<lambda>k m. m)) a b"
  by (auto simp: good_calls_def intro: mutex_step.intros)

definition start_env :: "string \<Rightarrow> env" where
  "start_env token = (sample_env None)\<lparr>env_token := (\<lambda>t. Inr token)\<rparr>"

text \<open>C27: No credential on the wire can split a header. In a proxy started from any command line, every
  Proxy-Authorization value of every request any session sends is the Negotiate scheme followed by base64
  text, and holds no control octet, whichever provider the flags chose, whatever the Kerberos library, the
  GSS framework, the breaker and the network answer, and however the sessions' token requests interleave.\<close>

theorem started_credentials_clean:
  assumes "main sys new version commit args = Served cfg provider lim drain"
    and "provided_by gb mac provider s env"
    and "ESend conn form q \<in> set (handleClientCtx cfg env addr reqs)" and "v \<in> set (credentials q)"
  shows "(\<exists>token. v = negotiateScheme @ token \<and> list_all b64_alphabet token) \<and> \<not> hasForbiddenFieldValueByte v"
proof -
  from main_Served [OF assms(1)] obtain c where b: "buildProvider sys new c = Inr provider" by metis
  from assms(3) obtain xs ys where "handleClientCtx cfg env addr reqs = xs @ ESend conn form q # ys"
    by (meson split_list)
  from session_credentials [OF this assms(4)] obtain t token where
    t: "env_token env t = Inr token" "v = negotiateScheme @ token" by blast
  from assms(2) t(1) obtain now i d where r: "reach (lock_start now provider) (mutex_step gb (sourceGetToken mac)) s"
    "(i, d) \<in> set (tl_log s)" "resultOf d = Inr token" by (force simp: provided_by_def)
  from source.logged_token [OF r(1) buildProvider_inv [OF b] r(2,3)] have "list_all b64_alphabet token" .
  with credential_text_clean [OF this] t(2) show ?thesis by blast
qed

text \<open>A session whose token comes from the password provider.\<close>

theorem started_credentials_clean_witness:
  "\<exists>cfg provider lim drain q. sample_main = Served cfg provider lim drain \<and>
     ESend 4 ProxyForm q \<in> set (handleClientCtx cfg (start_env ''YWJj'') ''10.0.0.1:5'' [Inr sample_get]) \<and>
     credentials q = [''Negotiate YWJj''] \<and> \<not> hasForbiddenFieldValueByte ''Negotiate YWJj''"
proof -
  obtain cfg provider lim drain where m: "sample_main = Served cfg provider lim drain" using sample_served by blast
  let ?t = "handleClientCtx cfg (start_env ''YWJj'') ''10.0.0.1:5'' [Inr sample_get]"
  have e: "case sample_main of Served cfg provider _ _ \<Rightarrow>
      (case drop 6 (handleClientCtx cfg (start_env ''YWJj'') ''10.0.0.1:5'' [Inr sample_get]) of
         ESend c form q # _ \<Rightarrow> c = 4 \<and> form = ProxyForm \<and> credentials q = [''Negotiate YWJj''] | _ \<Rightarrow> False)
    | _ \<Rightarrow> False" by code_simp
  have "case sample_main of Served cfg provider _ _ \<Rightarrow>
      map_option (\<lambda>s. map (apsnd resultOf) (tl_log s)) (play good_calls (lock_start 0 provider)) = Some [(0, Inr ''YWJj'')]
    | _ \<Rightarrow> False" by code_simp
  then obtain s where s: "play good_calls (lock_start 0 provider) = Some s"
    "map (apsnd resultOf) (tl_log s) = [(0, Inr ''YWJj'')]" unfolding m outcome.case by auto
  have "reach (lock_start 0 provider) (mutex_step start_gb (sourceGetToken (\<lambda>k m. m))) s"
    by (rule play_reach [OF s(1) reach_init]) (rule good_calls_steps)
  with s(2) have p: "provided_by start_gb (\<lambda>k m. m) provider s (start_env ''YWJj'')"
    by (auto simp: provided_by_def start_env_def sample_env_def)
  from e obtain q es where q: "drop 6 ?t = ESend 4 ProxyForm q # es" "credentials q = [''Negotiate YWJj'']"
    unfolding m outcome.case by (auto split: list.splits event.splits)
  from q(1) have "ESend 4 ProxyForm q \<in> set ?t" by (metis in_set_dropD list.set_intros(1))
  with started_credentials_clean [OF m [unfolded sample_main_def] p this, of "''Negotiate YWJj''"] q(2) m show ?thesis
    by auto
qed

end
